(* ===== verification/Wazy_Prelude.thy ===== *)
theory Wazy_Prelude
  imports Main "HOL-Library.Word"
begin

text \<open>
  Shared vocabulary of the development: the machine integer types of the Go
  sources, the error-threading combinator that stands for the
  \<^verbatim>\<open>if err != nil { return ..., err }\<close> idiom, little-endian byte strings
  (\<^verbatim>\<open>encoding/binary.LittleEndian\<close>), slices of byte buffers with Go's
  slice-bounds panics, and the lemma collections the component theories use.
\<close>

unbundle bit_operations_syntax

section \<open>Machine integers\<close>

type_synonym u8 = "8 word"
type_synonym u16 = "16 word"
type_synonym u32 = "32 word"
type_synonym u64 = "64 word"

named_theorems res_simps \<open>rewriting of error-threading code\<close>
named_theorems word_facts \<open>facts that move word arithmetic to natural numbers\<close>

section \<open>Errors as values\<close>

text \<open>
  A fallible Go function returns \<open>'e + 'a\<close>: \<open>Inl e\<close> is the returned error,
  \<open>Inr x\<close> the result. \<open>bindE\<close> is the early return on a non-nil error.
\<close>

definition bindE :: "'e + 'a \<Rightarrow> ('a \<Rightarrow> 'e + 'b) \<Rightarrow> 'e + 'b" where
  "bindE m f = (case m of Inl e \<Rightarrow> Inl e | Inr x \<Rightarrow> f x)"

lemma bindE_simps [simp, res_simps]:
  "bindE (Inl e) f = Inl e"
  "bindE (Inr x) f = f x"
  by (simp_all add: bindE_def)

lemma bindE_eq_Inr [simp]:
  "bindE m f = Inr y \<longleftrightarrow> (\<exists>x. m = Inr x \<and> f x = Inr y)"
  by (cases m) simp_all

lemma bindE_eq_Inl:
  "bindE m f = Inl e \<longleftrightarrow> m = Inl e \<or> (\<exists>x. m = Inr x \<and> f x = Inl e)"
  by (cases m) simp_all

lemma bindE_cong [fundef_cong]:
  "m = m' \<Longrightarrow> (\<And>x. m' = Inr x \<Longrightarrow> f x = f' x) \<Longrightarrow> bindE m f = bindE m' f'"
  by (cases m') simp_all

lemma bindE_assoc: "bindE (bindE m f) g = bindE m (\<lambda>x. bindE (f x) g)"
  by (cases m) simp_all

text \<open>Every element of a list must succeed, the first error wins.\<close>

fun mapE :: "('a \<Rightarrow> 'e + 'b) \<Rightarrow> 'a list \<Rightarrow> 'e + 'b list" where
  "mapE f [] = Inr []"
| "mapE f (x # xs) = bindE (f x) (\<lambda>y. bindE (mapE f xs) (\<lambda>ys. Inr (y # ys)))"

lemma mapE_length: "mapE f xs = Inr ys \<Longrightarrow> length ys = length xs"
  by (induction xs arbitrary: ys) auto

lemma mapE_cong [fundef_cong]:
  "xs = ys \<Longrightarrow> (\<And>x. x \<in> set ys \<Longrightarrow> f x = g x) \<Longrightarrow> mapE f xs = mapE g ys"
proof (induction ys arbitrary: xs)
  case (Cons y ys)
  then show ?case by simp
qed simp

text \<open>A left fold that stops at the first error: a Go \<^verbatim>\<open>for\<close> loop with an early return.\<close>

fun foldE :: "('s \<Rightarrow> 'a \<Rightarrow> 'e + 's) \<Rightarrow> 's \<Rightarrow> 'a list \<Rightarrow> 'e + 's" where
  "foldE f s [] = Inr s"
| "foldE f s (x # xs) = bindE (f s x) (\<lambda>s'. foldE f s' xs)"

lemma foldE_cong [fundef_cong]:
  "s = t \<Longrightarrow> xs = ys \<Longrightarrow> (\<And>s x. x \<in> set ys \<Longrightarrow> f s x = g s x) \<Longrightarrow> foldE f s xs = foldE g t ys"
proof (induction ys arbitrary: xs s t)
  case (Cons y ys)
  have "foldE f u ys = foldE g u ys" for u
    using Cons.prems(3) by (intro Cons.IH) simp_all
  with Cons.prems show ?case by (simp cong: bindE_cong)
qed simp

lemma foldE_append: "foldE f s (xs @ ys) = bindE (foldE f s xs) (\<lambda>t. foldE f t ys)"
  by (induction xs arbitrary: s) (auto simp: bindE_assoc)

text \<open>An invariant of the loop body is an invariant of the loop.\<close>

lemma foldE_invariant:
  assumes "foldE f s xs = Inr t" and "P s"
    and "\<And>s x s'. x \<in> set xs \<Longrightarrow> P s \<Longrightarrow> f s x = Inr s' \<Longrightarrow> P s'"
  shows "P t"
  using assms
proof (induction xs arbitrary: s)
  case (Cons x xs)
  then obtain s' where s': "f s x = Inr s'" "foldE f s' xs = Inr t" by auto
  with Cons.prems have "P s'" by auto
  with s' Cons.prems show ?case by (intro Cons.IH [of s']) auto
qed simp

lemma foldE_Inl: "foldE f s xs = Inl e \<Longrightarrow> \<exists>s' x. x \<in> set xs \<and> f s' x = Inl e"
proof (induction xs arbitrary: s)
  case (Cons x xs)
  then consider "f s x = Inl e" | t where "foldE f t xs = Inl e" by (auto simp: bindE_eq_Inl)
  then show ?case using Cons.IH by cases (auto, metis)
qed simp

lemma foldE_map: "foldE f s (map g xs) = foldE (\<lambda>s x. f s (g x)) s xs"
  by (induction xs arbitrary: s) (auto intro!: bindE_cong)

lemma foldl_max_in: "foldl max m xs \<in> insert m (set xs)" for m :: "'a::linorder"
proof (induction xs arbitrary: m)
  case (Cons x xs)
  from Cons [of "max m x"] show ?case by (auto simp: max_def split: if_splits)
qed simp

lemma foldl_max_ge: "m \<le> foldl max m xs \<and> (\<forall>y \<in> set xs. y \<le> foldl max m xs)" for m :: "'a::linorder"
proof (induction xs arbitrary: m)
  case (Cons x xs)
  from Cons [of "max m x"] show ?case by auto
qed simp

lemma if_max: "(if m < a then a else m) = max m a" for m a :: "'a::linorder"
  by simp

lemma max_zero_word [simp]: "max 0 s = s" "max s 0 = s" for s :: "'a::len word"
  by (simp_all add: max_def)

lemma mapE_Inl: "mapE f xs = Inl e \<Longrightarrow> \<exists>x \<in> set xs. f x = Inl e"
  by (induction xs) (auto simp: bindE_eq_Inl)

lemma length_concat_replicate [simp]: "length (concat (replicate n xs)) = length xs * n"
  by (induction n) simp_all

section \<open>Byte buffers\<close>

type_synonym bytes = "u8 list"

text \<open>
  \<open>bslice lo hi b\<close> is Go's \<^verbatim>\<open>b[lo:hi]\<close> where it does not panic, that is where
  \<open>lo \<le> hi\<close> and \<open>hi \<le> length b\<close>.
\<close>

definition bslice :: "nat \<Rightarrow> nat \<Rightarrow> 'a list \<Rightarrow> 'a list" where
  "bslice lo hi b = take (hi - lo) (drop lo b)"

lemma length_bslice [simp]: "hi \<le> length b \<Longrightarrow> length (bslice lo hi b) = hi - lo"
  by (simp add: bslice_def)

lemma nth_bslice: "lo + i < hi \<Longrightarrow> hi \<le> length b \<Longrightarrow> bslice lo hi b ! i = b ! (lo + i)"
  by (simp add: bslice_def)

text \<open>\<open>write_at b off v\<close> is \<^verbatim>\<open>copy(b[off:], v)\<close> for \<open>off + length v \<le> length b\<close>.\<close>

definition write_at :: "'a list \<Rightarrow> nat \<Rightarrow> 'a list \<Rightarrow> 'a list" where
  "write_at b off v = take off b @ v @ drop (off + length v) b"

lemma length_write_at [simp]:
  "off + length v \<le> length b \<Longrightarrow> length (write_at b off v) = length b"
  by (simp add: write_at_def)

lemma bslice_write_at_same [simp]:
  "off + length v \<le> length b \<Longrightarrow> bslice off (off + length v) (write_at b off v) = v"
  by (simp add: bslice_def write_at_def)

lemma nth_write_at:
  assumes "off + length v \<le> length b" and "i < length b"
  shows "write_at b off v ! i = (if off \<le> i \<and> i < off + length v then v ! (i - off) else b ! i)"
  using assms by (auto simp: write_at_def nth_append min_def)

lemma bslice_write_at_disjoint:
  assumes "off + length v \<le> length b" and "hi \<le> length b" and "hi \<le> off \<or> off + length v \<le> lo"
  shows "bslice lo hi (write_at b off v) = bslice lo hi b"
  using assms by (intro nth_equalityI) (auto simp: nth_bslice nth_write_at)

section \<open>Little-endian integers\<close>

text \<open>
  \<open>le_bytes k n\<close> is the byte string \<^verbatim>\<open>LittleEndian.PutUint{8k}\<close> writes and
  \<open>le_nat\<close> the number \<^verbatim>\<open>LittleEndian.Uint{8k}\<close> reads.
\<close>

primrec le_bytes :: "nat \<Rightarrow> nat \<Rightarrow> bytes" where
  "le_bytes 0 n = []"
| "le_bytes (Suc k) n = of_nat n # le_bytes k (n div 256)"

primrec le_nat :: "bytes \<Rightarrow> nat" where
  "le_nat [] = 0"
| "le_nat (b # bs) = unat b + 256 * le_nat bs"

lemma length_le_bytes [simp]: "length (le_bytes k n) = k"
  by (induction k arbitrary: n) simp_all

lemma unat_lt_256 [simp]: "unat (b :: u8) < 256"
  using unsigned_less [of b] by simp

lemma le_nat_bound: "le_nat bs < 256 ^ length bs"
proof (induction bs)
  case (Cons b bs)
  have "unat b + 256 * le_nat bs < 256 + 256 * le_nat bs" by simp
  also have "\<dots> \<le> 256 * 256 ^ length bs" using Cons.IH by simp
  finally show ?case by simp
qed simp

lemma le_nat_le_bytes: "le_nat (le_bytes k n) = n mod 256 ^ k"
proof (induction k arbitrary: n)
  case (Suc k)
  have "unat (of_nat n :: u8) = n mod 256" by (simp add: unat_of_nat)
  with Suc show ?case by (simp add: mod_mult2_eq)
qed simp

lemma le_bytes_le_nat: "le_bytes (length bs) (le_nat bs) = bs"
proof (induction bs)
  case (Cons b bs)
  have "(of_nat (unat b + 256 * le_nat bs) :: u8) = of_nat (unat b + 256 * le_nat bs mod 256)"
    by (simp only: word_of_nat_eq_iff) (simp add: take_bit_eq_mod mod_add_right_eq)
  moreover have "(unat b + 256 * le_nat bs) div 256 = le_nat bs"
    by (simp add: div_eq_0_iff)
  ultimately show ?case using Cons.IH by simp
qed simp

section \<open>Bits of bytes and words\<close>

lemma bit_128_int [simp]: "bit (128::int) n \<longleftrightarrow> n = 7"
proof -
  have "bit (2 ^ 7 :: int) n \<longleftrightarrow> n = 7" by (simp only: bit_simps) auto
  then show ?thesis by simp
qed

lemma bit_64_int [simp]: "bit (64::int) n \<longleftrightarrow> n = 6"
proof -
  have "bit (2 ^ 6 :: int) n \<longleftrightarrow> n = 6" by (simp only: bit_simps) auto
  then show ?thesis by simp
qed

lemma and_0x7f: "(w::'a::len word) AND 0x7f = take_bit 7 w"
proof -
  have "(0x7f::'a word) = mask 7" by (simp add: mask_eq_exp_minus_1)
  then show ?thesis by (simp add: take_bit_eq_mask)
qed

lemma byte_bit7: "bit (b::u8) 7 \<longleftrightarrow> 128 \<le> unat b"
proof -
  have "bit b 7 \<longleftrightarrow> bit (unat b) 7" by (simp add: bit_unsigned_iff)
  also have "\<dots> \<longleftrightarrow> odd (unat b div 128)" by (simp add: bit_iff_odd)
  also have "\<dots> \<longleftrightarrow> 128 \<le> unat b"
  proof -
    have "unat b div 128 < 2" by (simp add: less_mult_imp_div_less)
    then have "unat b div 128 = (if 128 \<le> unat b then 1 else 0)" by auto
    then show ?thesis by simp
  qed
  finally show ?thesis .
qed

lemma byte_lt_0x80: "(b::u8) < 0x80 \<longleftrightarrow> \<not> bit b 7"
  by (simp add: byte_bit7 word_less_nat_alt not_le)

lemma and_0x80: "(w::'a::len word) AND 0x80 = 0 \<longleftrightarrow> \<not> bit w 7"
  using bit_imp_le_length [of w 7]
  by (auto simp: bit_eq_iff [of "w AND 0x80" 0] bit_and_iff)

lemma or_push_bit_of_int:
  assumes "r < 2 ^ s"
  shows "(of_nat r :: 'a::len word) OR push_bit s (of_int c) = of_int (int r + 2 ^ s * c)"
proof -
  have "of_nat r OR push_bit s (of_int c) = (of_nat r :: 'a word) + push_bit s (of_int c)"
  proof (rule disjunctive_add_eq_or [symmetric], rule bit_word_eqI)
    fix n assume "n < LENGTH('a)"
    have "bit r n \<Longrightarrow> n < s"
      using assms by (metis bit_nat_def bit_take_bit_iff take_bit_nat_eq_self_iff)
    then show "bit ((of_nat r :: 'a word) AND push_bit s (of_int c)) n = bit (0::'a word) n"
      by (auto simp: bit_simps)
  qed
  also have "\<dots> = of_int (int r + 2 ^ s * c)"
    by (simp add: push_bit_eq_mult mult.commute)
  finally show ?thesis .
qed

text \<open>Sign extension from two positions agrees iff the bits between them repeat the sign.\<close>

lemma signed_take_bit_eq_iff:
  fixes k :: int
  assumes "i \<le> j"
  shows "signed_take_bit i k = signed_take_bit j k \<longleftrightarrow> (\<forall>n. i < n \<and> n \<le> j \<longrightarrow> bit k n = bit k i)"
proof
  assume eq: "signed_take_bit i k = signed_take_bit j k"
  show "\<forall>n. i < n \<and> n \<le> j \<longrightarrow> bit k n = bit k i"
  proof (intro allI impI)
    fix n assume n: "i < n \<and> n \<le> j"
    have "bit (signed_take_bit i k) n = bit (signed_take_bit j k) n" by (simp add: eq)
    with n show "bit k n = bit k i" by (simp add: bit_signed_take_bit_iff min_def split: if_splits)
  qed
next
  assume h: "\<forall>n. i < n \<and> n \<le> j \<longrightarrow> bit k n = bit k i"
  show "signed_take_bit i k = signed_take_bit j k"
  proof (rule bit_eqI)
    fix n
    show "bit (signed_take_bit i k) n = bit (signed_take_bit j k) n"
    proof (cases "n \<le> i")
      case True
      with assms show ?thesis by (simp add: bit_signed_take_bit_iff)
    next
      case False
      have "bit k j = bit k i" using h assms by (cases "i = j") auto
      moreover have "n \<le> j \<Longrightarrow> bit k n = bit k i" using h False by simp
      ultimately show ?thesis using False by (auto simp: bit_signed_take_bit_iff min_def)
    qed
  qed
qed

lemma and_mask_eq_iff:
  "b AND m = 0 \<longleftrightarrow> (\<forall>n. bit m n \<longrightarrow> \<not> bit b n)"
  "b AND m = m \<longleftrightarrow> (\<forall>n. bit m n \<longrightarrow> bit b n)"
  for b m :: "'a::len word"
  by (auto simp: bit_eq_iff [of "b AND m" 0] bit_eq_iff [of "b AND m" m] bit_and_iff dest: bit_imp_le_length)

lemma and_0x40: "(b::u8) AND 0x40 \<noteq> 0 \<longleftrightarrow> bit b 6" "(b::u8) AND 0x40 = 0x40 \<longleftrightarrow> bit b 6"
  by (simp_all add: and_mask_eq_iff)

lemma bit_48_int [simp]: "bit (48::int) n \<longleftrightarrow> n = 4 \<or> n = 5"
proof -
  have "bit (2 ^ 4 OR 2 ^ 5 :: int) n \<longleftrightarrow> n = 4 \<or> n = 5" by (simp only: bit_simps) auto
  then show ?thesis by simp
qed
lemma bit_62_int [simp]: "bit (62::int) n \<longleftrightarrow> 1 \<le> n \<and> n \<le> 5"
proof -
  have "bit (push_bit 1 (mask 5) :: int) n \<longleftrightarrow> 1 \<le> n \<and> n \<le> 5" by (simp only: bit_simps) auto
  then show ?thesis by (simp add: mask_eq_exp_minus_1)
qed
lemma bit_32_int [simp]: "bit (32::int) n \<longleftrightarrow> n = 5"
proof -
  have "bit (2 ^ 5 :: int) n \<longleftrightarrow> n = 5" by (simp only: bit_simps) auto
  then show ?thesis by simp
qed

lemma and_0x30:
  "(b::u8) AND 0x30 = 0 \<longleftrightarrow> \<not> bit b 4 \<and> \<not> bit b 5"
  "(b::u8) AND 0x30 = 0x30 \<longleftrightarrow> bit b 4 \<and> bit b 5"
  by (auto simp: and_mask_eq_iff)
lemma and_0x3e:
  "(b::u8) AND 0x3e = 0 \<longleftrightarrow> (\<forall>n. 1 \<le> n \<and> n \<le> 5 \<longrightarrow> \<not> bit b n)"
  "(b::u8) AND 0x3e = 0x3e \<longleftrightarrow> (\<forall>n. 1 \<le> n \<and> n \<le> 5 \<longrightarrow> bit b n)"
  by (auto simp: and_mask_eq_iff)

lemma word_of_int_signed_take_bit:
  "LENGTH('a::len) \<le> Suc n \<Longrightarrow> (word_of_int (signed_take_bit n k) :: 'a word) = word_of_int k"
proof (rule bit_word_eqI)
  fix m assume "LENGTH('a) \<le> Suc n" and "m < LENGTH('a)"
  then have "min m n = m" by simp
  then show "bit (word_of_int (signed_take_bit n k) :: 'a word) m = bit (word_of_int k :: 'a word) m"
    by (simp add: bit_simps)
qed

lemma shifted_range: "(\<forall>n. a < n \<and> n \<le> a + d \<longrightarrow> P n) \<longleftrightarrow> (\<forall>j. 1 \<le> j \<and> j \<le> d \<longrightarrow> P (a + j))"
  for a d :: nat
proof (intro iffI allI impI)
  fix n assume h: "\<forall>j. 1 \<le> j \<and> j \<le> d \<longrightarrow> P (a + j)" and n: "a < n \<and> n \<le> a + d"
  have "P (a + (n - a))" using h [rule_format, of "n - a"] n by linarith
  with n show "P n" by simp
qed simp

lemma sint_bounds: "- (2 ^ (LENGTH('a) - 1)) \<le> sint (w :: 'a::len word)" "sint w < 2 ^ (LENGTH('a) - 1)"
  using sint_greater_eq sint_less by auto

end
