(* ===== verification/Leb128.thy ===== *)
theory Leb128
  imports Wazy_Prelude
begin

text \<open>
  The variable-length integer codec of \<^verbatim>\<open>src/internal/leb128/leb128.go\<close>: every
  encoder and both families of decoders (\<^verbatim>\<open>Load*\<close>, which index a byte slice, and
  \<^verbatim>\<open>Decode*\<close>, which pull bytes from an \<^verbatim>\<open>io.ByteReader\<close>). Values keep their
  machine width; byte counts and shift amounts are natural numbers (the loops bound
  them far below 64 bits). The lemmas give each decoder a closed-form specification
  over the whole input (\<open>uleb_spec\<close>, \<open>sleb_spec\<close>), and the round trips and the
  agreement of the two families follow from it.
\<close>

section \<open>Errors, readers and constants\<close>

datatype leb_error = EOF | ErrOverflow32 | ErrOverflow33 | ErrOverflow64
  | ErrReader string | ErrCount nat nat

text \<open>
  An \<^verbatim>\<open>io.ByteReader\<close> is the bytes it still delivers and the error it returns
  once they are used up (\<^verbatim>\<open>io.EOF\<close> for the in-memory readers).
\<close>

type_synonym reader = "bytes \<times> leb_error"

fun ReadByte :: "reader \<Rightarrow> (leb_error + u8) \<times> reader" where
  "ReadByte ([], e) = (Inl e, ([], e))"
| "ReadByte (b # bs, e) = (Inr b, (bs, e))"

definition maxVarintLen32 :: nat where "maxVarintLen32 = 5"
definition maxVarintLen33 :: nat where "maxVarintLen33 = 5"
definition maxVarintLen64 :: nat where "maxVarintLen64 = 10"

lemmas maxVarintLen_defs = maxVarintLen32_def maxVarintLen33_def maxVarintLen64_def

section \<open>Encoders\<close>

function EncodeInt64 :: "u64 \<Rightarrow> bytes" where
  "EncodeInt64 value =
     (let b = ucast (value AND 0x7f) :: u8;
          s = ucast (value AND 0x40) :: u8;
          value' = signed_drop_bit 7 value;
          b' = (if (value' \<noteq> -1 \<or> s = 0) \<and> (value' \<noteq> 0 \<or> s \<noteq> 0) then b OR 0x80 else b)
      in b' # (if b' AND 0x80 = 0 then [] else EncodeInt64 value'))"
  by pat_completeness auto

function EncodeUint64 :: "u64 \<Rightarrow> bytes" where
  "EncodeUint64 value =
     (let b = ucast (value AND 0x7f) :: u8;
          value' = drop_bit 7 value;
          b' = (if value' \<noteq> 0 then b OR 0x80 else b)
      in b' # (if b' AND 0x80 = 0 then [] else EncodeUint64 value'))"
  by pat_completeness auto

lemma low7_and_0x80 [simp]:
  "(ucast (w AND 0x7f :: u64) :: u8) AND 0x80 = 0"
  "((ucast (w AND 0x7f :: u64) :: u8) OR 0x80) AND 0x80 \<noteq> 0"
  by (simp_all add: and_0x80 and_0x7f bit_simps)

text \<open>The signed loop stops because arithmetic shift moves every value but \<open>0\<close> and \<open>-1\<close> towards zero.\<close>

lemma abs_div_128: "v \<noteq> 0 \<Longrightarrow> v \<noteq> -1 \<Longrightarrow> \<bar>v div 128\<bar> < \<bar>v\<bar>" for v :: int
  by linarith

termination EncodeInt64
proof (relation "measure (\<lambda>v. nat \<bar>sint v\<bar>)")
  fix w :: u64 and b s w' b'
  assume "b = ucast (w AND 0x7f)" "s = (ucast (w AND 0x40) :: u8)"
    "w' = signed_drop_bit 7 w"
    and "b' = (if (w' \<noteq> -1 \<or> s = 0) \<and> (w' \<noteq> 0 \<or> s \<noteq> 0) then b OR 0x80 else b)"
    and "b' AND 0x80 \<noteq> 0"
  moreover from calculation have "w \<noteq> 0" "w \<noteq> -1"
    by (auto split: if_splits)
  then have "sint w \<noteq> 0" "sint w \<noteq> -1"
    using signed_word_eqI [of w 0] signed_word_eqI [of w "-1"] by auto
  ultimately show "(w', w) \<in> measure (\<lambda>v. nat \<bar>sint v\<bar>)"
    using abs_div_128 [of "sint w"]
    by (simp add: sint_signed_drop_bit_eq drop_bit_eq_div)
qed simp

termination EncodeUint64
proof (relation "measure unat")
  fix w :: u64 and b w' b'
  assume "b = (ucast (w AND 0x7f) :: u8)" "w' = drop_bit 7 w"
    and "b' = (if w' \<noteq> 0 then b OR 0x80 else b)" and "b' AND 0x80 \<noteq> 0"
  then have "w' \<noteq> 0" by (auto split: if_splits)
  then have "unat w \<noteq> 0" using \<open>w' = _\<close> by (auto simp: unat_eq_0)
  with \<open>w' = _\<close> show "(w', w) \<in> measure unat"
    using unat_drop_bit_eq [of 7 w] by (simp add: drop_bit_eq_div)
qed simp

declare EncodeInt64.simps [simp del] EncodeUint64.simps [simp del]

definition EncodeInt32 :: "u32 \<Rightarrow> bytes" where
  "EncodeInt32 value = EncodeInt64 (scast value)"

definition EncodeUint32 :: "u32 \<Rightarrow> bytes" where
  "EncodeUint32 value = EncodeUint64 (ucast value)"

section \<open>Unsigned decoders\<close>

fun DecodeUint32_loop :: "nat \<Rightarrow> nat \<Rightarrow> u32 \<Rightarrow> reader \<Rightarrow> (leb_error + u32 \<times> nat) \<times> reader" where
  "DecodeUint32_loop i s ret ([], e) =
     (if i < maxVarintLen32 then (Inl e, ([], e)) else (Inl ErrOverflow32, ([], e)))"
| "DecodeUint32_loop i s ret (b # bs, e) =
     (if i < maxVarintLen32 then
        if b < 0x80 then
          if i = maxVarintLen32 - 1 \<and> 0 < b AND 0xf0 then (Inl ErrOverflow32, (bs, e))
          else (Inr (ret OR push_bit s (ucast b), i + 1), (bs, e))
        else DecodeUint32_loop (i + 1) (s + 7) (ret OR push_bit s (ucast (b AND 0x7f))) (bs, e)
      else (Inl ErrOverflow32, (b # bs, e)))"

definition DecodeUint32 :: "reader \<Rightarrow> (leb_error + u32 \<times> nat) \<times> reader" where
  "DecodeUint32 r = DecodeUint32_loop 0 0 0 r"

function LoadUint32_loop :: "bytes \<Rightarrow> nat \<Rightarrow> nat \<Rightarrow> u32 \<Rightarrow> leb_error + u32 \<times> nat" where
  "LoadUint32_loop buf i s ret =
     (if i < maxVarintLen32 then
        if length buf \<le> i then Inl EOF
        else let b = buf ! i in
          if b < 0x80 then
            if i = maxVarintLen32 - 1 \<and> 0 < b AND 0xf0 then Inl ErrOverflow32
            else Inr (ret OR push_bit s (ucast b), i + 1)
          else LoadUint32_loop buf (i + 1) (s + 7) (ret OR push_bit s (ucast (b AND 0x7f)))
      else Inl ErrOverflow32)"
  by pat_completeness auto
termination
  by (relation "measure (\<lambda>(buf, i, s, ret). maxVarintLen32 - i)") auto

declare LoadUint32_loop.simps [simp del]

definition LoadUint32 :: "bytes \<Rightarrow> leb_error + u32 \<times> nat" where
  "LoadUint32 buf =
     (if buf \<noteq> [] \<and> buf ! 0 < 0x80 then Inr (ucast (buf ! 0), 1)
      else LoadUint32_loop buf 0 0 0)"

text \<open>
  \<^verbatim>\<open>LoadVecSize\<close> also returns the number of bytes read beside its error; no caller
  reads it on that path, so the model keeps it on success only.
\<close>

definition LoadVecSize :: "bytes \<Rightarrow> leb_error + u32 \<times> nat" where
  "LoadVecSize buf =
     bindE (LoadUint32 buf) (\<lambda>(ret, bytesRead).
       let remaining = length buf - bytesRead in
       if remaining < unat ret then Inl (ErrCount (unat ret) remaining)
       else Inr (ret, bytesRead))"

function LoadUint64_loop :: "bytes \<Rightarrow> nat \<Rightarrow> nat \<Rightarrow> u64 \<Rightarrow> leb_error + u64 \<times> nat" where
  "LoadUint64_loop buf i s ret =
     (if i < maxVarintLen64 then
        if length buf \<le> i then Inl EOF
        else let b = buf ! i in
          if b < 0x80 then
            if i = maxVarintLen64 - 1 \<and> 1 < b then Inl ErrOverflow64
            else Inr (ret OR push_bit s (ucast b), i + 1)
          else LoadUint64_loop buf (i + 1) (s + 7) (ret OR push_bit s (ucast (b AND 0x7f)))
      else Inl ErrOverflow64)"
  by pat_completeness auto
termination
  by (relation "measure (\<lambda>(buf, i, s, ret). maxVarintLen64 - i)") auto

declare LoadUint64_loop.simps [simp del]

definition LoadUint64 :: "bytes \<Rightarrow> leb_error + u64 \<times> nat" where
  "LoadUint64 buf =
     (if buf = [] then Inl EOF
      else if buf ! 0 < 0x80 then Inr (ucast (buf ! 0), 1)
      else LoadUint64_loop buf 0 0 0)"

section \<open>Signed decoders\<close>

definition int32OverflowCheck :: "u8 \<Rightarrow> nat \<Rightarrow> u32 \<Rightarrow> bool" where
  "int32OverflowCheck finalByte bytesRead ret =
     (if maxVarintLen32 < bytesRead then True
      else if bytesRead = maxVarintLen32 then
        let unused = finalByte AND 0x30; want = (if sint ret < 0 then 0x30 else 0)
        in unused \<noteq> want
      else False)"

definition int64OverflowCheck :: "u8 \<Rightarrow> nat \<Rightarrow> u64 \<Rightarrow> bool" where
  "int64OverflowCheck finalByte bytesRead ret =
     (if maxVarintLen64 < bytesRead then True
      else if bytesRead = maxVarintLen64 then
        let unused = finalByte AND 0x3e; want = (if sint ret < 0 then 0x3e else 0)
        in unused \<noteq> want
      else False)"

fun DecodeInt32_loop :: "nat \<Rightarrow> nat \<Rightarrow> u32 \<Rightarrow> reader \<Rightarrow> (leb_error + u32 \<times> nat) \<times> reader" where
  "DecodeInt32_loop shift bytesRead ret ([], e) = (Inl e, ([], e))"
| "DecodeInt32_loop shift bytesRead ret (b # bs, e) =
     (let ret = ret OR push_bit shift (ucast b AND 0x7f);
          shift = shift + 7; bytesRead = bytesRead + 1
      in if b AND 0x80 = 0 then
           let ret = (if shift < 32 \<and> b AND 0x40 \<noteq> 0 then ret OR push_bit shift (NOT 0) else ret)
           in if int32OverflowCheck b bytesRead ret then (Inl ErrOverflow32, (bs, e))
              else (Inr (ret, bytesRead), (bs, e))
         else DecodeInt32_loop shift bytesRead ret (bs, e))"

definition DecodeInt32 :: "reader \<Rightarrow> (leb_error + u32 \<times> nat) \<times> reader" where
  "DecodeInt32 r = DecodeInt32_loop 0 0 0 r"

function LoadInt32_loop :: "bytes \<Rightarrow> nat \<Rightarrow> nat \<Rightarrow> u32 \<Rightarrow> leb_error + u32 \<times> nat" where
  "LoadInt32_loop buf i shift ret =
     (if length buf \<le> i then Inl EOF
      else let b = buf ! i;
               ret = ret OR push_bit shift (ucast b AND 0x7f);
               shift = shift + 7
      in if b AND 0x80 = 0 then
           let bytesRead = i + 1;
               ret = (if shift < 32 \<and> b AND 0x40 \<noteq> 0 then ret OR push_bit shift (NOT 0) else ret)
           in if int32OverflowCheck b bytesRead ret then Inl ErrOverflow32
              else Inr (ret, bytesRead)
         else LoadInt32_loop buf (i + 1) shift ret)"
  by pat_completeness auto
termination
  by (relation "measure (\<lambda>(buf, i, shift, ret). length buf - i)") auto

declare LoadInt32_loop.simps [simp del]

text \<open>The one-byte fast path: shifting left and arithmetically right by one sign-extends bit 6.\<close>

definition LoadInt32 :: "bytes \<Rightarrow> leb_error + u32 \<times> nat" where
  "LoadInt32 buf =
     (if buf \<noteq> [] \<and> buf ! 0 < 0x80 then Inr (scast (signed_drop_bit 1 (push_bit 1 (buf ! 0))), 1)
      else LoadInt32_loop buf 0 0 0)"

fun DecodeInt64_loop :: "nat \<Rightarrow> nat \<Rightarrow> u64 \<Rightarrow> reader \<Rightarrow> (leb_error + u64 \<times> nat) \<times> reader" where
  "DecodeInt64_loop shift bytesRead ret ([], e) = (Inl e, ([], e))"
| "DecodeInt64_loop shift bytesRead ret (b # bs, e) =
     (let ret = ret OR push_bit shift (ucast b AND 0x7f);
          shift = shift + 7; bytesRead = bytesRead + 1
      in if b AND 0x80 = 0 then
           let ret = (if shift < 64 \<and> b AND 0x40 = 0x40 then ret OR push_bit shift (NOT 0) else ret)
           in if int64OverflowCheck b bytesRead ret then (Inl ErrOverflow64, (bs, e))
              else (Inr (ret, bytesRead), (bs, e))
         else DecodeInt64_loop shift bytesRead ret (bs, e))"

definition DecodeInt64 :: "reader \<Rightarrow> (leb_error + u64 \<times> nat) \<times> reader" where
  "DecodeInt64 r = DecodeInt64_loop 0 0 0 r"

function LoadInt64_loop :: "bytes \<Rightarrow> nat \<Rightarrow> nat \<Rightarrow> u64 \<Rightarrow> leb_error + u64 \<times> nat" where
  "LoadInt64_loop buf i shift ret =
     (if length buf \<le> i then Inl EOF
      else let b = buf ! i;
               ret = ret OR push_bit shift (ucast b AND 0x7f);
               shift = shift + 7
      in if b AND 0x80 = 0 then
           let bytesRead = i + 1;
               ret = (if shift < 64 \<and> b AND 0x40 = 0x40 then ret OR push_bit shift (NOT 0) else ret)
           in if int64OverflowCheck b bytesRead ret then Inl ErrOverflow64
              else Inr (ret, bytesRead)
         else LoadInt64_loop buf (i + 1) shift ret)"
  by pat_completeness auto
termination
  by (relation "measure (\<lambda>(buf, i, shift, ret). length buf - i)") auto

declare LoadInt64_loop.simps [simp del]

definition LoadInt64 :: "bytes \<Rightarrow> leb_error + u64 \<times> nat" where
  "LoadInt64 buf =
     (if buf \<noteq> [] \<and> buf ! 0 < 0x80 then Inr (scast (signed_drop_bit 1 (push_bit 1 (buf ! 0))), 1)
      else LoadInt64_loop buf 0 0 0)"

text \<open>
  The 33-bit block-type index: accumulated in an \<^verbatim>\<open>int64\<close> by a loop that runs while
  \<open>shift < 35\<close>, then finished by \<^verbatim>\<open>int33Finish\<close>. \<open>b\<close> is the last byte read, widened.
\<close>

definition int33Finish :: "u64 \<Rightarrow> nat \<Rightarrow> nat \<Rightarrow> u64 \<Rightarrow> leb_error + u64 \<times> nat" where
  "int33Finish b shift bytesRead ret =
     (let ret = (if shift < 33 \<and> b AND 0x40 = 0x40 then ret OR push_bit shift 8589934591 else ret);
          ret = signed_drop_bit 31 (push_bit 31 ret)
      in if maxVarintLen33 < bytesRead then Inl ErrOverflow33
         else if bytesRead = maxVarintLen33 \<and>
                 b AND 0x20 \<noteq> (if sint ret < 0 then 0x20 else 0) then Inl ErrOverflow33
         else Inr (ret, bytesRead))"

fun DecodeInt33_loop :: "nat \<Rightarrow> nat \<Rightarrow> u64 \<Rightarrow> u64 \<Rightarrow> reader \<Rightarrow> (leb_error + u64 \<times> nat) \<times> reader" where
  "DecodeInt33_loop shift bytesRead b ret ([], e) =
     (if shift < 35 then (Inl e, ([], e)) else (int33Finish b shift bytesRead ret, ([], e)))"
| "DecodeInt33_loop shift bytesRead b ret (rb # bs, e) =
     (if shift < 35 then
        let b = ucast rb;
            ret = ret OR push_bit shift (b AND NOT 0x80);
            shift = shift + 7; bytesRead = bytesRead + 1
        in if b AND 0x80 = 0 then (int33Finish b shift bytesRead ret, (bs, e))
           else DecodeInt33_loop shift bytesRead b ret (bs, e)
      else (int33Finish b shift bytesRead ret, (rb # bs, e)))"

definition DecodeInt33AsInt64 :: "reader \<Rightarrow> (leb_error + u64 \<times> nat) \<times> reader" where
  "DecodeInt33AsInt64 r = DecodeInt33_loop 0 0 0 0 r"

function LoadInt33_loop :: "bytes \<Rightarrow> nat \<Rightarrow> nat \<Rightarrow> u64 \<Rightarrow> u64 \<Rightarrow> leb_error + u64 \<times> nat" where
  "LoadInt33_loop buf i shift b ret =
     (if shift < 35 then
        if length buf \<le> i then Inl EOF
        else let b = ucast (buf ! i);
                 i = i + 1;
                 ret = ret OR push_bit shift (b AND NOT 0x80);
                 shift = shift + 7
             in if b AND 0x80 = 0 then int33Finish b shift i ret
                else LoadInt33_loop buf i shift b ret
      else int33Finish b shift i ret)"
  by pat_completeness auto
termination
  by (relation "measure (\<lambda>(buf, i, shift, b, ret). 35 - shift)") auto

declare LoadInt33_loop.simps [simp del]

definition LoadInt33AsInt64 :: "bytes \<Rightarrow> leb_error + u64 \<times> nat" where
  "LoadInt33AsInt64 buf =
     (if buf \<noteq> [] \<and> buf ! 0 < 0x80 then Inr (scast (signed_drop_bit 1 (push_bit 1 (buf ! 0))), 1)
      else LoadInt33_loop buf 0 0 0 0)"

section \<open>Reference values and specifications\<close>

text \<open>
  \<open>uleb_value\<close> reads a group list as an unbounded number and \<open>sleb_value\<close> sign-extends it
  from its last bit; \<open>leb_len\<close> counts the leading bytes with the continuation bit. The
  specifications decode the whole input in closed form.
\<close>

primrec uleb_value :: "bytes \<Rightarrow> nat" where
  "uleb_value [] = 0"
| "uleb_value (b # bs) = unat b mod 128 + 128 * uleb_value bs"

definition leb_len :: "bytes \<Rightarrow> nat" where
  "leb_len buf = length (takeWhile (\<lambda>b. bit b 7) buf)"

definition sleb_value :: "bytes \<Rightarrow> int" where
  "sleb_value bs = signed_take_bit (7 * length bs - 1) (int (uleb_value bs))"

definition uleb_spec :: "nat \<Rightarrow> nat \<Rightarrow> leb_error \<Rightarrow> leb_error \<Rightarrow> bytes \<Rightarrow> leb_error + nat \<times> nat" where
  "uleb_spec w maxlen ovf e buf =
     (let n = leb_len buf; v = uleb_value (take (n + 1) buf) in
      if maxlen \<le> n then Inl ovf
      else if length buf \<le> n then Inl e
      else if 2 ^ w \<le> v then Inl ovf
      else Inr (v, n + 1))"

text \<open>
  Signed decoders stop at \<open>m\<close> bytes with the unbounded value \<open>v\<close>. At the longest length they
  compare the sign extension from bit \<open>w - 1\<close> with the one from bit \<open>c\<close>, the highest bit their
  final-byte mask covers.
\<close>

definition sleb_result :: "nat \<Rightarrow> nat \<Rightarrow> nat \<Rightarrow> leb_error \<Rightarrow> nat \<Rightarrow> nat \<Rightarrow> leb_error + 'a::len word \<times> nat" where
  "sleb_result w c maxlen ovf m v =
     (if maxlen < m then Inl ovf
      else if m = maxlen \<and> signed_take_bit (w - 1) (int v) \<noteq> signed_take_bit c (int v) then Inl ovf
      else Inr (word_of_int (signed_take_bit (min (w - 1) (7 * m - 1)) (int v)), m))"

definition sleb_spec :: "nat \<Rightarrow> nat \<Rightarrow> nat \<Rightarrow> leb_error \<Rightarrow> leb_error \<Rightarrow> bytes \<Rightarrow> leb_error + 'a::len word \<times> nat" where
  "sleb_spec w c maxlen ovf e buf =
     (let n = leb_len buf in
      if length buf \<le> n then Inl e
      else sleb_result w c maxlen ovf (n + 1) (uleb_value (take (n + 1) buf)))"

definition int33_spec :: "leb_error \<Rightarrow> bytes \<Rightarrow> leb_error + u64 \<times> nat" where
  "int33_spec e buf =
     (let n = min (leb_len buf) 4 in
      if length buf \<le> n then Inl e
      else sleb_result 33 33 5 ErrOverflow33 (n + 1) (uleb_value (take (n + 1) buf)))"

definition sleb_last :: "u64 \<Rightarrow> bool" where
  "sleb_last w = (- 64 \<le> sint w \<and> sint w < 64)"

section \<open>Unsigned decoders against their specification\<close>

lemma leb_len_simps [simp]:
  "leb_len [] = 0"
  "leb_len (b # bs) = (if bit b 7 then Suc (leb_len bs) else 0)"
  by (simp_all add: leb_len_def)

lemma leb_len_le: "leb_len bs \<le> length bs"
  by (simp add: leb_len_def length_takeWhile_le)

lemma uleb_value_bound: "uleb_value bs < 2 ^ (7 * length bs)"
proof (induction bs)
  case (Cons b bs)
  have "unat b mod 128 + 128 * uleb_value bs < 128 + 128 * uleb_value bs" by simp
  also have "\<dots> \<le> 128 * 2 ^ (7 * length bs)" using Cons.IH by simp
  finally show ?case by (simp add: power_add)
qed simp

lemma uleb_value_append:
  "uleb_value (xs @ ys) = uleb_value xs + 2 ^ (7 * length xs) * uleb_value ys"
  by (induction xs) (simp_all add: power_add algebra_simps)

lemma accumulate_unsigned:
  assumes "r < 2 ^ s"
  shows "(of_nat r :: 'a::len word) OR push_bit s (of_nat c) = of_nat (r + 2 ^ s * c)"
  using or_push_bit_of_int [OF assms, of "int c", where 'a = 'a] by simp

lemma accumulate_byte:
  assumes "r < 2 ^ s"
  shows "(of_nat r :: 'a::len word) OR push_bit s (ucast (b :: u8)) = of_nat (r + 2 ^ s * unat b)"
  using accumulate_unsigned [OF assms, of "unat b", where 'a = 'a] by simp

lemma unat_low7: "unat (b AND 0x7f :: u8) = unat b mod 128"
  unfolding and_0x7f unsigned_take_bit_eq by (simp add: take_bit_eq_mod)

lemma accumulate_low7:
  assumes "r < 2 ^ s"
  shows "(of_nat r :: 'a::len word) OR push_bit s (ucast (b AND 0x7f :: u8)) =
    of_nat (r + 2 ^ s * (unat b mod 128))"
  unfolding accumulate_byte [OF assms] unat_low7 ..

lemma accum_bound:
  assumes "r < 2 ^ (7 * i)"
  shows "r + 2 ^ (7 * i) * (unat (b :: u8) mod 128) < 2 ^ (7 * Suc i)"
proof -
  have "r + 2 ^ (7 * i) * (unat b mod 128) < 2 ^ (7 * i) * (unat b mod 128 + 1)"
    using assms by (simp add: algebra_simps)
  also have "\<dots> \<le> 2 ^ (7 * i) * 128" by (simp add: Suc_leI)
  finally show ?thesis by (simp add: power_add)
qed

lemma byte_and_0xf0: "0 < (b :: u8) AND 0xf0 \<longleftrightarrow> 16 \<le> unat b"
proof -
  have "(0xf0 :: u8) = NOT (mask 4)" by (simp add: mask_eq_exp_minus_1)
  then have "b AND 0xf0 = 0 \<longleftrightarrow> b AND NOT (mask 4) = 0" by simp
  also have "\<dots> \<longleftrightarrow> drop_bit 4 b = 0"
  proof -
    have "b AND NOT (mask 4) = push_bit 4 (drop_bit 4 b)"
      by (rule bit_word_eqI) (auto simp: bit_simps)
    moreover have "drop_bit 4 (b AND NOT (mask 4)) = drop_bit 4 b"
      by (rule bit_word_eqI) (auto simp: bit_simps dest: bit_imp_le_length)
    ultimately show ?thesis by auto
  qed
  also have "\<dots> \<longleftrightarrow> unat b div 16 = 0"
  proof -
    have "unat (drop_bit 4 b) = unat b div 16"
      unfolding unat_drop_bit_eq by (simp add: drop_bit_eq_div)
    then show ?thesis by (metis unat_eq_0)
  qed
  also have "\<dots> \<longleftrightarrow> unat b < 16" by (simp add: div_eq_0_iff)
  finally show ?thesis by (simp add: word_gt_0 not_less)
qed

lemma DecodeUint32_loop_spec:
  assumes "r < 2 ^ (7 * i)" and "i \<le> 5"
  shows "fst (DecodeUint32_loop i (7 * i) (of_nat r) (bs, e)) =
    (let n = leb_len bs; v = r + 2 ^ (7 * i) * uleb_value (take (n + 1) bs) in
      if 5 \<le> i + n then Inl ErrOverflow32
      else if length bs \<le> n then Inl e
      else if 2 ^ 32 \<le> v then Inl ErrOverflow32
      else Inr (of_nat v, i + n + 1))"
  using assms
proof (induction bs arbitrary: i r)
  case Nil
  then show ?case by (simp add: maxVarintLen_defs)
next
  case (Cons b bs)
  show ?case
  proof (cases "bit b 7")
    case True
    show ?thesis
    proof (cases "i = 5")
      case False
      with Cons.prems have "i < 5" by simp
      have "fst (DecodeUint32_loop (Suc i) (7 * Suc i) (of_nat (r + 2 ^ (7 * i) * (unat b mod 128))) (bs, e)) =
        (let n = leb_len bs; v = (r + 2 ^ (7 * i) * (unat b mod 128)) + 2 ^ (7 * Suc i) * uleb_value (take (n + 1) bs) in
      if 5 \<le> Suc i + n then Inl ErrOverflow32
      else if length bs \<le> n then Inl e
      else if 2 ^ 32 \<le> v then Inl ErrOverflow32
      else Inr (of_nat v, Suc i + n + 1))"
        using Cons.prems \<open>i < 5\<close> by (intro Cons.IH accum_bound) auto
      with True \<open>i < 5\<close> Cons.prems(1) show ?thesis
        by (simp add: maxVarintLen_defs byte_lt_0x80 accumulate_low7 Let_def
            power_add algebra_simps)
    qed (use True in \<open>simp add: maxVarintLen_defs\<close>)
  next
    case False
    then have b: "unat b < 128" by (simp add: byte_bit7)
    have v: "r + 2 ^ (7 * i) * unat b < 2 ^ (7 * Suc i)"
      using accum_bound [OF Cons.prems(1), of b] b by simp
    have small: "i < 4 \<Longrightarrow> r + 2 ^ (7 * i) * unat b < 2 ^ 32"
    proof -
      assume "i < 4"
      then have "(2::nat) ^ (7 * Suc i) \<le> 2 ^ 32" by (intro power_increasing) auto
      with v show ?thesis by linarith
    qed
    have four: "i = 4 \<Longrightarrow> (2 ^ 32 \<le> r + 2 ^ (7 * i) * unat b \<longleftrightarrow> 16 \<le> unat b)"
      using Cons.prems(1) by auto
    consider "i < 4" | "i = 4" | "i = 5" using Cons.prems(2) by linarith
    then show ?thesis
    proof cases
      case 1
      with False Cons.prems(1) small b show ?thesis
        by (simp add: maxVarintLen_defs byte_lt_0x80 accumulate_byte)
    next
      case 2
      with False Cons.prems(1) four b show ?thesis
        by (simp add: maxVarintLen_defs byte_lt_0x80 accumulate_byte byte_and_0xf0)
    next
      case 3
      with False show ?thesis by (simp add: maxVarintLen_defs)
    qed
  qed
qed

text \<open>Reading by index is reading from the rest of the buffer.\<close>

lemma LoadUint32_loop_Decode:
  "LoadUint32_loop buf i s ret = fst (DecodeUint32_loop i s ret (drop i buf, EOF))"
proof (induction buf i s ret rule: LoadUint32_loop.induct)
  case (1 buf i s ret)
  show ?case
  proof (cases "i < length buf")
    case True
    with "1.IH" show ?thesis
      by (auto simp add: LoadUint32_loop.simps [of buf i s ret] Let_def
          simp flip: Cons_nth_drop_Suc)
  next
    case False
    then show ?thesis by (simp add: LoadUint32_loop.simps [of buf i s ret])
  qed
qed

lemma LoadUint32_Decode: "LoadUint32 buf = fst (DecodeUint32 (buf, EOF))"
proof (cases buf)
  case (Cons b bs)
  then show ?thesis
    by (simp add: LoadUint32_def DecodeUint32_def LoadUint32_loop_Decode maxVarintLen_defs)
qed (simp add: LoadUint32_def DecodeUint32_def LoadUint32_loop_Decode)

lemma DecodeUint32_spec:
  "fst (DecodeUint32 (bs, e)) =
    bindE (uleb_spec 32 5 ErrOverflow32 e bs) (\<lambda>(v, n). Inr (of_nat v, n))"
  using DecodeUint32_loop_spec [of 0 0 bs e]
  by (simp add: DecodeUint32_def uleb_spec_def Let_def)

lemma LoadUint64_loop_spec:
  assumes "r < 2 ^ (7 * i)" and "i \<le> 10"
  shows "LoadUint64_loop buf i (7 * i) (of_nat r) =
    (let bs = drop i buf; n = leb_len bs; v = r + 2 ^ (7 * i) * uleb_value (take (n + 1) bs) in
      if 10 \<le> i + n then Inl ErrOverflow64
      else if length bs \<le> n then Inl EOF
      else if 2 ^ 64 \<le> v then Inl ErrOverflow64
      else Inr (of_nat v, i + n + 1))"
  using assms
proof (induction "drop i buf" arbitrary: i r)
  case Nil
  from Nil.hyps have "length buf \<le> i" by simp
  then show ?case
    using Nil.prems by (simp add: maxVarintLen_defs LoadUint64_loop.simps [of buf i])
next
  case (Cons b bs)
  then have i: "i < length buf" "buf ! i = b" and bs: "drop (Suc i) buf = bs"
    by (metis drop_eq_Nil linorder_not_le list.distinct(1), metis Cons_nth_drop_Suc drop_eq_Nil
        linorder_not_le list.distinct(1) list.inject, metis Cons.hyps(2) drop_Suc list.sel(3) tl_drop)
  show ?case
  proof (cases "bit b 7")
    case True
    show ?thesis
    proof (cases "i = 10")
      case False
      with Cons.prems have "i < 10" by simp
      have "LoadUint64_loop buf (Suc i) (7 * Suc i) (of_nat (r + 2 ^ (7 * i) * (unat b mod 128))) =
        (let bs = drop (Suc i) buf; n = leb_len bs;
             v = (r + 2 ^ (7 * i) * (unat b mod 128)) + 2 ^ (7 * Suc i) * uleb_value (take (n + 1) bs) in
          if 10 \<le> Suc i + n then Inl ErrOverflow64
          else if length bs \<le> n then Inl EOF
          else if 2 ^ 64 \<le> v then Inl ErrOverflow64
          else Inr (of_nat v, Suc i + n + 1))"
        using Cons.prems \<open>i < 10\<close> bs by (intro Cons.hyps accum_bound) auto
      with True \<open>i < 10\<close> Cons.prems(1) i bs show ?thesis
        by (simp add: LoadUint64_loop.simps [of buf i] maxVarintLen_defs byte_lt_0x80
            accumulate_low7 Let_def power_add algebra_simps flip: Cons.hyps(2))
    qed (use True in \<open>simp add: maxVarintLen_defs LoadUint64_loop.simps [of buf 10] flip: Cons.hyps(2)\<close>)
  next
    case False
    then have b: "unat b < 128" by (simp add: byte_bit7)
    have v: "r + 2 ^ (7 * i) * unat b < 2 ^ (7 * Suc i)"
      using accum_bound [OF Cons.prems(1), of b] b by simp
    have small: "i < 9 \<Longrightarrow> r + 2 ^ (7 * i) * unat b < 2 ^ 64"
    proof -
      assume "i < 9"
      then have "(2::nat) ^ (7 * Suc i) \<le> 2 ^ 64" by (intro power_increasing) auto
      with v show ?thesis by linarith
    qed
    have nine: "i = 9 \<Longrightarrow> (2 ^ 64 \<le> r + 2 ^ (7 * i) * unat b \<longleftrightarrow> 1 < unat b)"
      using Cons.prems(1) by auto
    consider "i < 9" | "i = 9" | "i = 10" using Cons.prems(2) by linarith
    then show ?thesis
    proof cases
      case 1
      with False Cons.prems(1) small b i show ?thesis
        by (simp add: LoadUint64_loop.simps [of buf i] maxVarintLen_defs byte_lt_0x80 accumulate_byte
            Let_def flip: Cons.hyps(2))
    next
      case 2
      with Cons.hyps(2) have "drop 9 buf = b # bs" by simp
      with False Cons.prems(1) nine b i 2 show ?thesis
        by (simp add: LoadUint64_loop.simps [of buf 9] maxVarintLen_defs byte_lt_0x80 accumulate_byte
            Let_def word_less_nat_alt)
    next
      case 3
      with False show ?thesis
        by (simp add: maxVarintLen_defs LoadUint64_loop.simps [of buf 10] flip: Cons.hyps(2))
    qed
  qed
qed

lemma LoadUint64_spec:
  "LoadUint64 buf = bindE (uleb_spec 64 10 ErrOverflow64 EOF buf) (\<lambda>(v, n). Inr (of_nat v, n))"
proof (cases buf)
  case (Cons b bs)
  show ?thesis
  proof (cases "bit b 7")
    case True
    with Cons LoadUint64_loop_spec [of 0 0 buf] show ?thesis
      by (simp add: LoadUint64_def uleb_spec_def Let_def byte_lt_0x80)
  next
    case False
    then have "unat b < 128" by (simp add: byte_bit7)
    with Cons False show ?thesis by (simp add: LoadUint64_def uleb_spec_def Let_def byte_lt_0x80)
  qed
qed (simp add: LoadUint64_def uleb_spec_def)

section \<open>Signed accumulation\<close>

text \<open>The bits of a group value are the bits of its bytes.\<close>

lemma ucast_and_low7: "(ucast (b::u8) AND 0x7f :: 'a::len word) = of_nat (unat b mod 128)"
proof -
  have "(ucast b AND 0x7f :: 'a word) = of_nat (take_bit 7 (unat b))"
    unfolding and_0x7f by (rule bit_word_eqI) (auto simp: bit_simps)
  then show ?thesis by (simp add: take_bit_eq_mod)
qed

lemma accumulate_signed:
  assumes "r < 2 ^ s"
  shows "(of_nat r :: 'a::len word) OR push_bit s (ucast (b :: u8) AND 0x7f) =
    of_nat (r + 2 ^ s * (unat b mod 128))"
  unfolding ucast_and_low7 accumulate_unsigned [OF assms] ..

lemma sign_fill:
  assumes "r < 2 ^ s"
  shows "(of_nat r :: 'a::len word) OR push_bit s (NOT 0) = of_int (int r - 2 ^ s)"
  using or_push_bit_of_int [OF assms, of "-1", where 'a = 'a] by simp

lemma bit_group_last:
  assumes "r < 2 ^ (7 * i)" and "j < 7"
  shows "bit (int (r + 2 ^ (7 * i) * (unat (b::u8) mod 128))) (7 * i + j) \<longleftrightarrow> bit b j"
proof -
  have "(r + 2 ^ (7 * i) * (unat b mod 128)) div 2 ^ (7 * i) = unat b mod 128"
    using assms(1) by simp
  then have "drop_bit (7 * i) (r + 2 ^ (7 * i) * (unat b mod 128)) = take_bit 7 (unat b)"
    by (simp add: drop_bit_eq_div take_bit_eq_mod)
  then have "bit (r + 2 ^ (7 * i) * (unat b mod 128)) (7 * i + j) \<longleftrightarrow> bit (take_bit 7 (unat b)) j"
    by (metis bit_drop_bit_eq comp_apply add.commute)
  with assms(2) show ?thesis
    unfolding bit_of_nat_iff by (simp add: bit_take_bit_iff bit_unsigned_iff)
qed

lemma sext_raw:
  assumes "v < 2 ^ Suc n"
  shows "signed_take_bit n (int v) = int v - (if bit (int v) n then 2 ^ Suc n else 0)"
proof -
  have "int v < 2 ^ Suc n" using assms by (metis of_nat_less_iff of_nat_numeral of_nat_power)
  then have "take_bit (Suc n) (int v) = int v" by (intro take_bit_int_eq_self) auto
  then show ?thesis by (simp add: signed_take_bit_eq_take_bit_minus)
qed

lemma sign_extended_groups:
  assumes "v < 2 ^ (7 * Suc k)" and "7 * Suc k < LENGTH('a)" and "bit (int v) (7 * k + 6) \<longleftrightarrow> bit b 6"
  shows "(if bit b 6 then (of_nat v :: 'a::len word) OR push_bit (7 * Suc k) (NOT 0) else of_nat v) =
    word_of_int (signed_take_bit (7 * Suc k - 1) (int v))"
proof -
  have "signed_take_bit (7 * k + 6) (int v) = int v - (if bit (int v) (7 * k + 6) then 2 ^ (7 * Suc k) else 0)"
    using sext_raw [of v "7 * k + 6"] assms(1) by (simp add: eval_nat_numeral)
  with assms show ?thesis using sign_fill [OF assms(1), where 'a = 'a]
    by (simp add: eval_nat_numeral)
qed

lemma int32_last_byte:
  fixes b :: u8
  assumes r: "r < 2 ^ (7 * k)" and b: "\<not> bit b 7"
  defines "v \<equiv> r + 2 ^ (7 * k) * unat b"
  shows "(let ret = (if 7 * Suc k < 32 \<and> bit b 6 then of_nat v OR push_bit (7 * Suc k) (NOT 0) else of_nat v)
     in if int32OverflowCheck b (Suc k) ret then Inl ErrOverflow32 else Inr (ret, Suc k)) =
    (sleb_result 32 33 5 ErrOverflow32 (Suc k) v :: leb_error + u32 \<times> nat)"
proof -
  have ub: "unat b < 128" using b by (simp add: byte_bit7)
  have bits: "bit (int v) (7 * k + j) \<longleftrightarrow> bit b j" if "j < 7" for j
    using bit_group_last [OF r that, of b] ub by (simp add: v_def)
  have vb: "v < 2 ^ (7 * Suc k)" using accum_bound [OF r, of b] ub by (simp add: v_def)
  consider "k < 4" | "k = 4" | "4 < k" by linarith
  then show ?thesis
  proof cases
    case 1
    with sign_extended_groups [OF vb, of b, where 'a = 32] bits [of 6] show ?thesis
      by (auto simp: Let_def int32OverflowCheck_def sleb_result_def maxVarintLen_defs min_def)
  next
    case 2
    have neg: "sint (of_nat v :: u32) < 0 \<longleftrightarrow> bit (int v) 31"
      using bit_last_iff [of "of_nat v :: u32"] by (simp add: bit_simps)
    have "bit (int v) 32 \<longleftrightarrow> bit b 4" "bit (int v) 33 \<longleftrightarrow> bit b 5"
      using bits [of 4] bits [of 5] 2 by simp_all
    then have "signed_take_bit 31 (int v) = signed_take_bit 33 (int v) \<longleftrightarrow>
        (bit b 4 = bit (int v) 31 \<and> bit b 5 = bit (int v) 31)"
      using signed_take_bit_eq_iff [of 31 33 "int v"] by (auto simp: le_Suc_eq numeral_eq_Suc)
    then have "int32OverflowCheck b 5 (of_nat v) \<longleftrightarrow>
        signed_take_bit 31 (int v) \<noteq> signed_take_bit 33 (int v)"
      using and_0x30 [of b] neg by (auto simp: int32OverflowCheck_def maxVarintLen_defs)
    moreover have "(of_nat v :: u32) = word_of_int (signed_take_bit 31 (int v))"
      by (simp add: word_of_int_signed_take_bit)
    ultimately show ?thesis using 2 by (simp add: sleb_result_def)
  next
    case 3
    then show ?thesis by (simp add: Let_def int32OverflowCheck_def sleb_result_def maxVarintLen_defs)
  qed
qed

lemma int64_last_byte:
  fixes b :: u8
  assumes r: "r < 2 ^ (7 * k)" and b: "\<not> bit b 7"
  defines "v \<equiv> r + 2 ^ (7 * k) * unat b"
  shows "(let ret = (if 7 * Suc k < 64 \<and> bit b 6 then of_nat v OR push_bit (7 * Suc k) (NOT 0) else of_nat v)
     in if int64OverflowCheck b (Suc k) ret then Inl ErrOverflow64 else Inr (ret, Suc k)) =
    (sleb_result 64 68 10 ErrOverflow64 (Suc k) v :: leb_error + u64 \<times> nat)"
proof -
  have ub: "unat b < 128" using b by (simp add: byte_bit7)
  have bits: "bit (int v) (7 * k + j) \<longleftrightarrow> bit b j" if "j < 7" for j
    using bit_group_last [OF r that, of b] ub by (simp add: v_def)
  have vb: "v < 2 ^ (7 * Suc k)" using accum_bound [OF r, of b] ub by (simp add: v_def)
  consider "k < 9" | "k = 9" | "9 < k" by linarith
  then show ?thesis
  proof cases
    case 1
    with sign_extended_groups [OF vb, of b, where 'a = 64] bits [of 6] show ?thesis
      by (auto simp: Let_def int64OverflowCheck_def sleb_result_def maxVarintLen_defs min_def)
  next
    case 2
    have neg: "sint (of_nat v :: u64) < 0 \<longleftrightarrow> bit (int v) 63"
      using bit_last_iff [of "of_nat v :: u64"] by (simp add: bit_simps)
    have hi: "bit (int v) (63 + j) \<longleftrightarrow> bit b j" if "j \<le> 5" for j
      using bits [of j] 2 that by simp
    have "signed_take_bit 63 (int v) = signed_take_bit 68 (int v) \<longleftrightarrow>
        (\<forall>j. 1 \<le> j \<and> j \<le> 5 \<longrightarrow> bit b j = bit (int v) 63)"
      using signed_take_bit_eq_iff [of 63 68 "int v"] hi
        shifted_range [of 63 5 "\<lambda>n. bit (int v) n = bit (int v) 63"] by auto
    then have "int64OverflowCheck b 10 (of_nat v) \<longleftrightarrow>
        signed_take_bit 63 (int v) \<noteq> signed_take_bit 68 (int v)"
      using and_0x3e [of b] neg by (auto simp: int64OverflowCheck_def maxVarintLen_defs)
    moreover have "(of_nat v :: u64) = word_of_int (signed_take_bit 63 (int v))"
      by (simp add: word_of_int_signed_take_bit)
    ultimately show ?thesis using 2 by (simp add: sleb_result_def)
  next
    case 3
    then show ?thesis by (simp add: Let_def int64OverflowCheck_def sleb_result_def maxVarintLen_defs)
  qed
qed

lemma group_step:
  "r + 2 ^ (7 * k) * (m + 128 * u) = r + 2 ^ (7 * k) * m + 2 ^ (7 * Suc k) * u" for r k m u :: nat
  by (simp add: power_add algebra_simps)

lemmas accumulate_signed' = accumulate_signed [unfolded push_bit_and]

lemma DecodeInt32_loop_spec:
  assumes "r < 2 ^ (7 * k)"
  shows "fst (DecodeInt32_loop (7 * k) k (of_nat r) (bs, e)) =
    (let n = leb_len bs in
     if length bs \<le> n then Inl e
     else sleb_result 32 33 5 ErrOverflow32 (k + n + 1) (r + 2 ^ (7 * k) * uleb_value (take (n + 1) bs)))"
  using assms
proof (induction bs arbitrary: k r)
  case (Cons b bs)
  show ?case
  proof (cases "bit b 7")
    case True
    have "fst (DecodeInt32_loop (7 * Suc k) (Suc k) (of_nat (r + 2 ^ (7 * k) * (unat b mod 128))) (bs, e)) =
      (let n = leb_len bs in if length bs \<le> n then Inl e
       else sleb_result 32 33 5 ErrOverflow32 (Suc k + n + 1)
         (r + 2 ^ (7 * k) * (unat b mod 128 + 128 * uleb_value (take (n + 1) bs))))"
      unfolding group_step by (intro Cons.IH accum_bound Cons.prems)
    with True show ?thesis
      by (simp add: accumulate_signed' [OF Cons.prems] and_0x80 Let_def add.commute [of "7 * k" 7]
          del: of_nat_add of_nat_mult)
  next
    case False
    then have "unat b < 128" by (simp add: byte_bit7)
    with False int32_last_byte [OF Cons.prems False] show ?thesis
      by (auto simp add: accumulate_signed' [OF Cons.prems] and_0x80 and_0x40 Let_def add.commute [of "7 * k" 7]
          simp del: of_nat_add of_nat_mult
          cong: if_cong split: if_splits)
  qed
qed simp

lemma DecodeInt64_loop_spec:
  assumes "r < 2 ^ (7 * k)"
  shows "fst (DecodeInt64_loop (7 * k) k (of_nat r) (bs, e)) =
    (let n = leb_len bs in
     if length bs \<le> n then Inl e
     else sleb_result 64 68 10 ErrOverflow64 (k + n + 1) (r + 2 ^ (7 * k) * uleb_value (take (n + 1) bs)))"
  using assms
proof (induction bs arbitrary: k r)
  case (Cons b bs)
  show ?case
  proof (cases "bit b 7")
    case True
    have "fst (DecodeInt64_loop (7 * Suc k) (Suc k) (of_nat (r + 2 ^ (7 * k) * (unat b mod 128))) (bs, e)) =
      (let n = leb_len bs in if length bs \<le> n then Inl e
       else sleb_result 64 68 10 ErrOverflow64 (Suc k + n + 1)
         (r + 2 ^ (7 * k) * (unat b mod 128 + 128 * uleb_value (take (n + 1) bs))))"
      unfolding group_step by (intro Cons.IH accum_bound Cons.prems)
    with True show ?thesis
      by (simp add: accumulate_signed' [OF Cons.prems] and_0x80 Let_def add.commute [of "7 * k" 7]
          del: of_nat_add of_nat_mult)
  next
    case False
    then have "unat b < 128" by (simp add: byte_bit7)
    with False int64_last_byte [OF Cons.prems False] show ?thesis
      by (auto simp add: accumulate_signed' [OF Cons.prems] and_0x80 and_0x40 Let_def add.commute [of "7 * k" 7]
          simp del: of_nat_add of_nat_mult
          cong: if_cong split: if_splits)
  qed
qed simp

section \<open>The slice decoders read what the stream decoders read\<close>

lemma LoadInt32_loop_Decode:
  "LoadInt32_loop buf i shift ret = fst (DecodeInt32_loop shift i ret (drop i buf, EOF))"
proof (induction buf i shift ret rule: LoadInt32_loop.induct)
  case (1 buf i s ret)
  show ?case
  proof (cases "i < length buf")
    case True
    with "1.IH" show ?thesis
      by (simp add: LoadInt32_loop.simps [of buf i s ret] Let_def flip: Cons_nth_drop_Suc)
  qed (simp add: LoadInt32_loop.simps [of buf i s ret])
qed

lemma LoadInt64_loop_Decode:
  "LoadInt64_loop buf i shift ret = fst (DecodeInt64_loop shift i ret (drop i buf, EOF))"
proof (induction buf i shift ret rule: LoadInt64_loop.induct)
  case (1 buf i s ret)
  show ?case
  proof (cases "i < length buf")
    case True
    with "1.IH" show ?thesis
      by (simp add: LoadInt64_loop.simps [of buf i s ret] Let_def flip: Cons_nth_drop_Suc)
  qed (simp add: LoadInt64_loop.simps [of buf i s ret])
qed

lemma LoadInt33_loop_Decode:
  "LoadInt33_loop buf i shift b ret = fst (DecodeInt33_loop shift i b ret (drop i buf, EOF))"
proof (induction buf i shift b ret rule: LoadInt33_loop.induct)
  case (1 buf i s b ret)
  show ?case
  proof (cases "i < length buf")
    case True
    with "1.IH" show ?thesis
      by (simp add: LoadInt33_loop.simps [of buf i s b ret] Let_def flip: Cons_nth_drop_Suc)
  qed (simp add: LoadInt33_loop.simps [of buf i s b ret])
qed

text \<open>The fast path sign-extends the seven value bits of a single byte.\<close>

lemma one_byte_sext:
  assumes "\<not> bit (b::u8) 7"
  shows "(scast (signed_drop_bit 1 (push_bit 1 b)) :: 'a::len word) =
    word_of_int (signed_take_bit 6 (int (unat b)))"
proof -
  define x where "x = push_bit 1 b"
  have x: "bit x (Suc k) \<longleftrightarrow> k < 7 \<and> bit b k" for k
    unfolding x_def bit_push_bit_iff by auto
  have "sint (signed_drop_bit 1 x) = signed_take_bit 6 (int (unat b))"
  proof (rule bit_eqI)
    fix n
    show "bit (sint (signed_drop_bit 1 x)) n = bit (signed_take_bit 6 (int (unat b))) n"
      using assms x [of n] x [of 6] by (cases "n = 6") (auto simp: bit_simps min_def)
  qed
  from arg_cong [OF this, of "word_of_int :: int \<Rightarrow> 'a word"] show ?thesis by (simp add: x_def)
qed

lemma sleb_spec_one_byte:
  assumes "\<not> bit b 7" "1 < maxlen" "7 \<le> w"
  shows "sleb_spec w c maxlen ovf e (b # bs) = Inr (word_of_int (signed_take_bit 6 (int (unat b))), 1)"
proof -
  have "unat b mod 128 = unat b" using assms(1) by (simp add: byte_bit7)
  moreover have "min (w - 1) 6 = 6" using assms(3) by simp
  ultimately show ?thesis using assms by (simp add: sleb_spec_def sleb_result_def)
qed

lemma DecodeInt32_spec: "fst (DecodeInt32 (bs, e)) = sleb_spec 32 33 5 ErrOverflow32 e bs"
  using DecodeInt32_loop_spec [of 0 0 bs e] by (simp add: DecodeInt32_def sleb_spec_def Let_def)
lemma DecodeInt64_spec: "fst (DecodeInt64 (bs, e)) = sleb_spec 64 68 10 ErrOverflow64 e bs"
  using DecodeInt64_loop_spec [of 0 0 bs e] by (simp add: DecodeInt64_def sleb_spec_def Let_def)

lemma LoadInt32_spec: "LoadInt32 buf = sleb_spec 32 33 5 ErrOverflow32 EOF buf"
proof (cases "buf \<noteq> [] \<and> buf ! 0 < 0x80")
  case True
  then obtain b bs where "buf = b # bs" "\<not> bit b 7" by (cases buf) (auto simp: byte_lt_0x80)
  then show ?thesis
    using one_byte_sext [OF \<open>\<not> bit b 7\<close>, where 'a = 32]
    by (simp add: LoadInt32_def sleb_spec_one_byte byte_lt_0x80)
next
  case False
  then show ?thesis
    using DecodeInt32_spec [of buf EOF] by (auto simp: LoadInt32_def DecodeInt32_def LoadInt32_loop_Decode)
qed
lemma LoadInt64_spec: "LoadInt64 buf = sleb_spec 64 68 10 ErrOverflow64 EOF buf"
proof (cases "buf \<noteq> [] \<and> buf ! 0 < 0x80")
  case True
  then obtain b bs where "buf = b # bs" "\<not> bit b 7" by (cases buf) (auto simp: byte_lt_0x80)
  then show ?thesis
    using one_byte_sext [OF \<open>\<not> bit b 7\<close>, where 'a = 64]
    by (simp add: LoadInt64_def sleb_spec_one_byte byte_lt_0x80)
next
  case False
  then show ?thesis
    using DecodeInt64_spec [of buf EOF] by (auto simp: LoadInt64_def DecodeInt64_def LoadInt64_loop_Decode)
qed

section \<open>The unsigned encoder\<close>

lemma unat_ucast_low7: "unat (ucast (w AND 0x7f :: u64) :: u8) = unat w mod 128"
proof -
  have "unat (ucast (w AND 0x7f :: u64) :: u8) = take_bit 7 (unat w)"
    unfolding and_0x7f by (simp add: unsigned_ucast_eq unsigned_take_bit_eq)
  then show ?thesis by (simp add: take_bit_eq_mod)
qed
lemma unat_ucast_low7_or: "unat ((ucast (w AND 0x7f :: u64) :: u8) OR 0x80) = unat w mod 128 + 128"
proof -
  have "(ucast (w AND 0x7f :: u64) :: u8) OR 0x80 = ucast (w AND 0x7f) + 0x80"
    by (rule disjunctive_add_eq_or [symmetric]) simp
  then show ?thesis by (simp add: unat_plus_if' unat_ucast_low7)
qed

lemma bit7_group [simp]: "\<not> bit (ucast (w AND 0x7f :: u64) :: u8) 7"
  "bit ((ucast (w AND 0x7f :: u64) :: u8) OR 0x80) 7"
  by (simp_all add: byte_bit7 unat_ucast_low7 unat_ucast_low7_or not_le)

lemma EncodeUint64_step:
  "EncodeUint64 w = (if drop_bit 7 w = 0 then [ucast (w AND 0x7f)]
     else (ucast (w AND 0x7f) OR 0x80) # EncodeUint64 (drop_bit 7 w))"
  by (simp add: EncodeUint64.simps [of w] Let_def)

lemma unat_drop7: "unat (drop_bit 7 (w::u64)) = unat w div 128"
  unfolding unat_drop_bit_eq by (simp add: drop_bit_eq_div)

lemma EncodeUint64_value:
  "uleb_value (EncodeUint64 w) = unat w \<and> leb_len (EncodeUint64 w @ rest) + 1 = length (EncodeUint64 w)"
proof (induction "unat w" arbitrary: w rule: less_induct)
  case less
  show ?case
  proof (cases "drop_bit 7 w = 0")
    case True
    then have "unat w div 128 = 0" using unat_drop7 [of w] by simp
    then have "unat w < 128" by linarith
    with True show ?thesis by (simp add: EncodeUint64_step [of w] unat_ucast_low7)
  next
    case False
    then have "unat w div 128 \<noteq> 0" using unat_drop7 [of w] by (metis unat_eq_0)
    then have "unat (drop_bit 7 w) < unat w" unfolding unat_drop7 by (simp add: div_less_dividend)
    from less.hyps [OF this] False show ?thesis
      by (simp add: EncodeUint64_step [of w] unat_ucast_low7_or unat_drop7)
  qed
qed

lemma EncodeUint64_length:
  "unat w < 2 ^ (7 * n) \<Longrightarrow> 0 < n \<Longrightarrow> length (EncodeUint64 w) \<le> n"
proof (induction n arbitrary: w)
  case (Suc n)
  show ?case
  proof (cases "drop_bit 7 w = 0")
    case False
    then have nz: "unat w div 128 \<noteq> 0" using unat_drop7 [of w] by (metis unat_eq_0)
    have b: "unat w div 128 < 2 ^ (7 * n)"
      using Suc.prems(1) by (simp add: power_add less_mult_imp_div_less mult.commute)
    with nz have "0 < n" by (cases n) auto
    with b Suc.IH [of "drop_bit 7 w"] False show ?thesis
      by (simp add: EncodeUint64_step [of w] unat_drop7)
  qed (simp add: EncodeUint64_step [of w])
qed simp

lemma uleb_spec_append:
  assumes "leb_len (xs @ rest) + 1 = length xs" and "length xs \<le> maxlen" and "uleb_value xs < 2 ^ w"
  shows "uleb_spec w maxlen ovf e (xs @ rest) = Inr (uleb_value xs, length xs)"
proof -
  obtain k where k: "leb_len (xs @ rest) = k" "length xs = Suc k" using assms(1) by (metis Suc_eq_plus1)
  then have "take (k + 1) (xs @ rest) = xs" by simp
  with k assms show ?thesis by (simp add: uleb_spec_def Let_def)
qed

lemma LoadUint64_EncodeUint64: "LoadUint64 (EncodeUint64 v @ rest) = Inr (v, length (EncodeUint64 v))"
proof -
  have b: "unat v < 2 ^ 64" using unsigned_less [of v, where 'a = nat] by simp
  then have "unat v < 2 ^ (7 * 10)" by simp
  from EncodeUint64_length [OF this] have "length (EncodeUint64 v) \<le> 10" by simp
  with b EncodeUint64_value [of v rest] show ?thesis
    by (simp add: LoadUint64_spec uleb_spec_append)
qed

lemma LoadUint32_EncodeUint32: "LoadUint32 (EncodeUint32 v @ rest) = Inr (v, length (EncodeUint32 v))"
proof -
  have b: "unat v < 2 ^ 32" using unsigned_less [of v, where 'a = nat] by simp
  then have u: "unat (ucast v :: u64) = unat v"
    unfolding unsigned_ucast_eq by (intro take_bit_nat_eq_self) simp
  have "unat (ucast v :: u64) < 2 ^ (7 * 5)" unfolding u using b by simp
  from EncodeUint64_length [OF this] have "length (EncodeUint32 v) \<le> 5" by (simp add: EncodeUint32_def)
  moreover have "uleb_value (EncodeUint32 v) = unat v" "leb_len (EncodeUint32 v @ rest) + 1 = length (EncodeUint32 v)"
    using EncodeUint64_value [of "ucast v" rest] u by (simp_all add: EncodeUint32_def)
  ultimately show ?thesis using b
    by (simp add: LoadUint32_Decode DecodeUint32_spec uleb_spec_append)
qed

section \<open>The signed encoder\<close>

text \<open>Signed encoder. The value of a signed group list: low seven bits plus 128 times the rest.\<close>

lemma sleb_value_Cons:
  assumes "bs \<noteq> []"
  shows "sleb_value (b # bs) = int (unat b mod 128) + 128 * sleb_value bs"
proof -
  define n where "n = 7 * length bs - 1"
  have n: "7 * length (b # bs) - 1 = n + 7" "7 * length bs - 1 = n" using assms
    by (cases bs; simp add: n_def)+
  have "signed_take_bit (n + 7) (int m + 128 * k) = int m + 128 * signed_take_bit n k"
    if "m < 128" for m k
  proof -
    have d: "int m + 128 * k = concat_bit 7 (int m) k"
      using that by (simp add: concat_bit_eq push_bit_eq_mult take_bit_int_eq_self)
    have e: "int m + 128 * signed_take_bit n k = concat_bit 7 (int m) (signed_take_bit n k)"
      using that by (simp add: concat_bit_eq push_bit_eq_mult take_bit_int_eq_self)
    show ?thesis unfolding d e
      by (rule bit_eqI) (auto simp: bit_simps min_def)
  qed
  from this [of "unat b mod 128" "int (uleb_value bs)"] show ?thesis
    unfolding sleb_value_def n by simp
qed

lemma sleb_value_single: "sleb_value [b] = signed_take_bit 6 (int (unat b mod 128))"
  by (simp add: sleb_value_def)

lemma ucast_and_0x40: "(ucast (w AND 0x40 :: u64) :: u8) = 0 \<longleftrightarrow> \<not> bit w 6"
proof
  assume h: "(ucast (w AND 0x40 :: u64) :: u8) = 0"
  have "\<not> bit (ucast (w AND 0x40 :: u64) :: u8) 6" unfolding h by simp
  then show "\<not> bit w 6" by (simp add: bit_simps)
next
  assume "\<not> bit w 6"
  then show "(ucast (w AND 0x40 :: u64) :: u8) = 0" by (intro bit_word_eqI) (auto simp: bit_simps)
qed

lemma sint_sdrop7: "sint (signed_drop_bit 7 (w::u64)) = sint w div 128"
  by (simp add: sint_signed_drop_bit_eq drop_bit_eq_div)

lemma bit6_sint: "bit (w::u64) 6 \<longleftrightarrow> 64 \<le> sint w mod 128"
proof -
  have "bit w 6 \<longleftrightarrow> bit (sint w) 6" by (simp add: bit_sint_iff)
  also have "\<dots> \<longleftrightarrow> bit (sint w mod 128) 6"
    using bit_take_bit_iff [of 7 "sint w" 6] by (simp add: take_bit_eq_mod)
  also have "\<dots> \<longleftrightarrow> odd (sint w mod 128 div 64)" by (simp add: bit_iff_odd)
  also have "\<dots> \<longleftrightarrow> 64 \<le> sint w mod 128"
  proof -
    have "sint w mod 128 div 64 = (if 64 \<le> sint w mod 128 then 1 else 0)"
      using pos_mod_bound [of 128 "sint w"] pos_mod_sign [of 128 "sint w"] by (auto intro: div_pos_pos_trivial)
    then show ?thesis by simp
  qed
  finally show ?thesis .
qed

lemma EncodeInt64_last_iff:
  "(signed_drop_bit 7 w \<noteq> -1 \<or> (ucast (w AND 0x40) :: u8) = 0) \<and> (signed_drop_bit 7 w \<noteq> 0 \<or> (ucast (w AND 0x40) :: u8) \<noteq> 0)
   \<longleftrightarrow> \<not> sleb_last w"
proof -
  have "signed_drop_bit 7 w = -1 \<longleftrightarrow> sint w div 128 = -1"
    using sint_sdrop7 [of w] signed_word_eqI [of "signed_drop_bit 7 w" "-1"] by auto
  moreover have "signed_drop_bit 7 w = 0 \<longleftrightarrow> sint w div 128 = 0"
    using sint_sdrop7 [of w] signed_word_eqI [of "signed_drop_bit 7 w" 0] by auto
  ultimately show ?thesis unfolding ucast_and_0x40 bit6_sint sleb_last_def by presburger
qed

lemma EncodeInt64_step:
  "EncodeInt64 w = (if sleb_last w then [ucast (w AND 0x7f)]
     else (ucast (w AND 0x7f) OR 0x80) # EncodeInt64 (signed_drop_bit 7 w))"
  unfolding EncodeInt64.simps [of w] Let_def EncodeInt64_last_iff by simp

lemma unat_mod128_sint: "int (unat w mod 128) = sint w mod 128" for w :: u64
proof -
  have "int (unat w mod 128) = take_bit 7 (int (unat w))" by (simp add: take_bit_eq_mod zmod_int)
  also have "\<dots> = take_bit 7 (sint w)"
    by (rule bit_eqI) (auto simp: bit_simps)
  finally show ?thesis by (simp add: take_bit_eq_mod)
qed

lemma EncodeInt64_value:
  "sleb_value (EncodeInt64 w) = sint w \<and> leb_len (EncodeInt64 w @ rest) + 1 = length (EncodeInt64 w)"
proof (induction "nat \<bar>sint w\<bar>" arbitrary: w rule: less_induct)
  case less
  show ?case
  proof (cases "sleb_last w")
    case True
    have "signed_take_bit 6 (int (unat w mod 128)) = sint w"
    proof -
      have "signed_take_bit 6 (int (unat w mod 128)) = signed_take_bit 6 (sint w)"
        unfolding unat_mod128_sint by (rule bit_eqI) (auto simp: bit_simps min_def simp flip: take_bit_eq_mod [of 7 , simplified])
      also have "\<dots> = sint w"
        using True by (intro signed_take_bit_int_eq_self) (auto simp: sleb_last_def)
      finally show ?thesis .
    qed
    with True show ?thesis by (simp add: EncodeInt64_step [of w] unat_ucast_low7 sleb_value_single)
  next
    case False
    then have "sint w \<noteq> 0" "sint w \<noteq> -1" by (auto simp: sleb_last_def)
    from abs_div_128 [OF this] have "nat \<bar>sint (signed_drop_bit 7 w)\<bar> < nat \<bar>sint w\<bar>" unfolding sint_sdrop7 by linarith
    from less.hyps [OF this] False have IH: "sleb_value (EncodeInt64 (signed_drop_bit 7 w)) = sint w div 128"
      "leb_len (EncodeInt64 (signed_drop_bit 7 w) @ rest) + 1 = length (EncodeInt64 (signed_drop_bit 7 w))"
      by (simp_all add: sint_sdrop7)
    then have "EncodeInt64 (signed_drop_bit 7 w) \<noteq> []" by auto
    from sleb_value_Cons [OF this, of "ucast (w AND 0x7f) OR 0x80"] IH False show ?thesis
      by (simp add: EncodeInt64_step [of w] unat_ucast_low7_or unat_mod128_sint)
  qed
qed

lemma EncodeInt64_length:
  "- (2 ^ (7 * Suc n - 1)) \<le> sint w \<Longrightarrow> sint w < 2 ^ (7 * Suc n - 1) \<Longrightarrow> length (EncodeInt64 w) \<le> Suc n"
proof (induction n arbitrary: w)
  case 0
  then have "sleb_last w" by (simp add: sleb_last_def)
  then show ?case by (simp add: EncodeInt64_step [of w])
next
  case (Suc n)
  have p: "(2::int) ^ (7 * Suc (Suc n) - 1) = 128 * 2 ^ (7 * Suc n - 1)"
    by (simp add: eval_nat_numeral power_add)
  from Suc.prems have "- (2 ^ (7 * Suc n - 1)) \<le> sint w div 128" "sint w div 128 < 2 ^ (7 * Suc n - 1)" unfolding p by linarith+
  with Suc.IH [of "signed_drop_bit 7 w"] show ?case by (simp add: EncodeInt64_step [of w] sint_sdrop7)
qed

lemma sleb_result_fits:
  assumes "m \<le> maxlen" and k: "signed_take_bit (7 * m - 1) (int v) = k"
    and range: "- (2 ^ (w - 1)) \<le> k" "k < 2 ^ (w - 1)" and "w - 1 \<le> c" "c \<le> 7 * maxlen - 1"
  shows "sleb_result w c maxlen ovf m v = Inr (word_of_int k, m)"
proof -
  have stable: "signed_take_bit j k = k" if "w - 1 \<le> j" for j
  proof (rule signed_take_bit_int_eq_self)
    have "(2::int) ^ (w - 1) \<le> 2 ^ j" using that by (intro power_increasing) auto
    then show "- (2 ^ j) \<le> k" "k < 2 ^ j" using range by linarith+
  qed
  have low: "signed_take_bit j k = signed_take_bit (min j (7 * m - 1)) (int v)" for j
    unfolding k [symmetric] by (simp add: signed_take_bit_signed_take_bit)
  have "signed_take_bit (w - 1) (int v) = signed_take_bit c (int v)" if "m = maxlen"
    using stable [of "w - 1"] stable [of c] low [of "w - 1"] low [of c] that assms(5,6) by (simp add: min_def)
  with assms(1) stable [of "w - 1"] low [of "w - 1"] show ?thesis by (auto simp: sleb_result_def)
qed

lemma sleb_spec_append:
  assumes "leb_len (xs @ rest) + 1 = length xs" and "length xs \<le> maxlen"
    and "- (2 ^ (w - 1)) \<le> sleb_value xs" "sleb_value xs < 2 ^ (w - 1)" and "w - 1 \<le> c" "c \<le> 7 * maxlen - 1"
  shows "sleb_spec w c maxlen ovf e (xs @ rest) = Inr (word_of_int (sleb_value xs), length xs)"
proof -
  obtain k where k: "leb_len (xs @ rest) = k" "length xs = Suc k" using assms(1) by (metis Suc_eq_plus1)
  then have "take (k + 1) (xs @ rest) = xs" by simp
  moreover have "sleb_result w c maxlen ovf (length xs) (uleb_value xs) = Inr (word_of_int (sleb_value xs), length xs)"
    using assms k by (intro sleb_result_fits) (auto simp: sleb_value_def)
  ultimately show ?thesis using k by (simp add: sleb_spec_def)
qed

lemma LoadInt64_EncodeInt64: "LoadInt64 (EncodeInt64 v @ rest) = Inr (v, length (EncodeInt64 v))"
proof -
  note b = sint_bounds [of v, simplified]
  then have "length (EncodeInt64 v) \<le> Suc 9" by (intro EncodeInt64_length) auto
  with b EncodeInt64_value [of v rest] show ?thesis
    unfolding LoadInt64_spec by (subst sleb_spec_append) auto
qed

lemma LoadInt32_EncodeInt32: "LoadInt32 (EncodeInt32 v @ rest) = Inr (v, length (EncodeInt32 v))"
proof -
  note b = sint_bounds [of v, simplified]
  have s: "sint (scast v :: u64) = sint v"
    unfolding signed_scast_eq using b by (intro signed_take_bit_int_eq_self) auto
  have "length (EncodeInt64 (scast v)) \<le> Suc 4" using b s by (intro EncodeInt64_length) auto
  with b s EncodeInt64_value [of "scast v" rest] show ?thesis
    unfolding LoadInt32_spec EncodeInt32_def by (subst sleb_spec_append) auto
qed

section \<open>The 33-bit decoder\<close>

lemma ucast_byte_bits:
  "(ucast (b::u8) :: u64) AND 0x80 = 0 \<longleftrightarrow> \<not> bit b 7"
  "(ucast b :: u64) AND 0x40 = 0x40 \<longleftrightarrow> bit b 6"
  "(ucast b :: u64) AND 0x20 = 0x20 \<longleftrightarrow> bit b 5"
  "(ucast b :: u64) AND 0x20 = 0 \<longleftrightarrow> \<not> bit b 5"
  by (auto simp: and_mask_eq_iff bit_ucast_iff)

lemma ucast_not_0x80: "(ucast (b::u8) :: u64) AND NOT 0x80 = ucast b AND 0x7f"
  unfolding and_0x7f by (rule bit_word_eqI) (auto simp: bit_simps dest: bit_imp_le_length less_antisym)

lemma sext33: "signed_drop_bit 31 (push_bit 31 (w::u64)) = word_of_int (signed_take_bit 32 (uint w))"
proof (rule bit_word_eqI)
  fix n assume "n < LENGTH(64)"
  then show "bit (signed_drop_bit 31 (push_bit 31 w)) n = bit (word_of_int (signed_take_bit 32 (uint w)) :: u64) n"
    by (cases "n = 32") (auto simp: bit_simps min_def)
qed

lemma int33Finish_spec:
  fixes b :: u8
  assumes r: "r < 2 ^ (7 * k)" and k: "k \<le> 4"
  defines "v \<equiv> r + 2 ^ (7 * k) * (unat b mod 128)"
  shows "int33Finish (ucast b) (7 * Suc k) (Suc k) (of_nat v) = sleb_result 33 33 5 ErrOverflow33 (Suc k) v"
proof -
  have bits: "bit (int v) (7 * k + j) \<longleftrightarrow> bit b j" if "j < 7" for j
    using bit_group_last [OF r that, of b] by (simp add: v_def)
  have vb: "v < 2 ^ (7 * Suc k)" using accum_bound [OF r, of b] by (simp add: v_def)
  show ?thesis
  proof (cases "k = 4")
    case True
    have "bit (int v) 33 \<longleftrightarrow> bit b 5" using bits [of 5] True by simp
    then have "signed_take_bit 32 (int v) = signed_take_bit 33 (int v) \<longleftrightarrow> bit b 5 = bit (int v) 32"
      using signed_take_bit_eq_iff [of 32 33 "int v"] by (auto simp: le_Suc_eq numeral_eq_Suc)
    moreover have "sint (word_of_int (signed_take_bit 32 (int v)) :: u64) < 0 \<longleftrightarrow> bit (int v) 32"
      using bit_last_iff [of "word_of_int (signed_take_bit 32 (int v)) :: u64"] by (simp add: bit_simps min_def)
    moreover have "signed_drop_bit 31 (push_bit 31 (of_nat v :: u64)) = word_of_int (signed_take_bit 32 (int v))"
      unfolding sext33 by (rule bit_word_eqI) (auto simp: bit_simps min_def)
    ultimately show ?thesis using True
      by (auto simp: int33Finish_def sleb_result_def maxVarintLen_defs ucast_byte_bits Let_def)
  next
    case False
    with k have k3: "k \<le> 3" by simp
    define ret where "ret = (if bit b 6 then of_nat v OR push_bit (7 * Suc k) 8589934591 else (of_nat v :: u64))"
    have m33: "(8589934591 :: u64) = mask 33" by (simp add: mask_eq_exp_minus_1)
    have hi: "\<not> bit v m" if "7 * Suc k \<le> m" for m
      using vb that by (metis bit_take_bit_iff leD take_bit_nat_eq_self)
    have ret: "bit ret m \<longleftrightarrow> (if m < 7 * Suc k then bit v m else bit b 6)" if "m \<le> 32" for m
      using that hi [of m] unfolding ret_def m33 by (auto simp: bit_simps)
    have b6: "bit v (6 + 7 * k) \<longleftrightarrow> bit b 6" using bits [of 6] by (simp add: bit_simps add.commute)
    have "signed_drop_bit 31 (push_bit 31 ret) = word_of_int (signed_take_bit (6 + 7 * k) (int v))"
      unfolding sext33
    proof (rule bit_word_eqI)
      fix n assume "n < LENGTH(64)"
      then show "bit (word_of_int (signed_take_bit 32 (uint ret)) :: u64) n =
          bit (word_of_int (signed_take_bit (6 + 7 * k) (int v)) :: u64) n"
        using ret [of "min 32 n"] b6 k3
        by (cases "n \<le> 6 + 7 * k") (auto simp: bit_simps)
    qed
    then show ?thesis using k3 unfolding ret_def
      by (auto simp: int33Finish_def sleb_result_def maxVarintLen_defs ucast_byte_bits Let_def min_def)
  qed
qed
lemma DecodeInt33_loop_spec:
  assumes "r < 2 ^ (7 * k)" "k \<le> 4"
  shows "fst (DecodeInt33_loop (7 * k) k b0 (of_nat r) (bs, e)) =
    (let n = min (leb_len bs) (4 - k) in
     if length bs \<le> n then Inl e
     else sleb_result 33 33 5 ErrOverflow33 (k + n + 1) (r + 2 ^ (7 * k) * uleb_value (take (n + 1) bs)))"
  using assms
proof (induction bs arbitrary: k r b0)
  case (Cons b bs)
  let ?v = "r + 2 ^ (7 * k) * (unat b mod 128)"
  have fin: "int33Finish (ucast b) (7 * Suc k) (Suc k) (of_nat ?v) = sleb_result 33 33 5 ErrOverflow33 (Suc k) ?v"
    by (rule int33Finish_spec [OF Cons.prems])
  have acc: "of_nat r OR push_bit (7 * k) (ucast b AND NOT 0x80) = (of_nat ?v :: u64)"
    unfolding ucast_not_0x80 by (rule accumulate_signed [OF Cons.prems(1)])
  have step: "fst (DecodeInt33_loop (7 * k) k b0 (of_nat r) (b # bs, e)) =
      (if bit b 7 then fst (DecodeInt33_loop (7 * Suc k) (Suc k) (ucast b) (of_nat ?v) (bs, e))
       else int33Finish (ucast b) (7 * Suc k) (Suc k) (of_nat ?v))"
    using Cons.prems(2) unfolding DecodeInt33_loop.simps Let_def acc ucast_byte_bits by (simp add: add.commute)
  consider "\<not> bit b 7" | "bit b 7" "k = 4" | "bit b 7" "k \<le> 3" using Cons.prems(2) by linarith
  then show ?case
  proof cases
    case 1
    then show ?thesis unfolding step fin by simp
  next
    case 2
    have "fst (DecodeInt33_loop 35 5 (ucast b) x (bs, e)) = int33Finish (ucast b) 35 5 x" for x
      by (cases bs) simp_all
    with 2 fin show ?thesis unfolding step by simp
  next
    case 3
    have "fst (DecodeInt33_loop (7 * Suc k) (Suc k) (ucast b) (of_nat ?v) (bs, e)) =
      (let n = min (leb_len bs) (4 - Suc k) in if length bs \<le> n then Inl e
       else sleb_result 33 33 5 ErrOverflow33 (Suc k + n + 1)
         (r + 2 ^ (7 * k) * (unat b mod 128 + 128 * uleb_value (take (n + 1) bs))))"
      unfolding group_step using 3(2) by (intro Cons.IH accum_bound Cons.prems) simp
    moreover have "min (Suc (leb_len bs)) (4 - k) = Suc (min (leb_len bs) (4 - Suc k))" using 3(2) by simp
    ultimately show ?thesis using 3 unfolding step Let_def by simp
  qed
qed simp

lemma DecodeInt33AsInt64_spec: "fst (DecodeInt33AsInt64 (bs, e)) = int33_spec e bs"
  using DecodeInt33_loop_spec [of 0 0 0 bs e] by (simp add: DecodeInt33AsInt64_def int33_spec_def Let_def)

lemma LoadInt33AsInt64_spec: "LoadInt33AsInt64 buf = int33_spec EOF buf"
proof (cases "buf \<noteq> [] \<and> buf ! 0 < 0x80")
  case True
  then obtain b bs where b: "buf = b # bs" "\<not> bit b 7" by (cases buf) (auto simp: byte_lt_0x80)
  then have "int33_spec EOF buf = sleb_spec 33 33 5 ErrOverflow33 EOF buf"
    by (simp add: int33_spec_def sleb_spec_def)
  with b show ?thesis
    using one_byte_sext [OF b(2), where 'a = 64]
    by (simp add: LoadInt33AsInt64_def sleb_spec_one_byte byte_lt_0x80)
next
  case False
  then show ?thesis
    using DecodeInt33AsInt64_spec [of buf EOF]
    by (auto simp: LoadInt33AsInt64_def DecodeInt33AsInt64_def LoadInt33_loop_Decode)
qed

lemma LoadInt33_EncodeInt64:
  assumes "- (2 ^ 32) \<le> sint v" "sint v < 2 ^ 32"
  shows "LoadInt33AsInt64 (EncodeInt64 v @ rest) = Inr (v, length (EncodeInt64 v))"
proof -
  have len: "length (EncodeInt64 v) \<le> Suc 4" using assms by (intro EncodeInt64_length) auto
  note ev = EncodeInt64_value [of v rest]
  then have "min (leb_len (EncodeInt64 v @ rest)) 4 = leb_len (EncodeInt64 v @ rest)" using len by linarith
  then have "LoadInt33AsInt64 (EncodeInt64 v @ rest) = sleb_spec 33 33 5 ErrOverflow33 EOF (EncodeInt64 v @ rest)"
    unfolding LoadInt33AsInt64_spec int33_spec_def sleb_spec_def by (simp only:)
  with ev len assms show ?thesis by (subst (asm) sleb_spec_append) auto
qed

section \<open>Lengths\<close>

lemma EncodeUint32_length: "length (EncodeUint32 u) \<le> 5"
proof -
  have "unat u < 2 ^ 32" using unsigned_less [of u, where 'a = nat] by simp
  then have "take_bit 64 (unat u) < 2 ^ (7 * 5)"
    by (intro le_less_trans [OF take_bit_nat_less_eq_self]) simp
  then have "unat (ucast u :: u64) < 2 ^ (7 * 5)" unfolding unsigned_ucast_eq by simp
  from EncodeUint64_length [OF this] show ?thesis by (simp add: EncodeUint32_def)
qed

lemma EncodeInt32_length: "length (EncodeInt32 u) \<le> 5"
proof -
  note b = sint_bounds [of u, simplified]
  then have "sint (scast u :: u64) = sint u"
    unfolding signed_scast_eq by (intro signed_take_bit_int_eq_self) auto
  with b have "length (EncodeInt64 (scast u)) \<le> Suc 4" by (intro EncodeInt64_length) auto
  then show ?thesis by (simp add: EncodeInt32_def)
qed

lemma LoadUint32_consumed:
  "LoadUint32 buf = Inr (v, n) \<Longrightarrow> n \<le> length buf \<and> 0 < n \<and> n \<le> 5"
  by (auto simp: LoadUint32_Decode DecodeUint32_spec uleb_spec_def Let_def split: if_splits)

lemma LoadUint64_shortest:
  assumes "LoadUint64 buf = Inr (v, n)"
  shows "length (EncodeUint64 v) \<le> n \<and> n \<le> 10"
proof -
  let ?x = "uleb_value (take n buf)"
  from assms have n: "0 < n" "n \<le> 10" "n \<le> length buf" and x: "?x < 2 ^ 64" and v: "v = of_nat ?x"
    by (auto simp: LoadUint64_spec uleb_spec_def Let_def not_le split: if_splits)
  then have "unat v = ?x" by (simp add: unat_of_nat)
  with uleb_value_bound [of "take n buf"] n have "unat v < 2 ^ (7 * n)" by simp
  with n show ?thesis by (simp add: EncodeUint64_length)
qed

lemma LoadInt64_shortest:
  assumes "LoadInt64 buf = Inr (v, n)"
  shows "length (EncodeInt64 v) \<le> n \<and> n \<le> 10"
proof -
  define m where "m = min 63 (7 * n - 1)"
  define k where "k = signed_take_bit m (int (uleb_value (take n buf)))"
  from assms have n: "0 < n" "n \<le> 10" and v: "v = word_of_int k"
    by (auto simp: LoadInt64_spec sleb_spec_def sleb_result_def Let_def not_le k_def m_def split: if_splits)
  have range: "- (2 ^ m) \<le> k" "k < 2 ^ m"
    unfolding k_def by (simp_all add: signed_take_bit_int_greater_eq_minus_exp signed_take_bit_int_less_exp)
  have "(2::int) ^ m \<le> 2 ^ 63" by (intro power_increasing) (auto simp: m_def)
  then have "sint v = k" unfolding v using range
    by (simp add: sint_sbintrunc') (intro signed_take_bit_int_eq_self, auto)
  moreover have "(2::int) ^ m \<le> 2 ^ (7 * Suc (n - 1) - 1)"
    using n by (intro power_increasing) (auto simp: m_def)
  ultimately have "length (EncodeInt64 v) \<le> Suc (n - 1)"
    using range by (intro EncodeInt64_length) linarith+
  with n show ?thesis by simp
qed

section \<open>Properties\<close>


text \<open>
  C29. Exact behaviour of the unsigned decoders on every input: the error is decided by the
  number of continuation bytes first, then by truncation, then by the value; a returned
  value is the mathematical value of the bytes read, which fits the width.
\<close>

theorem unsigned_decoders_exact:
  "LoadUint32 buf = bindE (uleb_spec 32 5 ErrOverflow32 EOF buf) (\<lambda>(v, n). Inr (of_nat v, n)) \<and>
   fst (DecodeUint32 (buf, e)) = bindE (uleb_spec 32 5 ErrOverflow32 e buf) (\<lambda>(v, n). Inr (of_nat v, n)) \<and>
   LoadUint64 buf = bindE (uleb_spec 64 10 ErrOverflow64 EOF buf) (\<lambda>(v, n). Inr (of_nat v, n))"
  by (simp add: LoadUint32_Decode DecodeUint32_spec LoadUint64_spec)

text \<open>
  C30. Exact behaviour of the signed decoders on every input, slice and stream alike. The
  result is the sign-extended value of the bytes read; a final byte is checked against the
  sign only up to bit 33 (32-bit), bit 68 (64-bit) and bit 33 (33-bit) of the value.
\<close>

theorem signed_decoders_exact:
  "LoadInt32 buf = sleb_spec 32 33 5 ErrOverflow32 EOF buf \<and>
   fst (DecodeInt32 (buf, e)) = sleb_spec 32 33 5 ErrOverflow32 e buf \<and>
   LoadInt64 buf = sleb_spec 64 68 10 ErrOverflow64 EOF buf \<and>
   fst (DecodeInt64 (buf, e)) = sleb_spec 64 68 10 ErrOverflow64 e buf \<and>
   LoadInt33AsInt64 buf = int33_spec EOF buf \<and>
   fst (DecodeInt33AsInt64 (buf, e)) = int33_spec e buf"
  by (simp add: LoadInt32_spec DecodeInt32_spec LoadInt64_spec DecodeInt64_spec
      LoadInt33AsInt64_spec DecodeInt33AsInt64_spec)

text \<open>
  The encoders are canonical: no input that decodes to a value is shorter than the
  encoding of that value, and no encoding exceeds 5 bytes (32-bit) or 10 bytes (64-bit).
\<close>

theorem encoders_shortest:
  "(LoadUint64 buf = Inr (v, n) \<longrightarrow> length (EncodeUint64 v) \<le> n \<and> n \<le> 10) \<and>
   (LoadInt64 buf = Inr (v, n) \<longrightarrow> length (EncodeInt64 v) \<le> n \<and> n \<le> 10) \<and>
   length (EncodeUint32 u) \<le> 5 \<and> length (EncodeInt32 u) \<le> 5"
  by (simp add: LoadUint64_shortest LoadInt64_shortest EncodeUint32_length EncodeInt32_length)

theorem encoders_shortest_witness:
  "LoadUint64 [0x80, 0x00] = Inr (0, 2) \<and> length (EncodeUint64 0) \<le> 2 \<and>
   LoadInt64 [0xff, 0x7f] = Inr (-1, 2) \<and> length (EncodeInt64 (-1)) \<le> 2"
proof -
  have u: "LoadUint64 [0x80, 0x00] = Inr (0, 2)" and i: "LoadInt64 [0xff, 0x7f] = Inr (-1, 2)"
    by code_simp+
  show ?thesis
    using u i encoders_shortest [of "[0x80, 0x00]" 0 2 0] encoders_shortest [of "[0xff, 0x7f]" "-1" 2 0]
    by simp
qed

text \<open>
  \<^verbatim>\<open>LoadVecSize\<close> never lets a declared element count exceed the bytes that remain, so an
  allocation sized by it is bounded by the input; it rejects exactly the larger counts.
\<close>

theorem LoadVecSize_bounded:
  "LoadVecSize buf = Inr (c, n) \<longleftrightarrow> LoadUint32 buf = Inr (c, n) \<and> n + unat c \<le> length buf"
  using LoadUint32_consumed [of buf c n]
  by (cases "LoadUint32 buf") (auto simp: LoadVecSize_def Let_def split: if_splits)


end
