(* ===== verification/Table_Interface.thy ===== *)
theory Table_Interface
  imports Wazy_Prelude
begin

text \<open>
  The contract that the runtime's index-allocating tables share: the descriptor table
  of \<^verbatim>\<open>internal/descriptor/table.go\<close> and the handle table of
  \<^verbatim>\<open>internal/component/instance/resource.go\<close>. A table state is viewed as a finite map
  from indices to items; allocation picks an index that is not live, release forgets
  one. The lemmas about sequences of operations are proved once here and reach the two
  tables through their interpretations.
\<close>

datatype 'a table_op = Alloc 'a | Release nat

locale index_table =
  fixes inv :: "'s \<Rightarrow> bool"
    and view :: "'s \<Rightarrow> nat \<Rightarrow> 'a option"
    and alloc :: "'s \<Rightarrow> 'a \<Rightarrow> (nat \<times> 's) option"
    and release :: "'s \<Rightarrow> nat \<Rightarrow> 's"
  assumes alloc_fresh: "inv s \<Longrightarrow> alloc s x = Some (k, s') \<Longrightarrow> view s k = None"
    and alloc_view: "inv s \<Longrightarrow> alloc s x = Some (k, s') \<Longrightarrow> view s' = (view s)(k \<mapsto> x)"
    and alloc_inv: "inv s \<Longrightarrow> alloc s x = Some (k, s') \<Longrightarrow> inv s'"
    and release_view: "inv s \<Longrightarrow> view (release s k) = (view s)(k := None)"
    and release_inv: "inv s \<Longrightarrow> inv (release s k)"
begin

text \<open>Running a list of operations: the allocated indices in order, or failure.\<close>

fun run :: "'a table_op list \<Rightarrow> 's \<Rightarrow> (nat list \<times> 's) option" where
  "run [] s = Some ([], s)"
| "run (Alloc x # ops) s =
     (case alloc s x of None \<Rightarrow> None
      | Some (k, s') \<Rightarrow> map_option (\<lambda>(ks, t). (k # ks, t)) (run ops s'))"
| "run (Release k # ops) s = run ops (release s k)"

text \<open>The same operations on the abstract map, with the indices that were handed out.\<close>

fun replay :: "'a table_op list \<Rightarrow> nat list \<Rightarrow> (nat \<Rightarrow> 'a option) \<Rightarrow> nat \<Rightarrow> 'a option" where
  "replay (Alloc x # ops) (k # ks) m = replay ops ks (m(k \<mapsto> x))"
| "replay (Release k # ops) ks m = replay ops ks (m(k := None))"
| "replay _ _ m = m"

lemma run_refines:
  "inv s \<Longrightarrow> run ops s = Some (ks, t) \<Longrightarrow> inv t \<and> view t = replay ops ks (view s)"
proof (induction ops s arbitrary: ks t rule: run.induct)
  case (2 x ops s)
  then obtain k s' where a: "alloc s x = Some (k, s')" by (auto split: option.splits)
  with "2.prems" obtain ks' where "ks = k # ks'" "run ops s' = Some (ks', t)" by auto
  with 2 a show ?case using alloc_inv alloc_view by (metis replay.simps(1))
next
  case (3 k ops s)
  then show ?case using release_inv release_view by (metis replay.simps(2) run.simps(3))
qed simp_all

text \<open>Indices handed out by allocations in a row are distinct and were not live before.\<close>

lemma allocs_distinct:
  "inv s \<Longrightarrow> run (map Alloc xs) s = Some (ks, t) \<Longrightarrow>
     distinct ks \<and> length ks = length xs \<and> (\<forall>k \<in> set ks. view s k = None) \<and>
     (\<forall>i < length xs. view t (ks ! i) = Some (xs ! i)) \<and> (\<forall>k. k \<notin> set ks \<longrightarrow> view t k = view s k)"
proof (induction xs arbitrary: s ks)
  case (Cons x xs)
  then obtain k s' where a: "alloc s x = Some (k, s')" by (auto split: option.splits)
  with Cons.prems obtain ks' where ks: "ks = k # ks'" and r: "run (map Alloc xs) s' = Some (ks', t)" by auto
  note s' = alloc_inv [OF Cons.prems(1) a] alloc_view [OF Cons.prems(1) a] alloc_fresh [OF Cons.prems(1) a]
  note IH = Cons.IH [OF s'(1) r]
  then have k: "k \<notin> set ks'" using s'(2) by fastforce
  moreover have "view t k = Some x" using IH k s'(2) by simp
  moreover have "view s j = None" if "j \<in> set ks'" for j
    using IH that k s'(2) by (metis fun_upd_apply)
  ultimately show ?case using IH s' by (auto simp: ks nth_Cons split: nat.splits)
qed simp

lemma alloc_then_view:
  "inv s \<Longrightarrow> alloc s x = Some (k, s') \<Longrightarrow> view s' k = Some x"
  by (simp add: alloc_view)

end

end
