(* ===== verification/Desc_Table.thy ===== *)
theory Desc_Table
  imports Table_Interface
begin

text \<open>
  The file-descriptor table of \<^verbatim>\<open>src/internal/descriptor/table.go\<close>: a bitmap of 64-bit
  words, an item slot per bit and a lower bound on the first word with a free bit.
  Keys are Go \<^verbatim>\<open>int32\<close> values, so the key arithmetic of \<open>Insert\<close> wraps and indexing with
  a negative key panics. \<open>z\<close> is the zero value of the item type. Shown: the
  representation invariant, that the operations implement a finite map, that \<open>Insert\<close>
  takes the lowest free key, and what the iteration visits.
\<close>

section \<open>State and operations\<close>

datatype dt_panic = Index_out_of_range | Slice_bounds

record 'a dtable =
  masks :: "u64 list"
  items :: "'a list"
  nextFree :: nat

definition empty_table :: "'a dtable" where
  "empty_table = \<lparr>masks = [], items = [], nextFree = 0\<rparr>"

definition OnesCount64 :: "u64 \<Rightarrow> nat" where
  "OnesCount64 x = length (filter (bit x) [0..<64])"

definition TrailingZeros64 :: "u64 \<Rightarrow> nat" where
  "TrailingZeros64 x = length (takeWhile (\<lambda>i. \<not> bit x i) [0..<64])"

definition Len :: "'a dtable \<Rightarrow> nat" where
  "Len t = foldl (\<lambda>n msk. n + OnesCount64 msk) 0 (masks t)"

definition grow :: "'a \<Rightarrow> nat \<Rightarrow> 'a dtable \<Rightarrow> 'a dtable" where
  "grow z n t = t\<lparr>masks := masks t @ replicate n 0, items := items t @ replicate (n * 64) z\<rparr>"

text \<open>The scan of \<^verbatim>\<open>t.masks[offset:]\<close> for the first word that is not full.\<close>

fun scan :: "u64 list \<Rightarrow> nat \<Rightarrow> nat option" where
  "scan [] i = None"
| "scan (msk # ms) i = (if NOT msk \<noteq> 0 then Some i else scan ms (Suc i))"

definition insert_slot :: "'a \<Rightarrow> nat \<Rightarrow> 'a dtable \<Rightarrow> dt_panic + u32 \<times> bool \<times> 'a dtable" where
  "insert_slot item index t =
     (let msk = masks t ! index;
          shift = TrailingZeros64 (NOT msk);
          key = of_nat index * 64 + of_nat shift :: u32
      in if sint key < 0 \<or> int (length (items t)) \<le> sint key then Inl Index_out_of_range
         else Inr (key, 0 \<le> sint key,
           t\<lparr>items := (items t)[nat (sint key) := item],
             masks := (masks t)[index := msk OR push_bit shift 1],
             nextFree := index\<rparr>))"

lemma scan_None: "scan ms i = None \<longleftrightarrow> (\<forall>m \<in> set ms. m = -1)"
proof (induction ms i rule: scan.induct)
  case (2 m ms i)
  have "NOT m = 0 \<longleftrightarrow> m = -1" by (metis bit.compl_zero bit.double_compl)
  with 2 show ?case by auto
qed simp

function Insert_from :: "'a \<Rightarrow> 'a \<Rightarrow> nat \<Rightarrow> 'a dtable \<Rightarrow> dt_panic + u32 \<times> bool \<times> 'a dtable" where
  "Insert_from z item offset t =
     (if length (masks t) < offset then Inl Slice_bounds
      else case scan (drop offset (masks t)) offset of
        Some index \<Rightarrow> insert_slot item index t
      | None \<Rightarrow> Insert_from z item (length (masks t)) (grow z 1 t))"
  by pat_completeness auto
termination
proof (relation "measure (\<lambda>(z, item, offset, t). if scan (drop offset (masks t)) offset = None then 1 else 0)")
  fix z item :: 'a and offset and t :: "'a dtable"
  assume "scan (drop offset (masks t)) offset = None"
  moreover have "scan (drop (length (masks t)) (masks (grow z 1 t))) (length (masks t)) \<noteq> None"
    by (simp add: grow_def)
  ultimately show "((z, item, length (masks t), grow z 1 t), z, item, offset, t)
      \<in> measure (\<lambda>(z, item, offset, t). if scan (drop offset (masks t)) offset = None then 1 else 0)"
    by simp
qed simp

declare Insert_from.simps [simp del]

definition Insert :: "'a \<Rightarrow> 'a \<Rightarrow> 'a dtable \<Rightarrow> dt_panic + u32 \<times> bool \<times> 'a dtable" where
  "Insert z item t = Insert_from z item (nextFree t) t"

definition Lookup :: "'a \<Rightarrow> 'a dtable \<Rightarrow> u32 \<Rightarrow> 'a \<times> bool" where
  "Lookup z t key =
     (if sint key < 0 then (z, False)
      else let i = nat (sint key) in
        if i < length (items t) \<and> bit (masks t ! (i div 64)) (i mod 64)
        then (items t ! i, True) else (z, False))"

definition InsertAt :: "'a \<Rightarrow> 'a \<Rightarrow> u32 \<Rightarrow> 'a dtable \<Rightarrow> bool \<times> 'a dtable" where
  "InsertAt z item key t =
     (if sint key < 0 then (False, t)
      else let i = nat (sint key); index = i div 64; shift = i mod 64;
               t = (if length (masks t) < index + 1 then grow z (index + 1 - length (masks t)) t else t)
        in (True, t\<lparr>masks := (masks t)[index := masks t ! index OR push_bit shift 1],
                     items := (items t)[i := item]\<rparr>))"

definition Delete :: "'a \<Rightarrow> u32 \<Rightarrow> 'a dtable \<Rightarrow> 'a dtable" where
  "Delete z key t =
     (if sint key < 0 then t
      else let i = nat (sint key); index = i div 64; shift = i mod 64 in
        if index < length (masks t) then
          let msk = masks t ! index in
          if bit msk shift then
            t\<lparr>items := (items t)[i := z],
              masks := (masks t)[index := msk AND NOT (push_bit shift 1)],
              nextFree := (if index < nextFree t then index else nextFree t)\<rparr>
          else t
        else t)"

text \<open>
  The iteration threads the state of the callback \<open>f\<close>, which answers whether to go on;
  \<open>f\<close> does not change the table.
\<close>

fun Range_bits :: "('s \<Rightarrow> u32 \<Rightarrow> 'a \<Rightarrow> bool \<times> 's) \<Rightarrow> 'a list \<Rightarrow> nat \<Rightarrow> u64 \<Rightarrow> nat list \<Rightarrow> 's \<Rightarrow> bool \<times> 's" where
  "Range_bits f its i msk [] s = (True, s)"
| "Range_bits f its i msk (j # js) s =
     (if \<not> bit msk j then Range_bits f its i msk js s
      else let key = of_nat i * 64 + of_nat j :: u32; (go, s') = f s key (its ! nat (sint key))
           in if go then Range_bits f its i msk js s' else (False, s'))"

fun Range_words :: "('s \<Rightarrow> u32 \<Rightarrow> 'a \<Rightarrow> bool \<times> 's) \<Rightarrow> 'a list \<Rightarrow> nat \<Rightarrow> u64 list \<Rightarrow> 's \<Rightarrow> 's" where
  "Range_words f its i [] s = s"
| "Range_words f its i (msk # ms) s =
     (if msk = 0 then Range_words f its (Suc i) ms s
      else let (go, s') = Range_bits f its i msk [0..<64] s
           in if go then Range_words f its (Suc i) ms s' else s')"

definition Range_dt :: "('s \<Rightarrow> u32 \<Rightarrow> 'a \<Rightarrow> bool \<times> 's) \<Rightarrow> 'a dtable \<Rightarrow> 's \<Rightarrow> 's" where
  "Range_dt f t s = Range_words f (items t) 0 (masks t) s"

definition Reset :: "'a \<Rightarrow> 'a dtable \<Rightarrow> 'a dtable" where
  "Reset z t = t\<lparr>masks := map (\<lambda>_. 0) (masks t), items := map (\<lambda>_. z) (items t), nextFree := 0\<rparr>"

section \<open>Invariant and abstraction\<close>

definition used :: "'a dtable \<Rightarrow> nat \<Rightarrow> bool" where
  "used t k = (k div 64 < length (masks t) \<and> bit (masks t ! (k div 64)) (k mod 64))"

definition dt_view :: "'a dtable \<Rightarrow> nat \<Rightarrow> 'a option" where
  "dt_view t k = (if used t k then Some (items t ! k) else None)"

definition dt_inv :: "'a \<Rightarrow> 'a dtable \<Rightarrow> bool" where
  "dt_inv z t \<longleftrightarrow>
     length (items t) = 64 * length (masks t) \<and> length (masks t) \<le> 2 ^ 25 \<and>
     nextFree t \<le> length (masks t) \<and> (\<forall>i < nextFree t. masks t ! i = -1) \<and>
     (\<forall>k < length (items t). \<not> used t k \<longrightarrow> items t ! k = z)"

lemma dt_inv_empty: "dt_inv z empty_table"
  by (simp add: dt_inv_def empty_table_def)

lemma used_grow [simp]: "used (grow z n t) k = used t k"
  by (auto simp: used_def grow_def nth_append)

lemma grow_simps [simp]:
  "masks (grow z n t) = masks t @ replicate n 0"
  "items (grow z n t) = items t @ replicate (n * 64) z"
  "nextFree (grow z n t) = nextFree t"
  by (simp_all add: grow_def)

text \<open>The invariant without its bound on the table size, which \<open>Insert\<close> suspends while it grows.\<close>

definition dt_wf :: "'a \<Rightarrow> 'a dtable \<Rightarrow> bool" where
  "dt_wf z t \<longleftrightarrow>
     length (items t) = 64 * length (masks t) \<and>
     nextFree t \<le> length (masks t) \<and> (\<forall>i < nextFree t. masks t ! i = -1) \<and>
     (\<forall>k < length (items t). \<not> used t k \<longrightarrow> items t ! k = z)"

lemma dt_inv_wf: "dt_inv z t \<longleftrightarrow> dt_wf z t \<and> length (masks t) \<le> 2 ^ 25"
  by (auto simp: dt_inv_def dt_wf_def)

lemma dt_wf_grow: "dt_wf z t \<Longrightarrow> dt_wf z (grow z n t)"
  by (auto simp: dt_wf_def nth_append)

lemma dt_view_grow [simp]: "dt_wf z t \<Longrightarrow> dt_view (grow z n t) = dt_view t"
  by (rule ext) (auto simp: dt_view_def nth_append dt_wf_def used_def)

lemma used_bound: "dt_wf z t \<Longrightarrow> used t k \<Longrightarrow> k < length (items t)"
  unfolding used_def dt_wf_def by linarith

section \<open>Bit scans\<close>

lemma TrailingZeros64:
  assumes "x \<noteq> 0"
  shows "TrailingZeros64 x < 64 \<and> bit x (TrailingZeros64 x) \<and> (\<forall>j < TrailingZeros64 x. \<not> bit x j)"
proof -
  let ?P = "\<lambda>i. \<not> bit x i"
  obtain n where "bit x n" using assms by (metis bit_0_eq bit_eq_iff bot_apply bot_bool_def)
  then have "n \<in> set [0..<64]" "\<not> ?P n" using bit_imp_le_length [of x n] by auto
  then have lt: "length (takeWhile ?P [0..<64]) < length [0..<(64::nat)]"
    by (metis length_takeWhile_le nat_less_le set_takeWhileD takeWhile_eq_all_conv takeWhile_eq_take take_all order_refl)
  from nth_length_takeWhile [OF this] lt have "bit x (TrailingZeros64 x)" by (simp add: TrailingZeros64_def)
  moreover have "\<not> bit x j" if "j < TrailingZeros64 x" for j
  proof -
    have "takeWhile ?P [0..<64] ! j = j" using that lt
      by (simp add: TrailingZeros64_def takeWhile_nth)
    then show ?thesis using that nth_mem [of j "takeWhile ?P [0..<64]"] set_takeWhileD
      by (fastforce simp: TrailingZeros64_def)
  qed
  ultimately show ?thesis using lt by (simp add: TrailingZeros64_def)
qed

lemma TrailingZeros64_not:
  assumes "m \<noteq> -1"
  shows "TrailingZeros64 (NOT m) < 64" "\<not> bit m (TrailingZeros64 (NOT m))"
    "j < TrailingZeros64 (NOT m) \<Longrightarrow> bit m j"
proof -
  have "NOT m \<noteq> 0" using assms by (metis bit.compl_zero bit.double_compl)
  note tz = TrailingZeros64 [OF this]
  then show "TrailingZeros64 (NOT m) < 64" "\<not> bit m (TrailingZeros64 (NOT m))" by (auto simp: bit_simps)
  show "j < TrailingZeros64 (NOT m) \<Longrightarrow> bit m j" using tz by (auto simp: bit_simps)
qed

lemma scan_Some:
  "scan ms i = Some k \<Longrightarrow> i \<le> k \<and> k < i + length ms \<and> ms ! (k - i) \<noteq> -1 \<and> (\<forall>j < k - i. ms ! j = -1)"
proof (induction ms i rule: scan.induct)
  case (2 m ms i)
  show ?case
  proof (cases "NOT m = 0")
    case True
    then have m: "m = -1" by (metis bit.compl_zero bit.double_compl)
    from 2 True have "Suc i \<le> k \<and> k < Suc i + length ms \<and> ms ! (k - Suc i) \<noteq> -1 \<and> (\<forall>j < k - Suc i. ms ! j = -1)" by simp
    with m show ?thesis by (auto simp: nth_Cons' less_diff_conv2)
  next
    case False
    with 2 show ?thesis by auto
  qed
qed simp

lemma used_set:
  assumes "i < length (masks t)" "s < 64"
  shows "used (t\<lparr>items := its, masks := (masks t)[i := masks t ! i OR push_bit s 1], nextFree := n\<rparr>) k \<longleftrightarrow>
    used t k \<or> k = 64 * i + s"
proof -
  have "bit (push_bit s (1::u64)) j \<longleftrightarrow> j = s" if "j < 64" for j
    using that assms(2) by (auto simp: bit_simps)
  moreover have "k = 64 * i + s \<longleftrightarrow> k div 64 = i \<and> k mod 64 = s" using assms(2) by auto
  ultimately show ?thesis using assms(1) by (auto simp: used_def nth_list_update bit_or_iff)
qed

lemma used_clear:
  assumes "i < length (masks t)" "s < 64"
  shows "used (t\<lparr>items := its, masks := (masks t)[i := masks t ! i AND NOT (push_bit s 1)], nextFree := n\<rparr>) k \<longleftrightarrow>
    used t k \<and> k \<noteq> 64 * i + s"
proof -
  have "bit (push_bit s (1::u64)) j \<longleftrightarrow> j = s" if "j < 64" for j
    using that assms(2) by (auto simp: bit_simps)
  moreover have "k = 64 * i + s \<longleftrightarrow> k div 64 = i \<and> k mod 64 = s" using assms(2) by auto
  ultimately show ?thesis using assms(1) by (auto simp: used_def nth_list_update bit_and_iff bit_not_iff)
qed

lemma full_word: "i < length (masks t) \<Longrightarrow> masks t ! i = -1 \<longleftrightarrow> (\<forall>j < 64. used t (64 * i + j))"
proof -
  assume i: "i < length (masks t)"
  have "masks t ! i = -1 \<longleftrightarrow> (\<forall>j < 64. bit (masks t ! i) j)"
    using bit_eq_iff [of "masks t ! i" "-1"] by (auto simp: bit_minus_1_iff)
  then show ?thesis using i by (simp add: used_def)
qed

section \<open>The operations on the abstract map\<close>

lemma full_below:
  assumes "\<forall>j < i. masks t ! j = -1" "i \<le> length (masks t)" "k < 64 * i"
  shows "used t k"
proof -
  have "k div 64 < i" using assms(3) by linarith
  then have "masks t ! (k div 64) = -1" "k div 64 < length (masks t)" using assms by auto
  then show ?thesis by (simp add: used_def)
qed

lemma sint_of_int_in_range:
  "- (2 ^ 31) \<le> n \<Longrightarrow> n < 2 ^ 31 \<Longrightarrow> sint (word_of_int n :: u32) = n"
  unfolding sint_sbintrunc' by (intro signed_take_bit_int_eq_self) auto

lemma key_value:
  assumes "i < 2 ^ 25" "s < 64"
  shows "sint (of_nat i * 64 + of_nat s :: u32) = int (64 * i + s)"
proof -
  have "(of_nat i * 64 + of_nat s :: u32) = word_of_int (int (64 * i + s))" by simp
  also have "sint \<dots> = int (64 * i + s)" using assms by (intro sint_of_int_in_range) auto
  finally show ?thesis .
qed

lemma key_overflow:
  assumes "s < 64"
  shows "sint (of_nat (2 ^ 25) * 64 + of_nat s :: u32) < 0"
proof -
  have "(of_nat (2 ^ 25) * 64 + of_nat s :: u32) = word_of_int (int s - 2 ^ 31)"
    unfolding wi_hom_syms by simp
  also have "sint \<dots> = int s - 2 ^ 31" using assms by (intro sint_of_int_in_range) auto
  finally show ?thesis using assms by simp
qed

lemma insert_slot_spec:
  assumes wf: "dt_wf z t" and i: "i < length (masks t)" "masks t ! i \<noteq> -1" "\<forall>j < i. masks t ! j = -1"
  defines "s \<equiv> TrailingZeros64 (NOT (masks t ! i))"
  defines "k \<equiv> 64 * i + s"
  shows "\<not> used t k" "\<forall>j < k. used t j"
    and "i = 2 ^ 25 \<Longrightarrow> insert_slot x i t = Inl Index_out_of_range"
    and "i < 2 ^ 25 \<Longrightarrow> \<exists>t'. insert_slot x i t = Inr (of_nat k, True, t') \<and>
           dt_view t' = (dt_view t)(k \<mapsto> x) \<and> dt_wf z t' \<and> length (masks t') = length (masks t)"
proof -
  note tz = TrailingZeros64_not [OF i(2), folded s_def]
  have k: "k div 64 = i" "k mod 64 = s" using tz(1) by (auto simp: k_def)
  show "\<not> used t k" using tz(2) by (simp add: used_def k)
  show "\<forall>j < k. used t j"
  proof (intro allI impI)
    fix j assume "j < k"
    then consider "j < 64 * i" | "j div 64 = i" "j mod 64 < s"
    proof (cases "j < 64 * i")
      case False
      then obtain d where "j = 64 * i + d" by (metis le_Suc_ex not_less)
      with \<open>j < k\<close> tz(1) that(2) show ?thesis by (simp add: k_def)
    qed (rule that(1))
    then show "used t j"
    proof cases
      case 1
      with i show ?thesis by (auto intro: full_below)
    next
      case 2
      with i(1) tz(3) show ?thesis by (simp add: used_def)
    qed
  qed
  show "i = 2 ^ 25 \<Longrightarrow> insert_slot x i t = Inl Index_out_of_range"
    using key_overflow [OF tz(1)] by (simp add: insert_slot_def Let_def s_def)
  assume "i < 2 ^ 25"
  note key = key_value [OF this tz(1), folded k_def]
  have kl: "k < length (items t)" using wf i(1) tz(1) unfolding dt_wf_def k_def by linarith
  define t' where "t' = t\<lparr>items := (items t)[k := x], masks := (masks t)[i := masks t ! i OR push_bit s 1], nextFree := i\<rparr>"
  have used': "used t' j \<longleftrightarrow> used t j \<or> j = k" for j
    unfolding t'_def k_def using used_set [OF i(1) tz(1)] .
  have "insert_slot x i t = Inr (of_nat k, True, t')"
  proof -
    have "nat (64 * int i + int s) = k" by (simp add: k_def nat_eq_iff)
    with key kl show ?thesis by (simp add: insert_slot_def Let_def t'_def k_def flip: s_def)
  qed
  moreover have "dt_view t' = (dt_view t)(k \<mapsto> x)"
    using kl by (auto simp: fun_eq_iff dt_view_def used') (auto simp: t'_def)
  moreover have "dt_wf z t'" using wf i
    by (auto simp: dt_wf_def used') (auto simp: t'_def nth_list_update)
  moreover have "length (masks t') = length (masks t)" by (simp add: t'_def)
  ultimately show "\<exists>t'. insert_slot x i t = Inr (of_nat k, True, t') \<and>
           dt_view t' = (dt_view t)(k \<mapsto> x) \<and> dt_wf z t' \<and> length (masks t') = length (masks t)" by blast
qed

lemma Insert_spec:
  assumes inv: "dt_inv z t"
  shows "(\<forall>k < 2 ^ 31. used t k) \<and> Insert z x t = Inl Index_out_of_range \<or>
    (\<exists>k t'. k < 2 ^ 31 \<and> \<not> used t k \<and> (\<forall>j < k. used t j) \<and>
       Insert z x t = Inr (of_nat k, True, t') \<and> dt_view t' = (dt_view t)(k \<mapsto> x) \<and> dt_inv z t')"
proof -
  have wf: "dt_wf z t" and len: "length (masks t) \<le> 2 ^ 25" using inv by (auto simp: dt_inv_wf)
  have nf: "nextFree t \<le> length (masks t)" "\<forall>i < nextFree t. masks t ! i = -1"
    using wf by (auto simp: dt_wf_def)
  show ?thesis
  proof (cases "scan (drop (nextFree t) (masks t)) (nextFree t)")
    case (Some i)
    note sc = scan_Some [OF Some]
    then have i: "i < length (masks t)" "masks t ! i \<noteq> -1" using nf(1) by auto
    have below: "\<forall>j < i. masks t ! j = -1"
    proof (intro allI impI)
      fix j assume "j < i"
      show "masks t ! j = -1"
      proof (cases "j < nextFree t")
        case False
        then show ?thesis using sc \<open>j < i\<close> nf(1)
          by (metis (no_types, lifting) diff_less_mono le_add_diff_inverse not_less nth_drop)
      qed (use nf(2) in simp)
    qed
    define k where "k = 64 * i + TrailingZeros64 (NOT (masks t ! i))"
    have "Insert z x t = insert_slot x i t"
      using nf(1) Some by (simp add: Insert_def Insert_from.simps [of z x "nextFree t"])
    moreover note sl = insert_slot_spec [OF wf i below, folded k_def]
    moreover have "k < 2 ^ 31" using TrailingZeros64_not(1) [OF i(2)] i(1) len unfolding k_def by simp
    moreover have "i < 2 ^ 25" using i(1) len by simp
    ultimately show ?thesis unfolding dt_inv_wf using len by metis
  next
    case None
    let ?n = "length (masks t)" and ?t = "grow z 1 t"
    have full: "\<forall>j < ?n. masks t ! j = -1"
    proof (intro allI impI)
      fix j assume j: "j < ?n"
      show "masks t ! j = -1"
      proof (cases "j < nextFree t")
        case False
        then have "masks t ! j \<in> set (drop (nextFree t) (masks t))"
          using j nth_mem [of "j - nextFree t" "drop (nextFree t) (masks t)"] by simp
        then show ?thesis using None by (simp add: scan_None)
      qed (use nf(2) in simp)
    qed
    have i: "?n < length (masks ?t)" "masks ?t ! ?n \<noteq> -1" "\<forall>j < ?n. masks ?t ! j = -1"
      using full by (auto simp: nth_append)
    define k where "k = 64 * ?n + TrailingZeros64 (NOT (masks ?t ! ?n))"
    note sl = insert_slot_spec [OF dt_wf_grow [OF wf, of 1] i, folded k_def]
    have ins: "Insert z x t = insert_slot x ?n ?t"
      using nf(1) None by (simp add: Insert_def Insert_from.simps [of z x "nextFree t"] Insert_from.simps [of z x ?n])
    show ?thesis
    proof (cases "?n = 2 ^ 25")
      case True
      have "\<forall>k < 2 ^ 31. used t k" using full_below [OF full] True by simp
      with sl(3) True ins show ?thesis by simp
    next
      case False
      with len have n: "?n < 2 ^ 25" by simp
      from sl(4) [OF n, of x] obtain t' where t': "insert_slot x ?n ?t = Inr (of_nat k, True, t')"
        "dt_view t' = (dt_view t)(k \<mapsto> x)" "dt_wf z t'" "length (masks t') = ?n + 1"
        using wf by auto
      have "k < 2 ^ 31" using TrailingZeros64_not(1) [OF i(2)] n unfolding k_def by simp
      with sl(1,2) t' n ins show ?thesis unfolding dt_inv_wf used_grow by (metis Suc_eq_plus1 Suc_leI)
    qed
  qed
qed

lemma Delete_spec:
  assumes inv: "dt_inv z t" and key: "0 \<le> sint key"
  shows "dt_view (Delete z key t) = (dt_view t)(nat (sint key) := None) \<and> dt_inv z (Delete z key t)"
proof (cases "used t (nat (sint key))")
  case False
  then have "Delete z key t = t" using key by (auto simp: Delete_def Let_def used_def)
  with False inv show ?thesis by (auto simp: dt_view_def fun_eq_iff)
next
  case True
  define k where "k = nat (sint key)"
  define i where "i = k div 64"
  define s where "s = k mod 64"
  have i: "i < length (masks t)" "bit (masks t ! i) s" and s: "s < 64" and k: "k = 64 * i + s"
    using True by (auto simp: used_def i_def s_def k_def)
  define t' where "t' = t\<lparr>items := (items t)[k := z], masks := (masks t)[i := masks t ! i AND NOT (push_bit s 1)],
     nextFree := (if i < nextFree t then i else nextFree t)\<rparr>"
  have d: "Delete z key t = t'"
    using key i unfolding i_def s_def k_def by (simp add: Delete_def Let_def t'_def i_def s_def k_def)
  have used': "used t' j \<longleftrightarrow> used t j \<and> j \<noteq> k" for j unfolding t'_def k using used_clear [OF i(1) s] .
  have kl: "k < length (items t)" using inv True used_bound by (auto simp: dt_inv_wf k_def)
  have "dt_view t' = (dt_view t)(k := None)"
    by (auto simp: fun_eq_iff dt_view_def used') (auto simp: t'_def)
  moreover have "dt_wf z t'" using inv i kl unfolding dt_inv_wf
    by (auto simp: dt_wf_def used') (auto simp: t'_def nth_list_update split: if_splits)
  moreover have "length (masks t') = length (masks t)" by (simp add: t'_def)
  ultimately show ?thesis using inv d by (simp add: dt_inv_wf k_def)
qed

lemma InsertAt_spec:
  assumes inv: "dt_inv z t" and key: "0 \<le> sint key" and r: "InsertAt z x key t = (ok, t')"
  shows "ok \<and> dt_view t' = (dt_view t)(nat (sint key) \<mapsto> x) \<and> dt_inv z t'"
proof -
  define k where "k = nat (sint key)"
  define i where "i = k div 64"
  define s where "s = k mod 64"
  have s: "s < 64" and k: "k = 64 * i + s" by (auto simp: i_def s_def)
  have "sint key < 2 ^ 31" using sint_bounds(2) [of key] by simp
  then have "k < 64 * 2 ^ 25" using key by (simp add: k_def nat_less_iff)
  then have i25: "i < 2 ^ 25" unfolding i_def by (simp add: less_mult_imp_div_less mult.commute)
  define t1 where "t1 = (if length (masks t) < i + 1 then grow z (i + 1 - length (masks t)) t else t)"
  have wf1: "dt_wf z t1" and v1: "dt_view t1 = dt_view t" and i1: "i < length (masks t1)"
    and len1: "length (masks t1) \<le> 2 ^ 25"
    using inv i25 by (auto simp: t1_def dt_inv_wf dt_wf_grow)
  define t2 where "t2 = t1\<lparr>items := (items t1)[k := x], masks := (masks t1)[i := masks t1 ! i OR push_bit s 1], nextFree := nextFree t1\<rparr>"
  have t': "ok" "t' = t2" using r key unfolding InsertAt_def Let_def
    by (auto simp: t2_def t1_def i_def s_def k_def)
  have used': "used t2 j \<longleftrightarrow> used t1 j \<or> j = k" for j unfolding t2_def k using used_set [OF i1 s] .
  have kl: "k < length (items t1)" using wf1 i1 s unfolding dt_wf_def k by linarith
  have "dt_view t2 = (dt_view t1)(k \<mapsto> x)"
    using kl by (auto simp: fun_eq_iff dt_view_def used') (auto simp: t2_def)
  moreover have "dt_wf z t2" using wf1 i1
    by (auto simp: dt_wf_def used') (auto simp: t2_def nth_list_update)
  moreover have "length (masks t2) = length (masks t1)" by (simp add: t2_def)
  ultimately show ?thesis using t' v1 len1 by (simp add: dt_inv_wf k_def)
qed

lemma Lookup_spec:
  assumes "dt_inv z t"
  shows "Lookup z t key =
    (case (if 0 \<le> sint key then dt_view t (nat (sint key)) else None) of
       Some x \<Rightarrow> (x, True) | None \<Rightarrow> (z, False))"
proof -
  have "k < length (items t) \<longleftrightarrow> k div 64 < length (masks t)" for k
    using assms unfolding dt_inv_def by (metis div_less_iff_less_mult mult.commute zero_less_numeral)
  then show ?thesis by (auto simp: Lookup_def Let_def dt_view_def used_def)
qed

lemma Reset_spec: "dt_inv z t \<Longrightarrow> dt_inv z (Reset z t) \<and> dt_view (Reset z t) = Map.empty"
  by (auto simp: dt_inv_def Reset_def dt_view_def used_def fun_eq_iff)

section \<open>Iteration and size\<close>

text \<open>The live keys in ascending order, and a visit of them that the callback may stop.\<close>

definition live_keys :: "'a dtable \<Rightarrow> nat list" where
  "live_keys t = filter (used t) [0..<64 * length (masks t)]"

fun visit :: "('s \<Rightarrow> u32 \<Rightarrow> 'a \<Rightarrow> bool \<times> 's) \<Rightarrow> 'a list \<Rightarrow> nat list \<Rightarrow> 's \<Rightarrow> bool \<times> 's" where
  "visit f its [] s = (True, s)"
| "visit f its (k # ks) s =
     (let (go, s') = f s (of_nat k) (its ! k) in if go then visit f its ks s' else (False, s'))"

lemma visit_append:
  "visit f its (xs @ ys) s =
     (let (go, s') = visit f its xs s in if go then visit f its ys s' else (False, s'))"
  by (induction xs arbitrary: s) (auto simp: Let_def split: prod.splits)

definition word_keys :: "nat \<Rightarrow> u64 \<Rightarrow> nat list" where
  "word_keys i m = map (\<lambda>j. 64 * i + j) (filter (bit m) [0..<64])"

fun words_keys :: "nat \<Rightarrow> u64 list \<Rightarrow> nat list" where
  "words_keys i [] = []"
| "words_keys i (m # ms) = word_keys i m @ words_keys (Suc i) ms"

lemma words_keys_append: "words_keys i (xs @ ys) = words_keys i xs @ words_keys (i + length xs) ys"
  by (induction xs arbitrary: i) auto

lemma filter_used_snoc:
  "n \<le> length (masks t) \<Longrightarrow> filter (used t) [0..<64 * n] = words_keys 0 (take n (masks t))"
proof (induction n)
  case (Suc n)
  then have n: "n < length (masks t)" by simp
  have "filter (used t) [64 * n..<64 * n + 64] = word_keys n (masks t ! n)"
  proof -
    have "[64 * n..<64 * n + 64] = map (\<lambda>j. 64 * n + j) [0..<64]"
      using map_add_upt [of "64 * n" 64] by (simp add: add.commute)
    moreover have "filter (\<lambda>j. used t (64 * n + j)) [0..<64] = filter (bit (masks t ! n)) [0..<64]"
      using n by (intro filter_cong) (auto simp: used_def)
    ultimately show ?thesis by (simp only: word_keys_def filter_map comp_def)
  qed
  moreover have "[0..<64 * Suc n] = [0..<64 * n] @ [64 * n..<64 * n + 64]"
    using upt_add_eq_append [of 0 "64 * n" 64] by (simp add: algebra_simps)
  ultimately show ?case using Suc n by (simp add: take_Suc_conv_app_nth words_keys_append)
qed simp

lemma live_keys_words: "live_keys t = words_keys 0 (masks t)"
  using filter_used_snoc [of "length (masks t)" t] by (simp add: live_keys_def)

lemma Range_bits_visit:
  assumes "i < 2 ^ 25" "set js \<subseteq> {..<64}"
  shows "Range_bits f its i m js s = visit f its (map (\<lambda>j. 64 * i + j) (filter (bit m) js)) s"
  using assms(2)
proof (induction js arbitrary: s)
  case (Cons j js)
  have "of_nat i * 64 + of_nat j = (of_nat (64 * i + j) :: u32)" by (simp add: mult.commute)
  moreover have "nat (sint (of_nat i * 64 + of_nat j :: u32)) = 64 * i + j"
    using key_value [OF assms(1), of j] Cons.prems by (simp add: nat_eq_iff)
  ultimately show ?case using Cons by (auto simp: Let_def mult.commute split: prod.splits)
qed simp

lemma Range_words_visit:
  "i + length ms \<le> 2 ^ 25 \<Longrightarrow> Range_words f its i ms s = snd (visit f its (words_keys i ms) s)"
proof (induction ms arbitrary: i s)
  case (Cons m ms)
  have "word_keys i 0 = []" by (simp add: word_keys_def)
  moreover have "Range_bits f its i m [0..<64] s = visit f its (word_keys i m) s"
    unfolding word_keys_def using Cons.prems by (intro Range_bits_visit) auto
  ultimately show ?case using Cons by (auto simp: visit_append split: prod.splits)
qed simp

lemma Range_visit: "dt_inv z t \<Longrightarrow> Range_dt f t s = snd (visit f (items t) (live_keys t) s)"
  by (simp add: Range_dt_def live_keys_words Range_words_visit dt_inv_def)

lemma Len_words: "foldl (\<lambda>n m. n + OnesCount64 m) a ms = a + length (words_keys i ms)"
proof (induction ms arbitrary: a i)
  case (Cons m ms)
  show ?case using Cons [of "a + OnesCount64 m" "Suc i"] by (simp add: OnesCount64_def word_keys_def)
qed simp

lemma Len_card: "dt_inv z t \<Longrightarrow> Len t = card (dom (dt_view t))"
proof -
  assume inv: "dt_inv z t"
  have "dom (dt_view t) = set (live_keys t)"
    using inv used_bound [of z t] by (auto simp: live_keys_def dt_view_def dt_inv_wf dt_wf_def dom_def)
  moreover have "distinct (live_keys t)" by (simp add: live_keys_def)
  ultimately show ?thesis unfolding Len_def using Len_words [of 0 "masks t" 0]
    by (simp add: distinct_card live_keys_words)
qed

section \<open>The table implements the shared contract\<close>

definition dt_alloc :: "'a \<Rightarrow> 'a dtable \<Rightarrow> 'a \<Rightarrow> (nat \<times> 'a dtable) option" where
  "dt_alloc z t x = (case Insert z x t of Inl _ \<Rightarrow> None | Inr (key, ok, t') \<Rightarrow> Some (unat key, t'))"

definition dt_release :: "'a \<Rightarrow> 'a dtable \<Rightarrow> nat \<Rightarrow> 'a dtable" where
  "dt_release z t k = (if k < 2 ^ 31 then Delete z (of_nat k) t else t)"

lemma sint_of_nat_key: "k < 2 ^ 31 \<Longrightarrow> sint (of_nat k :: u32) = int k"
  using sint_of_int_in_range [of "int k"] by simp

lemma dt_alloc_spec:
  assumes "dt_inv z t" and "dt_alloc z t x = Some (k, t')"
  shows "dt_view t k = None \<and> dt_view t' = (dt_view t)(k \<mapsto> x) \<and> dt_inv z t'"
  using Insert_spec [OF assms(1), of x] assms(2)
  by (auto simp: dt_alloc_def dt_view_def unat_of_nat)

lemma dt_release_spec:
  assumes inv: "dt_inv z t"
  shows "dt_view (dt_release z t k) = (dt_view t)(k := None) \<and> dt_inv z (dt_release z t k)"
proof (cases "k < 2 ^ 31")
  case True
  with Delete_spec [OF inv, of "of_nat k"] show ?thesis by (simp add: dt_release_def sint_of_nat_key)
next
  case False
  then have "\<not> used t k" using inv used_bound [of z t k] by (auto simp: dt_inv_wf dt_wf_def)
  with False inv show ?thesis by (auto simp: dt_release_def dt_view_def fun_eq_iff)
qed

interpretation dt: index_table "dt_inv z" dt_view "dt_alloc z" "dt_release z" for z
  by unfold_locales (auto dest: dt_alloc_spec simp: dt_release_spec)

section \<open>Properties\<close>

text \<open>
  \<^verbatim>\<open>Insert\<close> on a well-formed table stores the item under the lowest key that is not in
  use, as POSIX requires of descriptors, changes no other key and keeps the table well
  formed; it panics exactly when all \<open>2 ^ 31\<close> keys are in use.
\<close>

theorem Insert_lowest_free:
  assumes "dt_inv z t"
  shows "case Insert z x t of
      Inl e \<Rightarrow> e = Index_out_of_range \<and> (\<forall>k < 2 ^ 31. dt_view t k \<noteq> None)
    | Inr (key, ok, t') \<Rightarrow> ok \<and> 0 \<le> sint key \<and>
        dt_view t (nat (sint key)) = None \<and> (\<forall>j < nat (sint key). dt_view t j \<noteq> None) \<and>
        dt_view t' = (dt_view t)(nat (sint key) \<mapsto> x) \<and> dt_inv z t'"
  using Insert_spec [OF assms, of x]
  by (auto simp: dt_view_def sint_of_nat_key split: if_splits)

theorem Insert_lowest_free_witness:
  "dt_inv 0 (empty_table :: nat dtable) \<and>
   (case Insert 0 7 (empty_table :: nat dtable) of
      Inl e \<Rightarrow> e = Index_out_of_range \<and> (\<forall>k < 2 ^ 31. dt_view (empty_table :: nat dtable) k \<noteq> None)
    | Inr (key, ok, t') \<Rightarrow> ok \<and> 0 \<le> sint key \<and>
        dt_view (empty_table :: nat dtable) (nat (sint key)) = None \<and>
        (\<forall>j < nat (sint key). dt_view (empty_table :: nat dtable) j \<noteq> None) \<and>
        dt_view t' = (dt_view empty_table)(nat (sint key) \<mapsto> 7) \<and> dt_inv 0 t')"
  by (intro conjI dt_inv_empty Insert_lowest_free)



text \<open>
  \<^verbatim>\<open>Range\<close> calls its callback on the live keys in ascending order, each once with its own
  item, until the callback answers false; \<^verbatim>\<open>Len\<close> is the number of live keys.
\<close>

theorem Range_ascending_and_Len:
  assumes "dt_inv z t"
  shows "Range_dt f t s = snd (visit f (items t) (live_keys t) s) \<and>
    sorted (live_keys t) \<and> distinct (live_keys t) \<and> set (live_keys t) = dom (dt_view t) \<and>
    Len t = card (dom (dt_view t))"
proof -
  have "set (live_keys t) = dom (dt_view t)"
    using assms used_bound [of z t] by (auto simp: live_keys_def dt_view_def dt_inv_wf dt_wf_def dom_def)
  moreover have "sorted (live_keys t)" "distinct (live_keys t)"
    by (simp_all add: live_keys_def sorted_wrt_filter)
  ultimately show ?thesis using assms by (simp add: Range_visit Len_card)
qed

theorem Range_ascending_and_Len_witness:
  "Range_dt (\<lambda>s k x. (True, s @ [(k, x)])) (snd (InsertAt 0 9 70 (empty_table :: nat dtable))) [] = [(70, 9)] \<and>
   Len (snd (InsertAt 0 9 70 (empty_table :: nat dtable))) =
     card (dom (dt_view (snd (InsertAt 0 9 70 (empty_table :: nat dtable)))))"
proof -
  let ?t = "snd (InsertAt 0 9 70 (empty_table :: nat dtable))"
  have "dt_inv 0 ?t"
    using InsertAt_spec [OF dt_inv_empty, of 70 0 "9::nat" "fst (InsertAt 0 9 70 (empty_table :: nat dtable))" ?t] by simp
  note r = Range_ascending_and_Len [OF this]
  have "live_keys ?t = [70]" "items ?t ! 70 = 9" by code_simp+
  then show ?thesis using r [of "\<lambda>s k x. (True, s @ [(k, x)])" "[]"] by simp
qed

end
