(* ===== verification/Abi_Types.thy ===== *)
theory Abi_Types
  imports Wazy_Prelude
begin

text \<open>
  The type descriptors of the Component Model (\<^verbatim>\<open>src/internal/component/binary/descriptor.go\<close>)
  and the resolution of type references (\<^verbatim>\<open>resolveType\<close> of
  \<^verbatim>\<open>src/internal/component/abi/layout.go\<close>). Descriptors are not recursive: a child is a
  \<^verbatim>\<open>TypeRef\<close>, a primitive name or an index that the caller's resolver looks up. The type
  graph may therefore be cyclic, and the Go walks over it would not return: every walk of
  the model takes the stack depth it may use and fails with \<open>Stack_overflow\<close> beyond it.
  The locale \<open>type_walk\<close> shows once that a graph of bounded depth never reaches that
  failure and that more depth changes nothing.
\<close>

section \<open>Descriptors\<close>

record type_ref =
  Primitive :: string
  TypeIndex :: "u32 option"

record func_desc =
  Params :: "(string \<times> type_ref) list"
  Unnamed :: "type_ref option"
  Named :: "(string \<times> type_ref) list"
  Async :: bool

text \<open>
  \<^verbatim>\<open>InstanceDesc\<close> and \<^verbatim>\<open>ComponentDesc\<close> carry declarations that the ABI layer never reads, so
  they have no arguments here.
\<close>

datatype type_desc =
    PrimitiveDesc string
  | RecordDesc "(string \<times> type_ref) list"
  | VariantDesc "(string \<times> type_ref option) list"
  | ListDesc type_ref
  | FixedListDesc type_ref u32
  | TupleDesc "type_ref list"
  | MapDesc type_ref type_ref
  | FlagsDesc "string list"
  | EnumDesc "string list"
  | OptionDesc type_ref
  | ResultDesc "type_ref option" "type_ref option"
  | OwnDesc u32
  | BorrowDesc u32
  | StreamDesc "type_ref option"
  | FutureDesc "type_ref option"
  | FuncDesc func_desc
  | InstanceDesc
  | ComponentDesc
  | ResourceDesc type_ref "u32 option"

datatype abi_error =
    Stack_overflow
  | Unsupported_layout
  | Cannot_flatten
  | Unknown_primitive string
  | Nil_reference
  | Needs_resolver u32
  | Index_not_found u32
  | Empty_reference
  | Invalid_flags nat
  | Invalid_enum nat
  | Fixed_list_too_big u32 u32
  | Flat_width_exceeded
  | Invalid_context string

text \<open>A resolver may be nil, and may answer nil for an index it does not know.\<close>

type_synonym resolver = "(u32 \<Rightarrow> type_desc option) option"

section \<open>Resolving references\<close>

definition primDescs :: "string list" where
  "primDescs = [''bool'', ''s8'', ''u8'', ''s16'', ''u16'', ''s32'', ''u32'', ''s64'', ''u64'',
     ''f32'', ''f64'', ''char'', ''string'', ''error-context'']"

definition primDesc :: "string \<Rightarrow> type_desc option" where
  "primDesc name = (if name \<in> set primDescs then Some (PrimitiveDesc name) else None)"

definition resolveType :: "resolver \<Rightarrow> type_ref option \<Rightarrow> abi_error + type_desc" where
  "resolveType resolve ref =
     (case ref of
        None \<Rightarrow> Inl Nil_reference
      | Some tr \<Rightarrow>
          if Primitive tr \<noteq> [] then
            (case primDesc (Primitive tr) of Some d \<Rightarrow> Inr d | None \<Rightarrow> Inr (PrimitiveDesc (Primitive tr)))
          else case TypeIndex tr of
            Some i \<Rightarrow>
              (case resolve of
                 None \<Rightarrow> Inl (Needs_resolver i)
               | Some f \<Rightarrow> (case f i of None \<Rightarrow> Inl (Index_not_found i) | Some t \<Rightarrow> Inr t))
          | None \<Rightarrow> Inl Empty_reference)"

text \<open>References to a primitive and to an index, as a decoder builds them.\<close>

definition prim_ref :: "string \<Rightarrow> type_ref" where
  "prim_ref p = \<lparr>Primitive = p, TypeIndex = None\<rparr>"

definition index_ref :: "u32 \<Rightarrow> type_ref" where
  "index_ref i = \<lparr>Primitive = [], TypeIndex = Some i\<rparr>"

lemma resolveType_prim_ref [simp]: "p \<noteq> [] \<Longrightarrow> resolveType r (Some (prim_ref p)) = Inr (PrimitiveDesc p)"
  by (auto simp: resolveType_def prim_ref_def primDesc_def)

text \<open>The references a descriptor lays out in place, in the order the code visits them.\<close>

fun layout_refs :: "type_desc \<Rightarrow> type_ref list" where
  "layout_refs (RecordDesc fs) = map snd fs"
| "layout_refs (VariantDesc cs) = List.map_filter snd cs"
| "layout_refs (FixedListDesc e n) = [e]"
| "layout_refs (TupleDesc es) = es"
| "layout_refs (OptionDesc e) = [e]"
| "layout_refs (ResultDesc ok er) =
     (case ok of None \<Rightarrow> [] | Some tr \<Rightarrow> [tr]) @ (case er of None \<Rightarrow> [] | Some tr \<Rightarrow> [tr])"
| "layout_refs _ = []"

definition layout_children :: "resolver \<Rightarrow> type_desc \<Rightarrow> type_desc list" where
  "layout_children r t =
     List.map_filter (\<lambda>tr. case resolveType r (Some tr) of Inl _ \<Rightarrow> None | Inr u \<Rightarrow> Some u) (layout_refs t)"

lemma layout_childrenI:
  "tr \<in> set (layout_refs t) \<Longrightarrow> resolveType r (Some tr) = Inr u \<Longrightarrow> u \<in> set (layout_children r t)"
  by (force simp: layout_children_def List.map_filter_def)

text \<open>The graph below \<open>t\<close> has depth at most \<open>n\<close>.\<close>

fun depth_within :: "nat \<Rightarrow> resolver \<Rightarrow> type_desc \<Rightarrow> bool" where
  "depth_within 0 r t = False"
| "depth_within (Suc n) r t = (\<forall>u \<in> set (layout_children r t). depth_within n r u)"

text \<open>\<open>via r al ref\<close> is the pair of calls \<^verbatim>\<open>resolveType\<close> and then \<open>al\<close> that every helper makes.\<close>

definition via :: "resolver \<Rightarrow> (type_desc \<Rightarrow> abi_error + 'a) \<Rightarrow> type_ref option \<Rightarrow> abi_error + 'a" where
  "via r al ref = bindE (resolveType r ref) al"

section \<open>What a walk may use of its children\<close>

lemma resolveType_no_overflow [simp]: "resolveType r tr \<noteq> Inl Stack_overflow"
  by (simp add: resolveType_def split: option.splits)

definition agree :: "resolver \<Rightarrow> type_desc \<Rightarrow> (type_desc \<Rightarrow> abi_error + 'a) \<Rightarrow> (type_desc \<Rightarrow> abi_error + 'a) \<Rightarrow> bool" where
  "agree r t f g = (\<forall>u \<in> set (layout_children r t). f u = g u)"

lemma agreeD:
  "agree r t f g \<Longrightarrow> tr \<in> set (layout_refs t) \<Longrightarrow> resolveType r (Some tr) = Inr u \<Longrightarrow> f u = g u"
  by (auto simp: agree_def dest: layout_childrenI)

lemma via_agree: "agree r t f g \<Longrightarrow> tr \<in> set (layout_refs t) \<Longrightarrow> via r f (Some tr) = via r g (Some tr)"
  by (auto simp: via_def agreeD intro!: bindE_cong)

definition no_overflow :: "resolver \<Rightarrow> type_desc \<Rightarrow> (type_desc \<Rightarrow> abi_error + 'a) \<Rightarrow> bool" where
  "no_overflow r t f = (\<forall>u \<in> set (layout_children r t). f u \<noteq> Inl Stack_overflow)"

lemma no_overflowD:
  "no_overflow r t f \<Longrightarrow> tr \<in> set (layout_refs t) \<Longrightarrow> resolveType r (Some tr) = Inr u \<Longrightarrow> f u \<noteq> Inl Stack_overflow"
  by (auto simp: no_overflow_def dest: layout_childrenI)

lemma via_no_overflow:
  "no_overflow r t f \<Longrightarrow> tr \<in> set (layout_refs t) \<Longrightarrow> via r f (Some tr) \<noteq> Inl Stack_overflow"
  by (auto simp: via_def bindE_eq_Inl no_overflowD)

lemma case_ref [simp]: "(c, Some tr) \<in> set cs \<Longrightarrow> tr \<in> set (List.map_filter snd cs)"
  by (force simp: List.map_filter_def)

lemma field_ref [simp]: "(a, tr) \<in> set fs \<Longrightarrow> tr \<in> snd ` set fs"
  by force

section \<open>Walks over the type graph\<close>

text \<open>
  A walk computes the answer for a node from the answers for its children: \<open>body\<close> is one
  call of the Go function with the calls it makes on children as arguments, those of a
  walk it relies on (\<open>dep\<close>) and its own. \<open>walk n\<close> may use \<open>n\<close> stack frames.
\<close>

locale type_walk =
  fixes dep :: "nat \<Rightarrow> resolver \<Rightarrow> type_desc \<Rightarrow> abi_error + 'd"
    and body :: "resolver \<Rightarrow> (type_desc \<Rightarrow> abi_error + 'd) \<Rightarrow> (type_desc \<Rightarrow> abi_error + 'a) \<Rightarrow>
      type_desc \<Rightarrow> abi_error + 'a"
    and walk :: "nat \<Rightarrow> resolver \<Rightarrow> type_desc \<Rightarrow> abi_error + 'a"
  assumes dep_enough: "depth_within n r t \<Longrightarrow> n \<le> m \<Longrightarrow>
        dep m r t = dep n r t \<and> dep m r t \<noteq> Inl Stack_overflow"
    and walk_Suc: "walk (Suc n) r t = body r (dep n r) (walk n r) t"
    and body_cong: "(\<And>u. u \<in> set (layout_children r t) \<Longrightarrow> d u = d' u \<and> f u = g u) \<Longrightarrow>
        body r d f t = body r d' g t"
    and body_no_overflow:
      "(\<And>u. u \<in> set (layout_children r t) \<Longrightarrow> d u \<noteq> Inl Stack_overflow \<and> f u \<noteq> Inl Stack_overflow) \<Longrightarrow>
         body r d f t \<noteq> Inl Stack_overflow"
begin

lemma enough_stack:
  "depth_within n r t \<Longrightarrow> n \<le> m \<Longrightarrow> walk m r t = walk n r t \<and> walk m r t \<noteq> Inl Stack_overflow"
proof (induction n arbitrary: t m)
  case (Suc n)
  then obtain k where m: "m = Suc k" "n \<le> k" by (metis Suc_le_D Suc_le_mono)
  have ch: "walk k r u = walk n r u \<and> walk k r u \<noteq> Inl Stack_overflow"
    "dep k r u = dep n r u \<and> dep k r u \<noteq> Inl Stack_overflow"
    if "u \<in> set (layout_children r t)" for u
    using Suc.prems(1) that m(2) by (auto intro!: Suc.IH dep_enough)
  have "body r (dep k r) (walk k r) t = body r (dep n r) (walk n r) t"
    by (rule body_cong) (use ch in blast)
  moreover have "body r (dep k r) (walk k r) t \<noteq> Inl Stack_overflow"
    by (rule body_no_overflow) (use ch in blast)
  ultimately show ?case by (simp add: m(1) walk_Suc)
qed simp

end

end
