(* ===== verification/Abi_Layout.thy ===== *)
theory Abi_Layout
  imports Abi_Types
begin

text \<open>
  Memory layout of component values: \<^verbatim>\<open>src/internal/component/abi/layout.go\<close> and the
  fixed-length list cases of \<^verbatim>\<open>fixedlist.go\<close>. Offsets and sizes are Go \<^verbatim>\<open>uint32\<close> values and
  wrap. Each Go function that calls back into \<^verbatim>\<open>Alignment\<close> or \<^verbatim>\<open>Size\<close> takes that call as an
  argument (\<open>al\<close>, \<open>sz\<close>); the two walks tie the knot with a stack depth. The reference
  semantics at the end of the definitions is the Canonical ABI's, over unbounded numbers
  and despecialised types.
\<close>

section \<open>Alignment\<close>

definition Align :: "u32 \<Rightarrow> u32 \<Rightarrow> u32" where
  "Align offset alignment =
     (if alignment = 0 then offset else ((offset + alignment - 1) div alignment) * alignment)"

definition DiscriminantType :: "nat \<Rightarrow> string" where
  "DiscriminantType numCases =
     (if numCases = 0 \<or> numCases > 4294967295 then []
      else if numCases \<le> 2 ^ 8 then ''u8''
      else if numCases \<le> 2 ^ 16 then ''u16''
      else ''u32'')"

definition alignmentPrimitive :: "string \<Rightarrow> abi_error + u32" where
  "alignmentPrimitive prim =
     (if prim \<in> {''bool'', ''s8'', ''u8''} then Inr 1
      else if prim \<in> {''s16'', ''u16''} then Inr 2
      else if prim \<in> {''s32'', ''u32'', ''f32'', ''char''} then Inr 4
      else if prim \<in> {''s64'', ''u64'', ''f64''} then Inr 8
      else if prim = ''string'' then Inr 4
      else if prim = ''error-context'' then Inr 4
      else Inl (Unknown_primitive prim))"

definition sizePrimitive :: "string \<Rightarrow> abi_error + u32" where
  "sizePrimitive prim =
     (if prim \<in> {''bool'', ''s8'', ''u8''} then Inr 1
      else if prim \<in> {''s16'', ''u16''} then Inr 2
      else if prim \<in> {''s32'', ''u32'', ''f32'', ''char''} then Inr 4
      else if prim \<in> {''s64'', ''u64'', ''f64''} then Inr 8
      else if prim = ''string'' then Inr 8
      else if prim = ''error-context'' then Inr 4
      else Inl (Unknown_primitive prim))"

definition MaxCaseAlignment ::
  "resolver \<Rightarrow> (type_desc \<Rightarrow> abi_error + u32) \<Rightarrow> (string \<times> type_ref option) list \<Rightarrow> abi_error + u32" where
  "MaxCaseAlignment r al cases =
     foldE (\<lambda>maxAlign c.
       case snd c of
         None \<Rightarrow> Inr maxAlign
       | Some tr \<Rightarrow> bindE (via r al (Some tr)) (\<lambda>align.
           Inr (if maxAlign < align then align else maxAlign))) 1 cases"

definition alignmentList :: "abi_error + u32" where
  "alignmentList = Inr 4"

definition alignmentRecord ::
  "resolver \<Rightarrow> (type_desc \<Rightarrow> abi_error + u32) \<Rightarrow> (string \<times> type_ref) list \<Rightarrow> abi_error + u32" where
  "alignmentRecord r al fs =
     foldE (\<lambda>maxAlign f. bindE (via r al (Some (snd f))) (\<lambda>align.
       Inr (if maxAlign < align then align else maxAlign))) 1 fs"

definition alignmentVariant ::
  "resolver \<Rightarrow> (type_desc \<Rightarrow> abi_error + u32) \<Rightarrow> (string \<times> type_ref option) list \<Rightarrow> abi_error + u32" where
  "alignmentVariant r al cases =
     bindE (alignmentPrimitive (DiscriminantType (length cases))) (\<lambda>discAlign.
     bindE (MaxCaseAlignment r al cases) (\<lambda>maxCaseAlign.
     Inr (if discAlign < maxCaseAlign then maxCaseAlign else discAlign)))"

definition alignmentTuple ::
  "resolver \<Rightarrow> (type_desc \<Rightarrow> abi_error + u32) \<Rightarrow> type_ref list \<Rightarrow> abi_error + u32" where
  "alignmentTuple r al elems =
     foldE (\<lambda>maxAlign e. bindE (via r al (Some e)) (\<lambda>align.
       Inr (if maxAlign < align then align else maxAlign))) 1 elems"

definition alignmentFlagsNumLabels :: "nat \<Rightarrow> abi_error + u32" where
  "alignmentFlagsNumLabels numLabels =
     (if numLabels = 0 \<or> numLabels > 32 then Inl (Invalid_flags numLabels)
      else if numLabels \<le> 8 then Inr 1
      else if numLabels \<le> 16 then Inr 2
      else Inr 4)"

definition alignmentEnum :: "string list \<Rightarrow> abi_error + u32" where
  "alignmentEnum cases =
     (let discType = DiscriminantType (length cases) in
      if discType = [] then Inl (Invalid_enum (length cases)) else alignmentPrimitive discType)"

text \<open>The discriminant of options and results is a \<^verbatim>\<open>u8\<close>; its alignment cannot fail.\<close>

definition u8_align :: u32 where
  "u8_align = (case alignmentPrimitive ''u8'' of Inr a \<Rightarrow> a | Inl _ \<Rightarrow> 0)"

definition alignmentOption ::
  "resolver \<Rightarrow> (type_desc \<Rightarrow> abi_error + u32) \<Rightarrow> type_ref \<Rightarrow> abi_error + u32" where
  "alignmentOption r al elem =
     bindE (via r al (Some elem)) (\<lambda>elemAlign.
     Inr (if u8_align < elemAlign then elemAlign else u8_align))"

definition alignmentResult ::
  "resolver \<Rightarrow> (type_desc \<Rightarrow> abi_error + u32) \<Rightarrow> type_ref option \<Rightarrow> type_ref option \<Rightarrow> abi_error + u32" where
  "alignmentResult r al ok er =
     bindE (case ok of None \<Rightarrow> Inr 1 | Some tr \<Rightarrow> bindE (via r al (Some tr)) (\<lambda>a. Inr (if 1 < a then a else 1)))
       (\<lambda>maxAlign.
     bindE (case er of None \<Rightarrow> Inr maxAlign
            | Some tr \<Rightarrow> bindE (via r al (Some tr)) (\<lambda>a. Inr (if maxAlign < a then a else maxAlign)))
       (\<lambda>maxAlign. Inr (if u8_align < maxAlign then maxAlign else u8_align)))"

definition alignmentFixedList ::
  "resolver \<Rightarrow> (type_desc \<Rightarrow> abi_error + u32) \<Rightarrow> type_ref \<Rightarrow> abi_error + u32" where
  "alignmentFixedList r al elem = via r al (Some elem)"

definition Alignment_body ::
  "resolver \<Rightarrow> (type_desc \<Rightarrow> abi_error + u32) \<Rightarrow> type_desc \<Rightarrow> abi_error + u32" where
  "Alignment_body r al t =
     (case t of
        PrimitiveDesc p \<Rightarrow> alignmentPrimitive p
      | ListDesc _ \<Rightarrow> alignmentList
      | MapDesc _ _ \<Rightarrow> alignmentList
      | FixedListDesc e n \<Rightarrow> alignmentFixedList r al e
      | RecordDesc fs \<Rightarrow> alignmentRecord r al fs
      | VariantDesc cs \<Rightarrow> alignmentVariant r al cs
      | TupleDesc es \<Rightarrow> alignmentTuple r al es
      | FlagsDesc ns \<Rightarrow> alignmentFlagsNumLabels (length ns)
      | EnumDesc cs \<Rightarrow> alignmentEnum cs
      | OptionDesc e \<Rightarrow> alignmentOption r al e
      | ResultDesc ok er \<Rightarrow> alignmentResult r al ok er
      | OwnDesc _ \<Rightarrow> Inr 4 | BorrowDesc _ \<Rightarrow> Inr 4 | StreamDesc _ \<Rightarrow> Inr 4 | FutureDesc _ \<Rightarrow> Inr 4
      | FuncDesc _ \<Rightarrow> Inl Unsupported_layout | InstanceDesc \<Rightarrow> Inl Unsupported_layout
      | ComponentDesc \<Rightarrow> Inl Unsupported_layout | ResourceDesc _ _ \<Rightarrow> Inl Unsupported_layout)"

fun Alignment :: "nat \<Rightarrow> resolver \<Rightarrow> type_desc \<Rightarrow> abi_error + u32" where
  "Alignment 0 r t = Inl Stack_overflow"
| "Alignment (Suc n) r t = Alignment_body r (Alignment n r) t"

section \<open>Size\<close>

definition maxValueSize :: nat where "maxValueSize = 2 ^ 28 - 1"

definition sizeList :: "abi_error + u32" where
  "sizeList = Inr 8"

definition sizeRecord ::
  "resolver \<Rightarrow> (type_desc \<Rightarrow> abi_error + u32) \<Rightarrow> (type_desc \<Rightarrow> abi_error + u32) \<Rightarrow>
     (string \<times> type_ref) list \<Rightarrow> abi_error + u32" where
  "sizeRecord r al sz fs =
     bindE (foldE (\<lambda>offset f.
         bindE (resolveType r (Some (snd f))) (\<lambda>ft.
         bindE (al ft) (\<lambda>align.
         bindE (sz ft) (\<lambda>size. Inr (Align offset align + size))))) 0 fs) (\<lambda>offset.
     bindE (alignmentRecord r al fs) (\<lambda>recordAlign.
     Inr (Align offset recordAlign)))"

definition sizeTuple ::
  "resolver \<Rightarrow> (type_desc \<Rightarrow> abi_error + u32) \<Rightarrow> (type_desc \<Rightarrow> abi_error + u32) \<Rightarrow>
     type_ref list \<Rightarrow> abi_error + u32" where
  "sizeTuple r al sz elems =
     bindE (foldE (\<lambda>offset e.
         bindE (resolveType r (Some e)) (\<lambda>et.
         bindE (al et) (\<lambda>align.
         bindE (sz et) (\<lambda>size. Inr (Align offset align + size))))) 0 elems) (\<lambda>offset.
     bindE (alignmentTuple r al elems) (\<lambda>tupleAlign.
     Inr (Align offset tupleAlign)))"

definition sizeVariant ::
  "resolver \<Rightarrow> (type_desc \<Rightarrow> abi_error + u32) \<Rightarrow> (type_desc \<Rightarrow> abi_error + u32) \<Rightarrow>
     (string \<times> type_ref option) list \<Rightarrow> abi_error + u32" where
  "sizeVariant r al sz cases =
     bindE (sizePrimitive (DiscriminantType (length cases))) (\<lambda>discSize.
     bindE (MaxCaseAlignment r al cases) (\<lambda>maxCaseAlign.
     let offset = Align discSize maxCaseAlign in
     bindE (foldE (\<lambda>maxCaseSize c.
         case snd c of
           None \<Rightarrow> Inr maxCaseSize
         | Some tr \<Rightarrow> bindE (via r sz (Some tr)) (\<lambda>cSize.
             Inr (if maxCaseSize < cSize then cSize else maxCaseSize))) 0 cases) (\<lambda>maxCaseSize.
     Inr (Align (offset + maxCaseSize) (if maxCaseAlign < discSize then discSize else maxCaseAlign)))))"

definition sizeFlagsNumLabels :: "nat \<Rightarrow> abi_error + u32" where
  "sizeFlagsNumLabels numLabels =
     (if numLabels = 0 \<or> numLabels > 32 then Inl (Invalid_flags numLabels)
      else if numLabels \<le> 8 then Inr 1
      else if numLabels \<le> 16 then Inr 2
      else Inr 4)"

definition sizeEnumNumCases :: "nat \<Rightarrow> abi_error + u32" where
  "sizeEnumNumCases numCases =
     (let discType = DiscriminantType numCases in
      if discType = [] then Inl (Invalid_enum numCases) else sizePrimitive discType)"

definition sizeOption ::
  "resolver \<Rightarrow> (type_desc \<Rightarrow> abi_error + u32) \<Rightarrow> (type_desc \<Rightarrow> abi_error + u32) \<Rightarrow>
     type_ref \<Rightarrow> abi_error + u32" where
  "sizeOption r al sz elem =
     bindE (resolveType r (Some elem)) (\<lambda>elemT.
     bindE (sz elemT) (\<lambda>elemSize.
     bindE (al elemT) (\<lambda>elemAlign.
     Inr (Align (Align 1 elemAlign + elemSize) (max u8_align elemAlign)))))"

definition result_payload ::
  "resolver \<Rightarrow> (type_desc \<Rightarrow> abi_error + u32) \<Rightarrow> (type_desc \<Rightarrow> abi_error + u32) \<Rightarrow>
     type_ref option \<Rightarrow> u32 \<times> u32 \<Rightarrow> abi_error + u32 \<times> u32" where
  "result_payload r al sz tref acc =
     (case tref of
        None \<Rightarrow> Inr acc
      | Some tr \<Rightarrow>
          bindE (resolveType r (Some tr)) (\<lambda>t.
          bindE (sz t) (\<lambda>size.
          bindE (al t) (\<lambda>align.
          Inr (if fst acc < size then size else fst acc, if snd acc < align then align else snd acc)))))"

definition sizeResult ::
  "resolver \<Rightarrow> (type_desc \<Rightarrow> abi_error + u32) \<Rightarrow> (type_desc \<Rightarrow> abi_error + u32) \<Rightarrow>
     type_ref option \<Rightarrow> type_ref option \<Rightarrow> abi_error + u32" where
  "sizeResult r al sz ok er =
     bindE (result_payload r al sz ok (0, 1)) (\<lambda>acc.
     bindE (result_payload r al sz er acc) (\<lambda>(maxPayloadSize, maxPayloadAlign).
     Inr (Align (Align 1 maxPayloadAlign + maxPayloadSize) (max u8_align maxPayloadAlign))))"

definition sizeFixedList ::
  "resolver \<Rightarrow> (type_desc \<Rightarrow> abi_error + u32) \<Rightarrow> type_ref \<Rightarrow> u32 \<Rightarrow> abi_error + u32" where
  "sizeFixedList r sz elem n =
     bindE (via r sz (Some elem)) (\<lambda>size.
     if maxValueSize < unat (ucast size * ucast n :: u64) then Inl (Fixed_list_too_big n size)
     else Inr (size * n))"

definition Size_body ::
  "resolver \<Rightarrow> (type_desc \<Rightarrow> abi_error + u32) \<Rightarrow> (type_desc \<Rightarrow> abi_error + u32) \<Rightarrow>
     type_desc \<Rightarrow> abi_error + u32" where
  "Size_body r al sz t =
     (case t of
        PrimitiveDesc p \<Rightarrow> sizePrimitive p
      | ListDesc _ \<Rightarrow> sizeList
      | MapDesc _ _ \<Rightarrow> sizeList
      | FixedListDesc e n \<Rightarrow> sizeFixedList r sz e n
      | RecordDesc fs \<Rightarrow> sizeRecord r al sz fs
      | VariantDesc cs \<Rightarrow> sizeVariant r al sz cs
      | TupleDesc es \<Rightarrow> sizeTuple r al sz es
      | FlagsDesc ns \<Rightarrow> sizeFlagsNumLabels (length ns)
      | EnumDesc cs \<Rightarrow> sizeEnumNumCases (length cs)
      | OptionDesc e \<Rightarrow> sizeOption r al sz e
      | ResultDesc ok er \<Rightarrow> sizeResult r al sz ok er
      | OwnDesc _ \<Rightarrow> Inr 4 | BorrowDesc _ \<Rightarrow> Inr 4 | StreamDesc _ \<Rightarrow> Inr 4 | FutureDesc _ \<Rightarrow> Inr 4
      | FuncDesc _ \<Rightarrow> Inl Unsupported_layout | InstanceDesc \<Rightarrow> Inl Unsupported_layout
      | ComponentDesc \<Rightarrow> Inl Unsupported_layout | ResourceDesc _ _ \<Rightarrow> Inl Unsupported_layout)"

fun Size :: "nat \<Rightarrow> resolver \<Rightarrow> type_desc \<Rightarrow> abi_error + u32" where
  "Size 0 r t = Inl Stack_overflow"
| "Size (Suc n) r t = Size_body r (Alignment n r) (Size n r) t"

section \<open>The Canonical ABI's layout, over unbounded numbers\<close>

definition despecialize :: "type_desc \<Rightarrow> type_desc" where
  "despecialize t =
     (case t of
        TupleDesc es \<Rightarrow> RecordDesc (map (Pair []) es)
      | EnumDesc ls \<Rightarrow> VariantDesc (map (\<lambda>l. (l, None)) ls)
      | OptionDesc e \<Rightarrow> VariantDesc [(''none'', None), (''some'', Some e)]
      | ResultDesc ok er \<Rightarrow> VariantDesc [(''ok'', ok), (''error'', er)]
      | _ \<Rightarrow> t)"

definition align_to :: "nat \<Rightarrow> nat \<Rightarrow> nat" where
  "align_to off a = ((off + a - 1) div a) * a"

text \<open>Size and alignment of a primitive: the pair is equal but for strings.\<close>

definition spec_prim :: "string \<Rightarrow> (nat \<times> nat) option" where
  "spec_prim p =
     map_of [(''bool'', (1, 1)), (''s8'', (1, 1)), (''u8'', (1, 1)), (''s16'', (2, 2)), (''u16'', (2, 2)),
       (''s32'', (4, 4)), (''u32'', (4, 4)), (''s64'', (8, 8)), (''u64'', (8, 8)), (''f32'', (4, 4)),
       (''f64'', (8, 8)), (''char'', (4, 4)), (''string'', (8, 4)), (''error-context'', (4, 4))] p"

definition spec_discriminant :: "nat \<Rightarrow> nat option" where
  "spec_discriminant n =
     (if n = 0 \<or> 2 ^ 32 \<le> n then None
      else Some (if n \<le> 2 ^ 8 then 1 else if n \<le> 2 ^ 16 then 2 else 4))"

definition spec_flags :: "nat \<Rightarrow> nat option" where
  "spec_flags n = (if n = 0 \<or> 32 < n then None else Some (if n \<le> 8 then 1 else if n \<le> 16 then 2 else 4))"

text \<open>Answers for a list of references; no answer if one of them has none.\<close>

definition spec_refs :: "resolver \<Rightarrow> (type_desc \<Rightarrow> 'a option) \<Rightarrow> type_ref list \<Rightarrow> 'a list option" where
  "spec_refs r f trs =
     those (map (\<lambda>tr. case resolveType r (Some tr) of Inl _ \<Rightarrow> None | Inr u \<Rightarrow> f u) trs)"

text \<open>One node: its size and its alignment from those of its children.\<close>

fun place :: "nat \<Rightarrow> (nat \<times> nat) list \<Rightarrow> nat" where
  "place off [] = off"
| "place off ((s, a) # ls) = place (align_to off a + s) ls"

definition max_align :: "(nat \<times> nat) list \<Rightarrow> nat" where
  "max_align ls = foldl max 1 (map snd ls)"

definition max_size :: "(nat \<times> nat) list \<Rightarrow> nat" where
  "max_size ls = foldl max 0 (map fst ls)"

definition spec_node :: "resolver \<Rightarrow> (type_desc \<Rightarrow> (nat \<times> nat) option) \<Rightarrow> type_desc \<Rightarrow> (nat \<times> nat) option" where
  "spec_node r f t =
     (case t of
        PrimitiveDesc p \<Rightarrow> spec_prim p
      | ListDesc _ \<Rightarrow> Some (8, 4)
      | MapDesc _ _ \<Rightarrow> Some (8, 4)
      | FixedListDesc e n \<Rightarrow>
          if n = 0 then None
          else Option.bind (spec_refs r f [e]) (\<lambda>ls. Some (unat n * fst (hd ls), snd (hd ls)))
      | RecordDesc fs \<Rightarrow> Option.bind (spec_refs r f (map snd fs)) (\<lambda>ls.
          Some (align_to (place 0 ls) (max_align ls), max_align ls))
      | VariantDesc cs \<Rightarrow>
          Option.bind (spec_discriminant (length cs)) (\<lambda>d.
          Option.bind (spec_refs r f (List.map_filter snd cs)) (\<lambda>ls.
          let a = max d (max_align ls) in
          Some (align_to (align_to d (max_align ls) + max_size ls) a, a)))
      | FlagsDesc ns \<Rightarrow> map_option (\<lambda>s. (s, s)) (spec_flags (length ns))
      | OwnDesc _ \<Rightarrow> Some (4, 4) | BorrowDesc _ \<Rightarrow> Some (4, 4)
      | StreamDesc _ \<Rightarrow> Some (4, 4) | FutureDesc _ \<Rightarrow> Some (4, 4)
      | _ \<Rightarrow> None)"

fun spec_layout :: "nat \<Rightarrow> resolver \<Rightarrow> type_desc \<Rightarrow> (nat \<times> nat) option" where
  "spec_layout 0 r t = None"
| "spec_layout (Suc n) r t = spec_node r (spec_layout n r) (despecialize t)"

text \<open>A record of a string field and a \<^verbatim>\<open>result<u8, u64>\<close> behind an index, as a test instance.\<close>

definition sample_resolver :: resolver where
  "sample_resolver = Some (\<lambda>i. if i = 0 then Some (ResultDesc (Some (prim_ref ''u8'')) (Some (prim_ref ''u64'')))
     else if i = 1 then Some (OptionDesc (index_ref 0)) else None)"

definition sample_type :: type_desc where
  "sample_type = RecordDesc [(''name'', prim_ref ''string''), (''tag'', prim_ref ''u8''), (''res'', index_ref 1)]"

section \<open>The walks use their children only\<close>

lemma MaxCaseAlignment_agree:
  "agree r (VariantDesc cs) al al' \<Longrightarrow> MaxCaseAlignment r al cs = MaxCaseAlignment r al' cs"
  unfolding MaxCaseAlignment_def
  by (intro foldE_cong) (auto split: option.splits intro!: bindE_cong via_agree [of r "VariantDesc cs"])

lemma Alignment_body_agree: "agree r t al al' \<Longrightarrow> Alignment_body r al t = Alignment_body r al' t"
proof (cases t)
  case (RecordDesc fs)
  assume "agree r t al al'"
  with RecordDesc have "alignmentRecord r al fs = alignmentRecord r al' fs"
    unfolding alignmentRecord_def by (intro foldE_cong bindE_cong via_agree [of r t]) auto
  then show ?thesis by (simp add: RecordDesc Alignment_body_def)
next
  case (TupleDesc fs)
  assume "agree r t al al'"
  with TupleDesc have "alignmentTuple r al fs = alignmentTuple r al' fs"
    unfolding alignmentTuple_def by (intro foldE_cong bindE_cong via_agree) auto
  then show ?thesis by (simp add: TupleDesc Alignment_body_def)
next
  case (VariantDesc cs)
  assume "agree r t al al'"
  then show ?thesis by (simp add: VariantDesc Alignment_body_def alignmentVariant_def MaxCaseAlignment_agree)
next
  case (ResultDesc ok er)
  assume "agree r t al al'"
  with ResultDesc have "via r al (Some tr) = via r al' (Some tr)" if "ok = Some tr \<or> er = Some tr" for tr
    using that by (intro via_agree [of r t]) auto
  then show ?thesis by (auto simp: ResultDesc Alignment_body_def alignmentResult_def split: option.splits)
qed (auto simp: Alignment_body_def alignmentOption_def alignmentFixedList_def dest: via_agree)

lemma alignmentPrimitive_no_overflow [simp]: "alignmentPrimitive p \<noteq> Inl Stack_overflow"
  by (simp add: alignmentPrimitive_def)

lemma sizePrimitive_no_overflow [simp]: "sizePrimitive p \<noteq> Inl Stack_overflow"
  by (simp add: sizePrimitive_def)

lemma MaxCaseAlignment_no_overflow:
  "no_overflow r (VariantDesc cs) al \<Longrightarrow> MaxCaseAlignment r al cs \<noteq> Inl Stack_overflow"
  unfolding MaxCaseAlignment_def
  by (auto dest!: foldE_Inl simp: bindE_eq_Inl via_no_overflow split: option.splits)

lemma alignmentRecord_no_overflow:
  "no_overflow r (RecordDesc fs) al \<Longrightarrow> alignmentRecord r al fs \<noteq> Inl Stack_overflow"
  unfolding alignmentRecord_def
  by (auto dest!: foldE_Inl simp: bindE_eq_Inl via_no_overflow)

lemma alignmentTuple_no_overflow:
  "no_overflow r (TupleDesc fs) al \<Longrightarrow> alignmentTuple r al fs \<noteq> Inl Stack_overflow"
  unfolding alignmentTuple_def
  by (auto dest!: foldE_Inl simp: bindE_eq_Inl via_no_overflow)

lemma Alignment_body_no_overflow:
  "no_overflow r t al \<Longrightarrow> Alignment_body r al t \<noteq> Inl Stack_overflow"
proof (cases t)
  case (ResultDesc ok er)
  assume "no_overflow r t al"
  with ResultDesc have "via r al (Some tr) \<noteq> Inl Stack_overflow" if "ok = Some tr \<or> er = Some tr" for tr
    using that by (intro via_no_overflow [of r t]) auto
  then show ?thesis
    by (auto simp: ResultDesc Alignment_body_def alignmentResult_def bindE_eq_Inl split: option.splits)
qed (auto simp: Alignment_body_def alignmentOption_def alignmentFixedList_def bindE_eq_Inl via_no_overflow
    alignmentRecord_no_overflow alignmentTuple_no_overflow MaxCaseAlignment_no_overflow alignmentVariant_def
    alignmentList_def alignmentFlagsNumLabels_def alignmentEnum_def Let_def)

interpretation alignment: type_walk "\<lambda>_ _ _. Inr ()" "\<lambda>r _. Alignment_body r" Alignment
proof unfold_locales
  fix r t and d d' :: "type_desc \<Rightarrow> abi_error + unit" and f g :: "type_desc \<Rightarrow> abi_error + u32"
  assume "\<And>u. u \<in> set (layout_children r t) \<Longrightarrow> d u = d' u \<and> f u = g u"
  then show "Alignment_body r f t = Alignment_body r g t" by (intro Alignment_body_agree) (simp add: agree_def)
next
  fix r t and d :: "type_desc \<Rightarrow> abi_error + unit" and f :: "type_desc \<Rightarrow> abi_error + u32"
  assume "\<And>u. u \<in> set (layout_children r t) \<Longrightarrow> d u \<noteq> Inl Stack_overflow \<and> f u \<noteq> Inl Stack_overflow"
  then show "Alignment_body r f t \<noteq> Inl Stack_overflow"
    by (intro Alignment_body_no_overflow) (simp add: no_overflow_def)
qed simp_all

lemma sizeRecord_agree:
  assumes "agree r (RecordDesc fs) al al'" "agree r (RecordDesc fs) sz sz'"
  shows "sizeRecord r al sz fs = sizeRecord r al' sz' fs"
proof -
  have "alignmentRecord r al fs = alignmentRecord r al' fs"
    using Alignment_body_agree [OF assms(1)] by (simp add: Alignment_body_def)
  moreover have "al u = al' u \<and> sz u = sz' u" if "(a, tr) \<in> set fs" "resolveType r (Some tr) = Inr u" for a tr u
    using that agreeD [OF assms(1), of tr u] agreeD [OF assms(2), of tr u] by simp
  ultimately show ?thesis unfolding sizeRecord_def
    by (intro bindE_cong foldE_cong) (auto intro!: bindE_cong)
qed

lemma sizeTuple_record: "sizeTuple r al sz es = sizeRecord r al sz (map (Pair []) es)"
  by (simp add: foldE_map sizeTuple_def sizeRecord_def alignmentTuple_def alignmentRecord_def)

lemma agree_tuple: "agree r (TupleDesc es) f g \<longleftrightarrow> agree r (RecordDesc (map (Pair n) es)) f g"
  by (simp add: agree_def layout_children_def comp_def)

lemma sizeVariant_agree:
  assumes "agree r (VariantDesc cs) al al'" "agree r (VariantDesc cs) sz sz'"
  shows "sizeVariant r al sz cs = sizeVariant r al' sz' cs"
proof -
  have "via r sz (Some tr) = via r sz' (Some tr)" if "(c, Some tr) \<in> set cs" for c tr
    using that by (intro via_agree [OF assms(2)]) simp
  then show ?thesis unfolding sizeVariant_def MaxCaseAlignment_agree [OF assms(1)] Let_def
    by (intro bindE_cong foldE_cong refl) (auto split: option.splits intro!: bindE_cong)
qed

lemma Size_body_agree:
  assumes "agree r t al al'" "agree r t sz sz'"
  shows "Size_body r al sz t = Size_body r al' sz' t"
proof (cases t)
  case (RecordDesc fs)
  with assms show ?thesis by (simp add: Size_body_def sizeRecord_agree)
next
  case (TupleDesc es)
  with assms show ?thesis by (simp add: Size_body_def sizeTuple_record agree_tuple [of r es _ _ "[]"] sizeRecord_agree)
next
  case (VariantDesc cs)
  with assms show ?thesis by (simp add: Size_body_def sizeVariant_agree)
next
  case (OptionDesc e)
  with agreeD [OF assms(1), of e] agreeD [OF assms(2), of e] show ?thesis
    by (auto simp: Size_body_def sizeOption_def intro!: bindE_cong)
next
  case (ResultDesc ok er)
  have "result_payload r al sz tr acc = result_payload r al' sz' tr acc" if "tr = ok \<or> tr = er" for tr acc
    using agreeD [OF assms(1)] agreeD [OF assms(2)] that ResultDesc
    by (auto simp: result_payload_def split: option.splits intro!: bindE_cong)
  then show ?thesis using ResultDesc by (simp add: Size_body_def sizeResult_def)
next
  case (FixedListDesc e n)
  with via_agree [OF assms(2), of e] show ?thesis by (simp add: Size_body_def sizeFixedList_def)
qed (simp_all add: Size_body_def)

lemma sizeRecord_no_overflow:
  assumes "no_overflow r (RecordDesc fs) al" "no_overflow r (RecordDesc fs) sz"
  shows "sizeRecord r al sz fs \<noteq> Inl Stack_overflow"
proof -
  have "al u \<noteq> Inl Stack_overflow \<and> sz u \<noteq> Inl Stack_overflow"
    if "(a, tr) \<in> set fs" "resolveType r (Some tr) = Inr u" for a tr u
    using that no_overflowD [OF assms(1), of tr u] no_overflowD [OF assms(2), of tr u] by simp
  then show ?thesis using alignmentRecord_no_overflow [OF assms(1)] unfolding sizeRecord_def
    by (auto simp: bindE_eq_Inl dest!: foldE_Inl)
qed

lemma no_overflow_tuple: "no_overflow r (TupleDesc es) f \<longleftrightarrow> no_overflow r (RecordDesc (map (Pair n) es)) f"
  by (simp add: no_overflow_def layout_children_def comp_def)

lemma sizeVariant_no_overflow:
  assumes "no_overflow r (VariantDesc cs) al" "no_overflow r (VariantDesc cs) sz"
  shows "sizeVariant r al sz cs \<noteq> Inl Stack_overflow"
  using MaxCaseAlignment_no_overflow [OF assms(1)] unfolding sizeVariant_def Let_def
  by (auto simp: bindE_eq_Inl via_no_overflow [OF assms(2)] dest!: foldE_Inl split: option.splits)

lemma Size_body_no_overflow:
  assumes "no_overflow r t al" "no_overflow r t sz"
  shows "Size_body r al sz t \<noteq> Inl Stack_overflow"
proof (cases t)
  case (RecordDesc fs)
  with assms show ?thesis by (simp add: Size_body_def sizeRecord_no_overflow)
next
  case (TupleDesc es)
  with assms show ?thesis
    by (simp add: Size_body_def sizeTuple_record no_overflow_tuple [of r es _ "[]"] sizeRecord_no_overflow)
next
  case (VariantDesc cs)
  with assms show ?thesis by (simp add: Size_body_def sizeVariant_no_overflow)
next
  case (OptionDesc e)
  with no_overflowD [OF assms(1), of e] no_overflowD [OF assms(2), of e] show ?thesis
    by (auto simp: Size_body_def sizeOption_def bindE_eq_Inl)
next
  case (ResultDesc ok er)
  have "result_payload r al sz tr acc \<noteq> Inl Stack_overflow" if "tr = ok \<or> tr = er" for tr acc
    using no_overflowD [OF assms(1)] no_overflowD [OF assms(2)] that ResultDesc
    by (auto simp: result_payload_def bindE_eq_Inl split: option.splits)
  then show ?thesis using ResultDesc by (auto simp: Size_body_def sizeResult_def bindE_eq_Inl)
next
  case (FixedListDesc e n)
  with via_no_overflow [OF assms(2), of e] show ?thesis by (auto simp: Size_body_def sizeFixedList_def bindE_eq_Inl)
qed (simp_all add: Size_body_def sizeList_def sizeFlagsNumLabels_def sizeEnumNumCases_def Let_def)

interpretation layout_size: type_walk Alignment Size_body Size
proof unfold_locales
  fix r t and d d' f g :: "type_desc \<Rightarrow> abi_error + u32"
  assume "\<And>u. u \<in> set (layout_children r t) \<Longrightarrow> d u = d' u \<and> f u = g u"
  then show "Size_body r d f t = Size_body r d' g t" by (intro Size_body_agree) (simp_all add: agree_def)
next
  fix r t and d f :: "type_desc \<Rightarrow> abi_error + u32"
  assume "\<And>u. u \<in> set (layout_children r t) \<Longrightarrow> d u \<noteq> Inl Stack_overflow \<and> f u \<noteq> Inl Stack_overflow"
  then show "Size_body r d f t \<noteq> Inl Stack_overflow"
    by (intro Size_body_no_overflow) (simp_all add: no_overflow_def)
qed (rule alignment.enough_stack, simp_all)

section \<open>Rounding up\<close>

abbreviation pow2_align :: "u32 \<Rightarrow> bool" where
  "pow2_align a \<equiv> a \<in> {1, 2, 4, 8}"

lemma unat_Align:
  assumes "0 < a" "unat off + unat a \<le> 2 ^ 32"
  shows "unat (Align off a) = align_to (unat off) (unat a)"
proof -
  have a: "a \<noteq> 0" "unat a \<noteq> 0" using assms(1) by (auto simp: unat_eq_0)
  have "unat (off + a - 1) = unat off + unat a - 1"
  proof -
    have "unat (a - 1) = unat a - 1" using a by (simp add: unat_minus_one)
    moreover have "unat off + (unat a - 1) < 2 ^ 32" using assms(2) a(2) by linarith
    ultimately have "unat (off + (a - 1)) = unat off + (unat a - 1)" using unat_add_lem [of off "a - 1"] by simp
    then show ?thesis using a(2) by (simp add: add_diff_eq)
  qed
  moreover have "(unat off + unat a - 1) div unat a * unat a < 2 ^ 32"
    using assms(2) a(2) div_times_less_eq_dividend [of "unat off + unat a - 1" "unat a"] by linarith
  ultimately show ?thesis
    using a(1) unat_mult_lem [of "(off + a - 1) div a" a] by (simp add: Align_def align_to_def unat_div)
qed

lemma align_to_props:
  assumes "0 < a"
  shows "a dvd align_to off a" "off \<le> align_to off a" "align_to off a < off + a"
    "a dvd m \<Longrightarrow> off \<le> m \<Longrightarrow> align_to off a \<le> m"
proof -
  show "a dvd align_to off a" by (simp add: align_to_def)
  have eq: "align_to off a + (off + a - 1) mod a = off + a - 1"
    unfolding align_to_def by simp
  have "(off + a - 1) mod a < a" using assms by simp
  with eq assms show le: "off \<le> align_to off a" "align_to off a < off + a" by linarith+
  assume "a dvd m" "off \<le> m"
  then obtain k where k: "m = a * k" by (auto simp: dvd_def)
  have "(off + a - 1) div a \<le> k"
  proof -
    have "off + a - 1 < a * (k + 1)" using \<open>off \<le> m\<close> k assms by (simp add: algebra_simps)
    then have "(off + a - 1) div a < k + 1" using assms by (simp add: less_mult_imp_div_less mult.commute)
    then show ?thesis by simp
  qed
  then show "align_to off a \<le> m" unfolding align_to_def k by (simp add: mult.commute)
qed

lemma Align_dvd: "0 < a \<Longrightarrow> unat a dvd unat (Align off a)"
proof -
  assume "0 < a"
  then have a: "a \<noteq> 0" "0 < unat a" by (auto simp: word_gt_0 unat_gt_0)
  let ?q = "(off + a - 1) div a"
  have "unat ?q * unat a \<le> unat (off + a - 1)" unfolding unat_div by (rule div_times_less_eq_dividend)
  then have "unat ?q * unat a < 2 ^ LENGTH(32)" using unsigned_less [of "off + a - 1", where 'a = nat] by (rule le_less_trans)
  then have "unat (?q * a) = unat ?q * unat a" using unat_mult_lem by blast
  then show ?thesis using a by (simp add: Align_def)
qed

section \<open>Alignment against the specification\<close>

definition to_opt :: "abi_error + u32 \<Rightarrow> nat option" where
  "to_opt x = (case x of Inl _ \<Rightarrow> None | Inr a \<Rightarrow> Some (unat a))"

lemma to_opt_simps [simp]: "to_opt (Inl e) = None" "to_opt (Inr a) = Some (unat a)"
  by (simp_all add: to_opt_def)

lemma to_opt_Some [simp]: "to_opt x = Some n \<longleftrightarrow> (\<exists>a. x = Inr a \<and> unat a = n)"
  by (cases x) auto

lemma unat_if_less [simp]: "unat (if m < a then a else m) = max (unat m) (unat a)" for m a :: "'a::len word"
  by (simp add: word_less_nat_alt)

text \<open>The maximum loop shared by records, tuples and variants.\<close>

lemma foldE_max:
  "to_opt (foldE (\<lambda>m x. bindE (h x) (\<lambda>a. Inr (if m < a then a else m))) m0 xs) =
     map_option (foldl max (unat m0)) (those (map (to_opt \<circ> h) xs))"
proof (induction xs arbitrary: m0)
  case (Cons x xs)
  show ?case
  proof (cases "h x")
    case (Inr a)
    then show ?thesis using Cons [of "if m0 < a then a else m0"]
      by (cases "those (map (to_opt \<circ> h) xs)") (simp_all add: comp_def)
  qed simp
qed simp

lemma foldE_max_cases:
  "foldE (\<lambda>m c. case snd c of None \<Rightarrow> Inr m | Some tr \<Rightarrow> bindE (h tr) (\<lambda>a. Inr (if m < a then a else m))) m0 cs =
   foldE (\<lambda>m tr. bindE (h tr) (\<lambda>a. Inr (if m < a then a else m))) m0 (List.map_filter snd cs)"
  for m0 :: u32 and h :: "type_ref \<Rightarrow> abi_error + u32"
  by (induction cs arbitrary: m0) (auto simp: List.map_filter_simps split: option.splits intro!: bindE_cong)

lemma to_opt_via: "to_opt (via r f (Some tr)) =
    (case resolveType r (Some tr) of Inl _ \<Rightarrow> None | Inr u \<Rightarrow> to_opt (f u))"
  by (cases "resolveType r (Some tr)") (simp_all add: via_def)

lemma alignmentRecord_tuple: "alignmentRecord r al fs = alignmentTuple r al (map snd fs)"
  by (simp add: alignmentTuple_def alignmentRecord_def foldE_map)

lemma spec_refs_simps [simp]:
  "spec_refs r f [] = Some []"
  "spec_refs r f (tr # trs) =
     Option.bind (case resolveType r (Some tr) of Inl _ \<Rightarrow> None | Inr u \<Rightarrow> f u) (\<lambda>x.
       map_option ((#) x) (spec_refs r f trs))"
  by (simp_all add: spec_refs_def split: option.splits)

lemma spec_refs_all:
  "spec_refs r f trs = Some ls \<Longrightarrow>
    list_all2 (\<lambda>tr x. \<exists>u. resolveType r (Some tr) = Inr u \<and> f u = Some x) trs ls"
  by (induction trs arbitrary: ls) (auto split: sum.splits simp: bind_eq_Some_conv)

text \<open>What the alignment walk knows of a child that the specification lays out.\<close>

definition aligns :: "(type_desc \<Rightarrow> (nat \<times> nat) option) \<Rightarrow> (type_desc \<Rightarrow> abi_error + u32) \<Rightarrow> bool" where
  "aligns f al \<longleftrightarrow> (\<forall>u s a. f u = Some (s, a) \<longrightarrow> to_opt (al u) = Some a)"

lemma alignsD: "aligns f al \<Longrightarrow> f u = Some (s, a) \<Longrightarrow> to_opt (al u) = Some a"
  by (auto simp: aligns_def)

lemma aligned_refs:
  assumes "aligns f al" and "spec_refs r f trs = Some ls"
  shows "those (map (to_opt \<circ> (\<lambda>tr. via r al (Some tr))) trs) = Some (map snd ls)"
  using spec_refs_all [OF assms(2)]
proof (induction rule: list_all2_induct)
  case (Cons tr trs x ls)
  then obtain u s a where u: "resolveType r (Some tr) = Inr u" "f u = Some (s, a)" "x = (s, a)" by (metis surj_pair)
  with alignsD [OF assms(1) u(2)] Cons.IH show ?case by (auto simp: via_def)
qed simp

lemma alignmentTuple_spec:
  assumes "aligns f al" and "spec_refs r f trs = Some ls"
  shows "to_opt (alignmentTuple r al trs) = Some (max_align ls)"
  unfolding alignmentTuple_def foldE_max aligned_refs [OF assms] by (simp add: max_align_def)

lemma MaxCaseAlignment_spec:
  assumes "aligns f al"
    and "spec_refs r f (List.map_filter snd cs) = Some ls"
  shows "to_opt (MaxCaseAlignment r al cs) = Some (max_align ls)"
  unfolding MaxCaseAlignment_def foldE_max_cases foldE_max aligned_refs [OF assms]
  by (simp add: max_align_def)

lemma u8_align [simp]: "u8_align = 1"
  by (simp add: u8_align_def alignmentPrimitive_def)

lemma discriminant_prim:
  "to_opt (alignmentPrimitive (DiscriminantType n)) = spec_discriminant n"
  "to_opt (sizePrimitive (DiscriminantType n)) = spec_discriminant n"
  "DiscriminantType n = [] \<longleftrightarrow> spec_discriminant n = None"
  by (auto simp: DiscriminantType_def spec_discriminant_def alignmentPrimitive_def sizePrimitive_def)

lemma prim_spec:
  "to_opt (alignmentPrimitive p) = map_option snd (spec_prim p)"
  "to_opt (sizePrimitive p) = map_option fst (spec_prim p)"
  by (auto simp: alignmentPrimitive_def sizePrimitive_def spec_prim_def)

lemma flags_spec:
  "to_opt (alignmentFlagsNumLabels n) = spec_flags n" "to_opt (sizeFlagsNumLabels n) = spec_flags n"
  by (auto simp: alignmentFlagsNumLabels_def sizeFlagsNumLabels_def spec_flags_def)

lemma alignmentVariant_spec:
  assumes "aligns f al"
    and "spec_node r f (VariantDesc cs) = Some (s, a)"
  shows "to_opt (alignmentVariant r al cs) = Some a"
proof -
  from assms(2) obtain d ls where d: "spec_discriminant (length cs) = Some d"
    "spec_refs r f (List.map_filter snd cs) = Some ls" "a = max d (max_align ls)"
    by (auto simp: spec_node_def bind_eq_Some_conv Let_def)
  obtain m where m: "MaxCaseAlignment r al cs = Inr m" "unat m = max_align ls"
    using MaxCaseAlignment_spec [OF assms(1) d(2)] by auto
  obtain w where w: "alignmentPrimitive (DiscriminantType (length cs)) = Inr w" "unat w = d"
    using discriminant_prim(1) [of "length cs"] d(1) by auto
  show ?thesis using m w by (simp add: alignmentVariant_def d(3) del: to_opt_Some)
qed

lemma spec_discriminant_pos: "spec_discriminant n = Some d \<Longrightarrow> d \<in> {1, 2, 4}"
  by (auto simp: spec_discriminant_def split: if_splits)

text \<open>Options and results are aligned as the variants they abbreviate.\<close>

lemma disc_two: "DiscriminantType (Suc (Suc 0)) = ''u8''"
  by (simp add: DiscriminantType_def)

lemma alignmentOption_variant:
  "alignmentOption r al e = alignmentVariant r al [(''none'', None), (''some'', Some e)]"
  by (simp add: alignmentOption_def alignmentVariant_def MaxCaseAlignment_def disc_two
      alignmentPrimitive_def bindE_assoc) (auto intro!: bindE_cong)

lemma alignmentResult_variant:
  "alignmentResult r al ok er = alignmentVariant r al [(''ok'', ok), (''error'', er)]"
  unfolding alignmentResult_def u8_align
  by (simp add: alignmentVariant_def MaxCaseAlignment_def disc_two alignmentPrimitive_def bindE_assoc
      split: option.splits)

lemma no_payloads: "List.map_filter snd (map (\<lambda>l. (l, None)) cs) = []"
  by (induction cs) (simp_all add: List.map_filter_simps)

lemma Alignment_body_spec:
  assumes al: "aligns f al"
    and node: "spec_node r f (despecialize t) = Some (s, a)"
  shows "to_opt (Alignment_body r al t) = Some a"
proof (cases t)
  case (RecordDesc fs)
  with node alignmentTuple_spec [OF al, of r "map snd fs"] show ?thesis
    by (auto simp: Alignment_body_def despecialize_def spec_node_def alignmentRecord_tuple bind_eq_Some_conv)
next
  case (TupleDesc es)
  with node alignmentTuple_spec [OF al, of r es] show ?thesis
    by (auto simp: Alignment_body_def despecialize_def spec_node_def comp_def bind_eq_Some_conv)
next
  case (VariantDesc cs)
  with node alignmentVariant_spec [OF al] show ?thesis
    by (simp add: Alignment_body_def despecialize_def)
next
  case (EnumDesc cs)
  with node discriminant_prim [of "length cs"] spec_discriminant_pos [of "length cs"] show ?thesis
    by (cases "spec_discriminant (length cs)")
       (auto simp: Alignment_body_def despecialize_def spec_node_def alignmentEnum_def Let_def max_align_def no_payloads)
next
  case (OptionDesc e)
  with node alignmentVariant_spec [OF al] show ?thesis
    by (simp add: Alignment_body_def despecialize_def alignmentOption_variant)
next
  case (ResultDesc ok er)
  with node alignmentVariant_spec [OF al] show ?thesis
    by (simp add: Alignment_body_def despecialize_def alignmentResult_variant)
next
  case (FixedListDesc e n)
  with node alignsD [OF al] show ?thesis
    by (auto simp: Alignment_body_def despecialize_def spec_node_def alignmentFixedList_def via_def bind_eq_Some_conv
       split: sum.splits if_splits)
qed (use node in \<open>auto simp: Alignment_body_def despecialize_def spec_node_def prim_spec flags_spec alignmentList_def
      simp del: to_opt_Some\<close>)

lemma Alignment_spec: "spec_layout n r t = Some (s, a) \<Longrightarrow> to_opt (Alignment n r t) = Some a"
proof (induction n arbitrary: t s a)
  case (Suc n)
  show ?case unfolding Alignment.simps
    by (rule Alignment_body_spec) (use Suc in \<open>auto simp: aligns_def simp del: to_opt_Some\<close>)
qed simp

lemma max_align_in: "set (map snd ls) \<subseteq> {1, 2, 4, 8} \<Longrightarrow> max_align ls \<in> {1, 2, 4, 8}"
  using foldl_max_in [of 1 "map snd ls"] unfolding max_align_def by blast

lemma spec_node_align:
  assumes "\<And>u s a. f u = Some (s, a) \<Longrightarrow> a \<in> {1, 2, 4, 8}" and "spec_node r f t = Some (s, a)"
  shows "a \<in> {1, 2, 4, 8}"
proof -
  have refs: "set (map snd ls) \<subseteq> {1, 2, 4, 8}" if "spec_refs r f trs = Some ls" for trs ls
  proof -
    have "list_all (\<lambda>x. snd x \<in> {1, 2, 4, 8}) ls"
      using spec_refs_all [OF that] by (induction rule: list_all2_induct) (use assms(1) in \<open>auto, metis+\<close>)
    then show ?thesis by (auto simp: list_all_iff)
  qed
  show ?thesis
  proof (cases t)
    case (PrimitiveDesc p)
    with assms(2) show ?thesis by (auto simp: spec_node_def spec_prim_def split: if_splits)
  next
    case (VariantDesc cs)
    with assms(2) obtain d ls where "spec_discriminant (length cs) = Some d"
      "spec_refs r f (List.map_filter snd cs) = Some ls" "a = max d (max_align ls)"
      by (auto simp: spec_node_def bind_eq_Some_conv Let_def)
    with max_align_in [OF refs] spec_discriminant_pos [of "length cs" d] show ?thesis
      by (auto simp: max_def)
  next
    case (RecordDesc fs)
    with assms(2) max_align_in [OF refs] show ?thesis
      by (auto simp: spec_node_def bind_eq_Some_conv)
  qed (use assms in \<open>auto simp: spec_node_def bind_eq_Some_conv spec_flags_def split: if_splits sum.splits\<close>)
qed

lemma spec_layout_align: "spec_layout n r t = Some (s, a) \<Longrightarrow> a \<in> {1, 2, 4, 8}"
proof (induction n arbitrary: t s a)
  case (Suc n)
  then show ?case using spec_node_align [of "spec_layout n r"] by (metis spec_layout.simps(2))
qed simp

lemma sizeRecord_tuple: "sizeRecord r al sz fs = sizeTuple r al sz (map snd fs)"
  by (simp add: sizeTuple_def sizeRecord_def alignmentRecord_tuple foldE_map)

lemma Align_one: "Align 1 (max 1 a) = Align 1 a"
proof (cases "a = 0")
  case False
  then have "1 \<le> a" by (simp add: word_le_nat_alt Suc_leI unat_gt_0)
  then show ?thesis by simp
qed (simp add: Align_def)

lemma sizeOption_variant:
  "to_opt (sizeOption r al sz e) = to_opt (sizeVariant r al sz [(''none'', None), (''some'', Some e)])"
proof (cases "resolveType r (Some e)")
  case (Inr b)
  then show ?thesis
    by (cases "al b"; cases "sz b")
       (simp_all add: sizeOption_def sizeVariant_def MaxCaseAlignment_def disc_two sizePrimitive_def via_def
         Let_def Align_one if_max max.commute [of _ 1] max.left_commute [of _ 1])
qed (simp add: sizeOption_def sizeVariant_def MaxCaseAlignment_def disc_two sizePrimitive_def via_def)

lemma sizeResult_variant:
  "to_opt (sizeResult r al sz ok er) = to_opt (sizeVariant r al sz [(''ok'', ok), (''error'', er)])"
proof -
  have p: "result_payload r al sz tr acc =
    (case tr of None \<Rightarrow> Inr acc | Some x \<Rightarrow> bindE (via r sz (Some x)) (\<lambda>s. bindE (via r al (Some x)) (\<lambda>a.
       Inr (max (fst acc) s, max (snd acc) a))))" for tr acc
    by (cases "resolveType r tr") (auto simp: result_payload_def via_def if_max split: option.splits)
  show ?thesis
    by (cases ok; cases er; cases "via r al ok"; cases "via r al er"; cases "via r sz ok"; cases "via r sz er")
      (simp_all add: sizeResult_def p sizeVariant_def MaxCaseAlignment_def disc_two sizePrimitive_def
        Let_def Align_one if_max max.commute [of _ 1] max.left_commute [of _ 1])
qed

lemma align_to_ge: "0 < a \<Longrightarrow> off \<le> align_to off a"
  by (rule align_to_props(2))

lemma place_ge: "\<forall>x \<in> set ls. 0 < snd x \<Longrightarrow> off \<le> place off ls"
proof (induction off ls rule: place.induct)
  case (2 off s a ls)
  then have "align_to off a + s \<le> place off ((s, a) # ls)" by simp
  moreover have "off \<le> align_to off a" using 2 by (simp add: align_to_ge)
  ultimately show ?case by linarith
qed simp

definition fits :: "nat \<Rightarrow> bool" where
  "fits s \<longleftrightarrow> s < 2 ^ 28"

text \<open>What the size walk knows of a child: its alignment, and its size if it fits.\<close>

definition laid_out :: "(type_desc \<Rightarrow> abi_error + u32) \<Rightarrow> (type_desc \<Rightarrow> abi_error + u32) \<Rightarrow>
    type_desc \<Rightarrow> nat \<times> nat \<Rightarrow> bool" where
  "laid_out al sz u x \<longleftrightarrow> snd x \<in> {1, 2, 4, 8} \<and> (\<exists>a. al u = Inr a \<and> unat a = snd x) \<and>
     (fits (fst x) \<longrightarrow> (\<exists>s. sz u = Inr s \<and> unat s = fst x))"

lemma size_step:
  assumes "laid_out al sz u (S, A)" "fits (align_to (unat off) A + S)"
  shows "\<exists>o'. bindE (al u) (\<lambda>align. bindE (sz u) (\<lambda>size. Inr (Align off align + size))) = Inr o' \<and>
    unat o' = align_to (unat off) A + S"
proof -
  from assms obtain a where a: "al u = Inr a" "unat a = A" "A \<in> {1, 2, 4, 8}" by (auto simp: laid_out_def)
  from assms obtain s where s: "sz u = Inr s" "unat s = S" by (auto simp: laid_out_def fits_def)
  have off: "unat off + unat a \<le> 2 ^ 32" "0 < a"
    using assms(2) a align_to_ge [of A "unat off"] by (auto simp: fits_def word_gt_0)
  from unat_Align [OF off(2,1)] have al: "unat (Align off a) = align_to (unat off) A" by (simp add: a)
  then have "unat (Align off a + s) = align_to (unat off) A + S"
    using assms(2) s unat_add_lem [of "Align off a" s] by (simp add: fits_def)
  with a s show ?thesis by simp
qed

lemma size_loop:
  assumes "list_all2 (\<lambda>tr x. \<exists>u. resolveType r (Some tr) = Inr u \<and> laid_out al sz u x) trs ls"
    and "fits (place (unat off) ls)"
  shows "\<exists>o'. foldE (\<lambda>offset e. bindE (resolveType r (Some e)) (\<lambda>et. bindE (al et) (\<lambda>align.
       bindE (sz et) (\<lambda>size. Inr (Align offset align + size))))) off trs = Inr o' \<and>
     unat o' = place (unat off) ls"
  using assms
proof (induction trs ls arbitrary: off rule: list_all2_induct)
  case (Cons tr trs x ls)
  obtain S A where x: "x = (S, A)" by (cases x)
  obtain u where u: "resolveType r (Some tr) = Inr u" "laid_out al sz u (S, A)" using Cons.hyps x by blast
  have "\<forall>x \<in> set ls. 0 < snd x"
    using Cons.hyps(2) by (induction rule: list_all2_induct) (auto simp: laid_out_def)
  then have "fits (align_to (unat off) A + S)"
    using Cons.prems place_ge [of ls "align_to (unat off) A + S"] by (simp add: x fits_def)
  from size_step [OF u(2) this] obtain o1 where o1: "unat o1 = align_to (unat off) A + S"
    "bindE (al u) (\<lambda>align. bindE (sz u) (\<lambda>size. Inr (Align off align + size))) = Inr o1" by blast
  with Cons.IH [of o1] Cons.prems u show ?case by (auto simp add: x)
qed simp

lemma sizes_fit:
  assumes "list_all2 (\<lambda>tr x. \<exists>u. resolveType r (Some tr) = Inr u \<and> laid_out al sz u x) trs ls"
    and "fits (max_size ls)"
  shows "those (map (to_opt \<circ> (\<lambda>tr. via r sz (Some tr))) trs) = Some (map fst ls)"
proof -
  have le: "\<forall>x \<in> set ls. fits (fst x)"
  proof
    fix x assume "x \<in> set ls"
    then have "fst x \<le> max_size ls" using foldl_max_ge [of 0 "map fst ls"] by (auto simp: max_size_def)
    with assms(2) show "fits (fst x)" by (simp add: fits_def)
  qed
  from assms(1) le show ?thesis
    by (induction rule: list_all2_induct) (auto simp: laid_out_def via_def)
qed

lemma sizeTuple_spec:
  assumes ls: "list_all2 (\<lambda>tr x. \<exists>u. resolveType r (Some tr) = Inr u \<and> laid_out al sz u x) trs ls"
    and al: "to_opt (alignmentTuple r al trs) = Some (max_align ls)" and A: "max_align ls \<in> {1, 2, 4, 8}"
    and fits: "fits (align_to (place 0 ls) (max_align ls))"
  shows "\<exists>s. sizeTuple r al sz trs = Inr s \<and> unat s = align_to (place 0 ls) (max_align ls)"
proof -
  obtain a where a: "alignmentTuple r al trs = Inr a" "unat a = max_align ls" using al by auto
  have ge: "place 0 ls \<le> align_to (place 0 ls) (max_align ls)" using A by (intro align_to_ge) auto
  with fits have "fits (place (unat (0::u32)) ls)" by (simp add: fits_def)
  from size_loop [OF ls this] obtain o1 where o1: "unat o1 = place 0 ls"
    "foldE (\<lambda>offset e. bindE (resolveType r (Some e)) (\<lambda>et. bindE (al et) (\<lambda>align.
       bindE (sz et) (\<lambda>size. Inr (Align offset align + size))))) 0 trs = Inr o1" by auto
  have "unat (Align o1 a) = align_to (place 0 ls) (max_align ls)"
    using fits ge A a o1 by (subst unat_Align) (auto simp: fits_def word_gt_0)
  with o1 a show ?thesis by (simp add: sizeTuple_def)
qed

lemma sizeVariant_spec:
  assumes ls: "list_all2 (\<lambda>tr x. \<exists>u. resolveType r (Some tr) = Inr u \<and> laid_out al sz u x)
      (List.map_filter snd cs) ls"
    and al: "to_opt (MaxCaseAlignment r al cs) = Some (max_align ls)" and A: "max_align ls \<in> {1, 2, 4, 8}"
    and d: "spec_discriminant (length cs) = Some d"
    and fits: "fits (align_to (align_to d (max_align ls) + max_size ls) (max d (max_align ls)))"
  shows "\<exists>s. sizeVariant r al sz cs = Inr s \<and>
    unat s = align_to (align_to d (max_align ls) + max_size ls) (max d (max_align ls))"
proof -
  obtain a where a: "MaxCaseAlignment r al cs = Inr a" "unat a = max_align ls" using al by auto
  obtain ds where ds: "sizePrimitive (DiscriminantType (length cs)) = Inr ds" "unat ds = d"
    using discriminant_prim(2) [of "length cs"] d by auto
  have dpos: "d \<in> {1, 2, 4}" by (rule spec_discriminant_pos [OF d])
  then have M: "max d (max_align ls) \<in> {1, 2, 4, 8}" using A by (auto simp: max_def)
  let ?o = "align_to d (max_align ls)"
  have f1: "fits (?o + max_size ls)"
    using fits align_to_ge [of "max d (max_align ls)" "?o + max_size ls"] M by (auto simp: fits_def)
  have o: "unat (Align ds a) = ?o" using A dpos ds a by (subst unat_Align) (auto simp: word_gt_0)
  have fs: "fits (max_size ls)" using f1 by (simp add: fits_def)
  have "to_opt (foldE (\<lambda>maxCaseSize c. case snd c of None \<Rightarrow> Inr maxCaseSize
      | Some tr \<Rightarrow> bindE (via r sz (Some tr)) (\<lambda>cSize. Inr (if maxCaseSize < cSize then cSize else maxCaseSize))) 0 cs) =
      Some (max_size ls)"
    unfolding foldE_max_cases foldE_max sizes_fit [OF ls fs] by (simp add: max_size_def)
  then obtain m where m: "unat m = max_size ls" "foldE (\<lambda>maxCaseSize c. case snd c of None \<Rightarrow> Inr maxCaseSize
      | Some tr \<Rightarrow> bindE (via r sz (Some tr)) (\<lambda>cSize. Inr (if maxCaseSize < cSize then cSize else maxCaseSize))) 0 cs = Inr m"
    by auto
  have "unat (Align ds a + m) = ?o + max_size ls"
    using f1 o m unat_add_lem [of "Align ds a" m] by (simp add: fits_def)
  moreover have "unat (if a < ds then ds else a) = max d (max_align ls)" using a ds by (simp add: max.commute)
  ultimately have "unat (Align (Align ds a + m) (if a < ds then ds else a)) =
      align_to (?o + max_size ls) (max d (max_align ls))"
    using f1 M by (subst unat_Align) (auto simp: fits_def word_gt_0 unat_gt_0 [symmetric])
  then show ?thesis unfolding sizeVariant_def ds(1) a(1) bindE_simps Let_def m(2) by blast
qed

lemma Size_body_spec:
  assumes al: "aligns f al"
    and A: "\<And>u s a. f u = Some (s, a) \<Longrightarrow> a \<in> {1, 2, 4, 8}"
    and sz: "\<And>u s a. f u = Some (s, a) \<Longrightarrow> fits s \<Longrightarrow> \<exists>w. sz u = Inr w \<and> unat w = s"
    and node: "spec_node r f (despecialize t) = Some (s, a)" and fits: "fits s"
  shows "\<exists>w. Size_body r al sz t = Inr w \<and> unat w = s"
proof -
  have laid: "laid_out al sz u x" if "f u = Some x" for u x
    using that alignsD [OF al, of u] A sz by (cases x) (auto simp: laid_out_def)
  have refs: "list_all2 (\<lambda>tr x. \<exists>u. resolveType r (Some tr) = Inr u \<and> laid_out al sz u x) trs ls"
    "set (map snd ls) \<subseteq> {1, 2, 4, 8}" if "spec_refs r f trs = Some ls" for trs ls
  proof -
    show *: "list_all2 (\<lambda>tr x. \<exists>u. resolveType r (Some tr) = Inr u \<and> laid_out al sz u x) trs ls"
      using spec_refs_all [OF that] by (rule list_all2_mono) (use laid in blast)
    then show "set (map snd ls) \<subseteq> {1, 2, 4, 8}"
      by (induction rule: list_all2_induct) (auto simp: laid_out_def)
  qed
  have tuple: "\<exists>w. sizeTuple r al sz trs = Inr w \<and> unat w = s"
    if "spec_refs r f trs = Some ls" "s = align_to (place 0 ls) (max_align ls)" for trs ls
    using sizeTuple_spec [OF refs(1) [OF that(1)] _ max_align_in [OF refs(2) [OF that(1)]]]
      alignmentTuple_spec [OF al] that fits by simp
  have variant: "\<exists>w. sizeVariant r al sz cs = Inr w \<and> unat w = s"
    if v: "spec_node r f (VariantDesc cs) = Some (s, a)" for cs
  proof -
    obtain d ls where d: "spec_discriminant (length cs) = Some d"
      "spec_refs r f (List.map_filter snd cs) = Some ls"
      "s = align_to (align_to d (max_align ls) + max_size ls) (max d (max_align ls))"
      using v by (auto simp: spec_node_def bind_eq_Some_conv Let_def)
    from sizeVariant_spec [OF refs(1) [OF d(2)] _ max_align_in [OF refs(2) [OF d(2)]] d(1)]
      MaxCaseAlignment_spec [OF al] d fits show ?thesis by simp
  qed
  show ?thesis
  proof (cases t)
    case (RecordDesc fs)
    with node tuple show ?thesis
      by (auto simp: despecialize_def spec_node_def bind_eq_Some_conv Size_body_def sizeRecord_tuple)
  next
    case (TupleDesc es)
    with node tuple show ?thesis
      by (auto simp: despecialize_def spec_node_def bind_eq_Some_conv Size_body_def comp_def)
  next
    case (VariantDesc cs)
    with node variant show ?thesis by (simp add: despecialize_def Size_body_def)
  next
    case (EnumDesc cs)
    with node obtain d where d: "spec_discriminant (length cs) = Some d" "s = align_to (align_to d 1) (max d 1)"
      by (auto simp: despecialize_def spec_node_def bind_eq_Some_conv no_payloads max_align_def max_size_def Let_def)
    then have "s = d" using spec_discriminant_pos [OF d(1)] by (auto simp: align_to_def numeral_2_eq_2 [symmetric])
    with d discriminant_prim(2,3) [of "length cs"] EnumDesc show ?thesis
      by (auto simp: Size_body_def sizeEnumNumCases_def Let_def)
  next
    case (OptionDesc e)
    with node variant have "to_opt (sizeOption r al sz e) = Some s"
      by (simp add: despecialize_def sizeOption_variant)
    then show ?thesis using OptionDesc by (simp add: Size_body_def)
  next
    case (ResultDesc ok er)
    with node variant have "to_opt (sizeResult r al sz ok er) = Some s"
      by (simp add: despecialize_def sizeResult_variant)
    then show ?thesis using ResultDesc by (simp add: Size_body_def)
  next
    case (FixedListDesc e n)
    with node obtain u s1 where u: "resolveType r (Some e) = Inr u" "f u = Some (s1, a)" "s = unat n * s1" "n \<noteq> 0"
      by (auto simp: despecialize_def spec_node_def bind_eq_Some_conv split: sum.splits if_splits)
    then have "s1 \<le> s" by (simp add: unat_gt_0 Suc_leI)
    with fits sz [OF u(2)] obtain w where w: "sz u = Inr w" "unat w = s1" by (auto simp: fits_def)
    have "unat (w * n) = s" using u(3) w fits unat_mult_lem [of w n] by (simp add: fits_def mult.commute)
    moreover have "unat (ucast w * ucast n :: u64) = s"
    proof -
      have *: "unat (ucast x :: u64) = unat x" for x :: u32
        unfolding unsigned_ucast_eq using unsigned_less [of x, where 'a = nat]
        by (intro take_bit_nat_eq_self) (simp add: less_trans)
      then show ?thesis using u(3) w fits unat_mult_lem [of "ucast w :: u64" "ucast n"]
        by (simp add: fits_def mult.commute)
    qed
    ultimately show ?thesis using FixedListDesc u(1) w fits
      by (simp add: Size_body_def sizeFixedList_def via_def maxValueSize_def fits_def)
  next
    case (PrimitiveDesc p)
    with node prim_spec(2) [of p] show ?thesis by (simp add: despecialize_def spec_node_def Size_body_def)
  next
    case (FlagsDesc ns)
    with node flags_spec(2) [of "length ns"] show ?thesis
      by (auto simp: despecialize_def spec_node_def Size_body_def)
  qed (use node in \<open>auto simp: despecialize_def spec_node_def Size_body_def sizeList_def\<close>)
qed

lemma Size_spec: "spec_layout n r t = Some (s, a) \<Longrightarrow> fits s \<Longrightarrow> \<exists>w. Size n r t = Inr w \<and> unat w = s"
proof (induction n arbitrary: t s a)
  case (Suc n)
  show ?case unfolding Size.simps
    by (rule Size_body_spec [of "spec_layout n r"])
       (use Suc Alignment_spec spec_layout_align in \<open>auto simp: aligns_def\<close>)
qed simp

lemma pow2_max: "pow2_align a \<Longrightarrow> pow2_align b \<Longrightarrow> pow2_align (if a < b then b else a)"
  by auto

lemma pow2_foldE:
  assumes "foldE (\<lambda>m x. bindE (h x) (\<lambda>a. Inr (if m < a then a else m))) 1 xs = Inr a"
    and "\<And>x a. x \<in> set xs \<Longrightarrow> h x = Inr a \<Longrightarrow> pow2_align a"
  shows "pow2_align a"
  by (rule foldE_invariant [OF assms(1)]) (use assms(2) pow2_max in \<open>auto simp del: insert_iff split: if_splits\<close>)

lemma Alignment_body_pow2:
  assumes "\<And>u a. al u = Inr a \<Longrightarrow> pow2_align a" and body: "Alignment_body r al t = Inr a"
  shows "pow2_align a"
proof -
  have via: "pow2_align b" if "via r al tr = Inr b" for tr b
    using that assms(1) by (auto simp: via_def simp del: insert_iff)
  have prim: "pow2_align b" if "alignmentPrimitive p = Inr b" for p b
    using that by (auto simp: alignmentPrimitive_def split: if_splits)
  have tup: "pow2_align b" if "alignmentTuple r al trs = Inr b" for trs b
    using that unfolding alignmentTuple_def by (rule pow2_foldE) (rule via)
  have var: "pow2_align b" if "alignmentVariant r al cs = Inr b" for cs b
  proof -
    from that obtain d m where d: "alignmentPrimitive (DiscriminantType (length cs)) = Inr d"
      "MaxCaseAlignment r al cs = Inr m" "b = (if d < m then m else d)" by (auto simp: alignmentVariant_def)
    have "pow2_align m"
      using d(2) unfolding MaxCaseAlignment_def foldE_max_cases by (rule pow2_foldE) (rule via)
    then show ?thesis unfolding d(3) using prim [OF d(1)] by (rule pow2_max [rotated])
  qed
  show ?thesis
    using body
    by (cases t) (auto simp: Alignment_body_def alignmentRecord_tuple alignmentOption_variant alignmentResult_variant
        alignmentFixedList_def alignmentList_def alignmentFlagsNumLabels_def alignmentEnum_def Let_def
        simp del: insert_iff dest: tup var via prim split: if_splits)
qed

lemma Alignment_pow2: "Alignment n r t = Inr a \<Longrightarrow> pow2_align a"
proof (induction n arbitrary: t a)
  case (Suc n)
  then show ?case using Alignment_body_pow2 [of "Alignment n r"] by (metis Alignment.simps(2))
qed simp

lemma pow2_pos: "pow2_align a \<Longrightarrow> 0 < a"
  by (auto simp: word_gt_0)

lemma pow2_dvd_wrap: "pow2_align a \<Longrightarrow> unat a dvd 2 ^ 32"
  by auto

lemma Align_dvd_pow2: "pow2_align a \<Longrightarrow> unat a dvd unat (Align off a)"
  by (intro Align_dvd pow2_pos)

lemma sizePrimitive_dvd:
  "sizePrimitive p = Inr s \<Longrightarrow> \<exists>a. alignmentPrimitive p = Inr a \<and> unat a dvd unat s"
  by (auto simp: sizePrimitive_def alignmentPrimitive_def simp del: insert_iff split: if_splits)

lemma discriminant_size_align:
  "sizePrimitive (DiscriminantType n) = Inr d \<Longrightarrow> alignmentPrimitive (DiscriminantType n) = Inr d"
  by (auto simp: DiscriminantType_def sizePrimitive_def alignmentPrimitive_def split: if_splits)

lemma result_payload_align:
  "result_payload r al sz tr acc = Inr acc' \<Longrightarrow>
    (case tr of None \<Rightarrow> Inr (snd acc) | Some x \<Rightarrow> bindE (via r al (Some x)) (\<lambda>a. Inr (if snd acc < a then a else snd acc))) =
      Inr (snd acc')"
  by (auto simp: result_payload_def via_def split: option.splits)

text \<open>A size is the aligned end of the value, so it is a multiple of the alignment even if it wrapped.\<close>

lemma Size_body_dvd:
  assumes pow2: "\<And>u a. al u = Inr a \<Longrightarrow> pow2_align a"
    and sz: "\<And>u s. sz u = Inr s \<Longrightarrow> \<exists>a. al u = Inr a \<and> unat a dvd unat s"
    and body: "Size_body r al sz t = Inr s"
  shows "\<exists>a. Alignment_body r al t = Inr a \<and> unat a dvd unat s"
proof -
  have dvd: "unat a dvd unat (Align off a)" if "Alignment_body r al t = Inr a" for a off
    using Alignment_body_pow2 [of al, OF pow2 that] by (intro Align_dvd_pow2)
  show ?thesis
  proof (cases t)
    case (RecordDesc fs)
    with body dvd show ?thesis by (auto simp: Size_body_def sizeRecord_def Alignment_body_def)
  next
    case (TupleDesc es)
    with body dvd show ?thesis by (auto simp: Size_body_def sizeTuple_def Alignment_body_def)
  next
    case (VariantDesc cs)
    with body obtain d m o' where "sizePrimitive (DiscriminantType (length cs)) = Inr d"
      "MaxCaseAlignment r al cs = Inr m" "s = Align o' (if m < d then d else m)"
      by (auto simp: Size_body_def sizeVariant_def Let_def)
    with discriminant_size_align dvd VariantDesc show ?thesis
      by (auto simp: Alignment_body_def alignmentVariant_def if_max max.commute)
  next
    case (OptionDesc e)
    with body obtain u a w where "resolveType r (Some e) = Inr u" "al u = Inr a"
      "s = Align (Align 1 a + w) (max 1 a)" by (auto simp: Size_body_def sizeOption_def)
    moreover from this OptionDesc have "Alignment_body r al t = Inr (max 1 a)"
      by (simp add: Alignment_body_def alignmentOption_def via_def if_max)
    ultimately show ?thesis using dvd by blast
  next
    case (ResultDesc ok er)
    with body obtain acc p where acc: "result_payload r al sz ok (0, 1) = Inr acc"
      "result_payload r al sz er acc = Inr p" "s = Align (Align 1 (snd p) + fst p) (max u8_align (snd p))"
      by (auto simp: Size_body_def sizeResult_def)
    have "alignmentResult r al ok er = Inr (max 1 (snd p))"
      unfolding alignmentResult_def result_payload_align [OF acc(1), unfolded snd_conv]
      by (simp add: result_payload_align [OF acc(2)] if_max)
    then have "Alignment_body r al t = Inr (max 1 (snd p))" by (simp add: ResultDesc Alignment_body_def)
    with dvd acc(3) show ?thesis by auto
  next
    case (FixedListDesc e n)
    with body obtain u w where u: "resolveType r (Some e) = Inr u" "sz u = Inr w" "s = w * n"
      by (auto simp: Size_body_def sizeFixedList_def via_def split: if_splits)
    from sz [OF u(2)] obtain a where a: "al u = Inr a" "unat a dvd unat w" by blast
    have "unat s = (unat w * unat n) mod 2 ^ 32" unfolding u(3) by (simp add: unat_word_ariths)
    then have "unat a dvd unat s" using a(2) pow2_dvd_wrap [OF pow2 [OF a(1)]] by (simp add: dvd_mod)
    with FixedListDesc u a show ?thesis by (simp add: Alignment_body_def alignmentFixedList_def via_def)
  next
    case (PrimitiveDesc p)
    with body show ?thesis by (simp add: Size_body_def Alignment_body_def sizePrimitive_dvd)
  next
    case (FlagsDesc ns)
    with body show ?thesis
      by (auto simp: Size_body_def Alignment_body_def sizeFlagsNumLabels_def alignmentFlagsNumLabels_def split: if_splits)
  next
    case (EnumDesc cs)
    with body show ?thesis
      by (auto simp: Size_body_def Alignment_body_def sizeEnumNumCases_def alignmentEnum_def Let_def
          dest: discriminant_size_align split: if_splits)
  qed (use body in \<open>auto simp: Size_body_def Alignment_body_def sizeList_def alignmentList_def\<close>)
qed

lemma Size_dvd: "Size n r t = Inr s \<Longrightarrow> \<exists>a. Alignment n r t = Inr a \<and> unat a dvd unat s"
proof (induction n arbitrary: t s)
  case (Suc n)
  show ?case unfolding Alignment.simps
    by (rule Size_body_dvd [of "Alignment n r" "Size n r"]) (use Suc Alignment_pow2 in \<open>auto simp del: insert_iff\<close>)
qed simp

lemma Align_fix: "pow2_align a \<Longrightarrow> Align off a = off \<longleftrightarrow> unat a dvd unat off"
proof
  assume a: "pow2_align a" and d: "unat a dvd unat off"
  have "unat off + unat a \<le> 2 ^ 32"
  proof -
    have "unat off < 2 ^ 32" using unsigned_less [of off, where 'a = nat] by simp
    moreover have "unat a dvd 2 ^ 32 - unat off"
      using pow2_dvd_wrap [OF a] d by (rule dvd_diff_nat)
    ultimately have "unat a \<le> 2 ^ 32 - unat off" by (intro dvd_imp_le) auto
    with \<open>unat off < 2 ^ 32\<close> show ?thesis by linarith
  qed
  from unat_Align [OF pow2_pos [OF a] this] have "unat (Align off a) = unat off"
    using align_to_props(2,4) [of "unat a" "unat off"] d a by (auto intro: le_antisym)
  then show "Align off a = off" by (rule unsigned_word_eqI)
next
  assume "pow2_align a" "Align off a = off"
  then show "unat a dvd unat off" using Align_dvd_pow2 [of a off] by simp
qed

lemma walk_numeral [simp]:
  "spec_layout (numeral k) r t = spec_node r (spec_layout (pred_numeral k) r) (despecialize t)"
  "Alignment (numeral k) r t = Alignment_body r (Alignment (pred_numeral k) r) t"
  "Size (numeral k) r t = Size_body r (Alignment (pred_numeral k) r) (Size (pred_numeral k) r) t"
  "depth_within (numeral k) r t = (\<forall>u \<in> set (layout_children r t). depth_within (pred_numeral k) r u)"
  by (simp_all add: numeral_eq_Suc)

section \<open>Properties\<close>

text \<open>
  C1. \<^verbatim>\<open>Alignment\<close> and \<^verbatim>\<open>Size\<close> refine the Canonical ABI: on every type that the specification
  lays out in fewer than \<open>2 ^ 28\<close> bytes they succeed and return the specified numbers, so no
  32-bit offset of the computation wraps. Tuples, enums, options and results are laid out
  as the records and variants they abbreviate.
\<close>

theorem layout_refines_canonical_abi:
  assumes "spec_layout n r t = Some (S, A)" and "S < 2 ^ 28"
  shows "(\<exists>a. Alignment n r t = Inr a \<and> unat a = A) \<and> (\<exists>s. Size n r t = Inr s \<and> unat s = S)"
  using Alignment_spec [OF assms(1)] Size_spec [OF assms(1)] assms(2) by (auto simp: fits_def)

theorem layout_refines_canonical_abi_witness:
  "spec_layout 4 sample_resolver sample_type = Some (40, 8) \<and>
   (\<exists>a. Alignment 4 sample_resolver sample_type = Inr a \<and> unat a = 8) \<and>
   (\<exists>s. Size 4 sample_resolver sample_type = Inr s \<and> unat s = 40)"
proof -
  have "spec_layout 4 sample_resolver sample_type = Some (40, 8)" by (simp add: sample_type_def sample_resolver_def spec_node_def despecialize_def index_ref_def prim_ref_def resolveType_def primDesc_def primDescs_def spec_prim_def List.map_filter_simps place.simps max_align_def max_size_def align_to_def spec_discriminant_def)
  with layout_refines_canonical_abi [OF this] show ?thesis by simp
qed

text \<open>
  Whenever a size is returned, the alignment of the same type is one of 1, 2, 4 and 8, and
  it divides the size: elements laid out back to back stay aligned, even for types so large
  that the 32-bit size wrapped.
\<close>

theorem size_multiple_of_alignment:
  assumes "Size n r t = Inr s"
  shows "\<exists>a. Alignment n r t = Inr a \<and> a \<in> {1, 2, 4, 8} \<and> unat a dvd unat s"
proof -
  from Size_dvd [OF assms] obtain a where a: "Alignment n r t = Inr a" "unat a dvd unat s" by blast
  with Alignment_pow2 [OF a(1)] show ?thesis by blast
qed

theorem size_multiple_of_alignment_witness:
  "Size 4 sample_resolver sample_type = Inr 40 \<and>
   (\<exists>a. Alignment 4 sample_resolver sample_type = Inr a \<and> a \<in> {1, 2, 4, 8} \<and> unat a dvd unat (40 :: u32))"
proof -
  have "Size 4 sample_resolver sample_type = Inr 40" by code_simp
  with size_multiple_of_alignment [OF this] show ?thesis by blast
qed

text \<open>
  C33. Termination of the layout walks: on a type graph of depth at most \<open>n\<close>, \<open>n\<close> stack frames
  are enough for \<^verbatim>\<open>Alignment\<close> and \<^verbatim>\<open>Size\<close> to return, and more frames change no result.
\<close>

theorem layout_walks_return:
  assumes "depth_within n r t" and "n \<le> m"
  shows "Alignment m r t = Alignment n r t \<and> Alignment m r t \<noteq> Inl Stack_overflow \<and>
    Size m r t = Size n r t \<and> Size m r t \<noteq> Inl Stack_overflow"
  using alignment.enough_stack [OF assms] layout_size.enough_stack [OF assms] by blast

theorem layout_walks_return_witness:
  "depth_within 4 sample_resolver sample_type \<and>
   Size 100 sample_resolver sample_type = Size 4 sample_resolver sample_type \<and>
   Alignment 100 sample_resolver sample_type = Alignment 4 sample_resolver sample_type"
proof -
  have d: "depth_within 4 sample_resolver sample_type"
    by (simp add: sample_type_def sample_resolver_def layout_children_def index_ref_def prim_ref_def
        resolveType_def primDesc_def primDescs_def List.map_filter_simps)
  then show ?thesis using layout_walks_return [OF d, of 100] by (simp del: walk_numeral)
qed

text \<open>
  Rounding up: \<^verbatim>\<open>Align\<close> gives the least multiple that is not below the offset, unless the
  sum wraps; and for every offset, wrapping or not, comparing an offset with its rounded
  value (the alignment check of the memory accesses) decides divisibility.
\<close>

theorem Align_rounds_up:
  assumes "a \<in> {1, 2, 4, 8}"
  shows "(Align off a = off \<longleftrightarrow> unat a dvd unat off) \<and>
    (unat off + unat a \<le> 2 ^ 32 \<longrightarrow>
       unat (Align off a) = (LEAST m. unat a dvd m \<and> unat off \<le> m))"
proof -
  have pos: "0 < unat a" using assms by auto
  have "unat (Align off a) = (LEAST m. unat a dvd m \<and> unat off \<le> m)" if "unat off + unat a \<le> 2 ^ 32"
  proof -
    have "(LEAST m. unat a dvd m \<and> unat off \<le> m) = align_to (unat off) (unat a)"
      by (rule Least_equality) (use align_to_props [OF pos] in auto)
    then show ?thesis using unat_Align [OF pow2_pos [OF assms] that] by simp
  qed
  then show ?thesis using Align_fix [OF assms] by blast
qed

theorem Align_rounds_up_witness:
  "(Align 0xFFFFFFFF 4 = 0xFFFFFFFF \<longleftrightarrow> unat (4::u32) dvd unat (0xFFFFFFFF::u32)) \<and> Align 0xFFFFFFFF 4 = 0 \<and>
   unat (Align 5 4) = (LEAST m. unat (4::u32) dvd m \<and> unat (5::u32) \<le> m)"
  using Align_rounds_up [of 4 "0xFFFFFFFF"] Align_rounds_up [of 4 5] by (simp add: Align_def)

text \<open>
  The discriminant type is the narrowest: for \<open>k\<close> cases with \<open>0 < k < 2 ^ 32\<close> its size in
  bytes is the least of 1, 2 and 4 that holds \<open>k - 1\<close>, and there is none for other \<open>k\<close>.
\<close>

theorem discriminant_narrowest:
  "(case sizePrimitive (DiscriminantType k) of
      Inl _ \<Rightarrow> k = 0 \<or> 2 ^ 32 \<le> k
    | Inr d \<Rightarrow> 0 < k \<and> k < 2 ^ 32 \<and> unat d \<in> {1, 2, 4} \<and> k - 1 < 256 ^ unat d \<and>
        (unat d = 1 \<or> 256 ^ (unat d div 2) < k))"
  by (auto simp: DiscriminantType_def sizePrimitive_def)

end
