(* ===== verification/Abi_Load.thy ===== *)
theory Abi_Load
  imports Abi_Layout
begin

unbundle bit_operations_syntax

text \<open>
  Component values and how they are read from linear memory: \<^verbatim>\<open>abi/value.go\<close>, the \<^verbatim>\<open>Load\<close> half of
  \<^verbatim>\<open>abi/memory.go\<close> and the typed lists of \<^verbatim>\<open>abi/scalarlist.go\<close>. A Go value is an \<^verbatim>\<open>any\<close> whose dynamic type the
  code inspects, so the constructors below are the Go types, not the component types: a signed
  32-bit integer and a character (a Go rune) are the same type, and a missing option is nil.
  Floating-point numbers are their bit patterns, which is what the code moves. Offsets are 32-bit
  words that wrap; a slice expression whose bounds are out of order is Go's run-time panic.
\<close>

section \<open>Values\<close>

datatype val =
    VNil
  | VBool bool
  | VU32 u32
  | VS32 u32
  | VU64 u64
  | VS64 u64
  | VF32 u32
  | VF64 u64
  | VString bytes
  | VList "val list"
  | VVariant u32 val
  | VResult bool val
  | VBytes "u8 list"
  | VInt8s "u8 list"
  | VBools "bool list"
  | VUint16s "16 word list"
  | VInt16s "16 word list"
  | VUint32s "u32 list"
  | VInt32s "u32 list"
  | VUint64s "u64 list"
  | VInt64s "u64 list"
  | VFloat32s "u32 list"
  | VFloat64s "u64 list"

datatype mem_error =
    Abi abi_error
  | Misaligned u32 u32
  | Buffer_overflow u32 u32
  | Int_overflow u32 u32
  | Bad_width u32
  | Char_out_of_range u32
  | Char_surrogate u32
  | Bad_primitive string
  | Bad_type
  | String_overflow u32 u32
  | Invalid_utf8 u32 u32
  | List_overflow u32 u32
  | List_misaligned u32 u32
  | List_length_overflow u32 u32
  | Case_out_of_range u32 nat
  | Bad_option u32
  | Bad_result u32
  | Wrong_value string
  | Wrong_length nat nat
  | Payload_required u32
  | No_realloc
  | Realloc_failed string
  | Allocated_out_of_bounds u32 u32
  | Too_long nat
  | Panic_slice u32 u32
  | Panic_assertion
  | Panic_index
  | Panic_kind string string
  | Iter_exhausted
  | No_discriminant
  | Unknown_kind string
  | Wrong_count nat nat

text \<open>Errors of the layout functions pass through.\<close>

definition abiE :: "abi_error + 'a \<Rightarrow> mem_error + 'a" where
  "abiE x = (case x of Inl e \<Rightarrow> Inl (Abi e) | Inr a \<Rightarrow> Inr a)"

section \<open>Bytes of linear memory\<close>

definition mem_len :: "bytes \<Rightarrow> u32" where
  "mem_len mem = of_nat (length mem)"

text \<open>The slice expression \<^verbatim>\<open>mem[lo:hi]\<close>.\<close>

definition slice :: "bytes \<Rightarrow> u32 \<Rightarrow> u32 \<Rightarrow> mem_error + bytes" where
  "slice mem lo hi =
     (if hi < lo \<or> length mem < unat hi then Inl (Panic_slice lo hi)
      else Inr (bslice (unat lo) (unat hi) mem))"

text \<open>\<^verbatim>\<open>LittleEndian.Uint16\<close>, \<^verbatim>\<open>Uint32\<close> and \<^verbatim>\<open>Uint64\<close> read the first bytes of a slice.\<close>

definition getU16 :: "bytes \<Rightarrow> 16 word" where "getU16 b = of_nat (le_nat (take 2 b))"

definition getU32 :: "bytes \<Rightarrow> u32" where "getU32 b = of_nat (le_nat (take 4 b))"

definition getU64 :: "bytes \<Rightarrow> u64" where "getU64 b = of_nat (le_nat (take 8 b))"

text \<open>\<^verbatim>\<open>utf8.Valid\<close> of the standard library: continuation bytes, and the ranges of the second byte.\<close>

definition cont_byte :: "u8 \<Rightarrow> bool" where
  "cont_byte b \<longleftrightarrow> 0x80 \<le> b \<and> b \<le> 0xBF"

text \<open>The length of the well-formed sequence that starts a byte string, or 0.\<close>

definition utf8_seq :: "bytes \<Rightarrow> nat" where
  "utf8_seq bs =
     (case bs of
        [] \<Rightarrow> 0
      | a # cs \<Rightarrow>
          if a < 0x80 then 1
          else if 0xC2 \<le> a \<and> a \<le> 0xDF then
            (if 1 \<le> length cs \<and> cont_byte (cs ! 0) then 2 else 0)
          else if 0xE0 \<le> a \<and> a \<le> 0xEF then
            (if 2 \<le> length cs \<and> cont_byte (cs ! 0) \<and> cont_byte (cs ! 1) \<and>
                (a = 0xE0 \<longrightarrow> 0xA0 \<le> cs ! 0) \<and> (a = 0xED \<longrightarrow> cs ! 0 \<le> 0x9F) then 3 else 0)
          else if 0xF0 \<le> a \<and> a \<le> 0xF4 then
            (if 3 \<le> length cs \<and> cont_byte (cs ! 0) \<and> cont_byte (cs ! 1) \<and> cont_byte (cs ! 2) \<and>
                (a = 0xF0 \<longrightarrow> 0x90 \<le> cs ! 0) \<and> (a = 0xF4 \<longrightarrow> cs ! 0 \<le> 0x8F) then 4 else 0)
          else 0)"

function utf8_valid :: "bytes \<Rightarrow> bool" where
  "utf8_valid bs = (if bs = [] then True else if utf8_seq bs = 0 then False else utf8_valid (drop (utf8_seq bs) bs))"
  by pat_completeness auto

termination utf8_valid
  by (relation "measure length") auto

declare utf8_valid.simps [simp del]

section \<open>Reading primitives\<close>

definition loadInt :: "bytes \<Rightarrow> u32 \<Rightarrow> u32 \<Rightarrow> bool \<Rightarrow> mem_error + val" where
  "loadInt mem ptr nbytes sgnd =
     (if mem_len mem < ptr + nbytes then Inl (Int_overflow ptr nbytes)
      else bindE (slice mem ptr (ptr + nbytes)) (\<lambda>b.
        if nbytes = 1 then Inr (if sgnd then VS32 (scast (hd b)) else VU32 (ucast (hd b)))
        else if nbytes = 2 then Inr (if sgnd then VS32 (scast (getU16 b)) else VU32 (ucast (getU16 b)))
        else if nbytes = 4 then Inr (if sgnd then VS32 (getU32 b) else VU32 (getU32 b))
        else if nbytes = 8 then Inr (if sgnd then VS64 (getU64 b) else VU64 (getU64 b))
        else Inl (Bad_width nbytes)))"

text \<open>The type assertions \<^verbatim>\<open>v.(uint32)\<close> and \<^verbatim>\<open>v.(uint64)\<close>.\<close>

definition as_u32 :: "val \<Rightarrow> mem_error + u32" where
  "as_u32 v = (case v of VU32 u \<Rightarrow> Inr u | _ \<Rightarrow> Inl Panic_assertion)"

definition as_u64 :: "val \<Rightarrow> mem_error + u64" where
  "as_u64 v = (case v of VU64 u \<Rightarrow> Inr u | _ \<Rightarrow> Inl Panic_assertion)"

definition readU32LE :: "bytes \<Rightarrow> u32 \<Rightarrow> mem_error + u32" where
  "readU32LE mem ptr =
     (if mem_len mem < ptr + 4 then Inl (Int_overflow ptr 4)
      else bindE (slice mem ptr (ptr + 4)) (\<lambda>b. Inr (getU32 b)))"

definition loadStringFromRange :: "bytes \<Rightarrow> u32 \<Rightarrow> u32 \<Rightarrow> mem_error + bytes" where
  "loadStringFromRange mem ptr byteLen =
     (if mem_len mem < ptr + byteLen then Inl (String_overflow ptr byteLen)
      else bindE (slice mem ptr (ptr + byteLen)) (\<lambda>b.
        if \<not> utf8_valid b then Inl (Invalid_utf8 ptr byteLen) else Inr b))"

definition loadString :: "bytes \<Rightarrow> u32 \<Rightarrow> mem_error + val" where
  "loadString mem ptr =
     bindE (readU32LE mem ptr) (\<lambda>strPtr.
     bindE (readU32LE mem (ptr + 4)) (\<lambda>strLen.
     bindE (loadStringFromRange mem strPtr strLen) (\<lambda>s. Inr (VString s))))"

definition check_char :: "u32 \<Rightarrow> mem_error + u32" where
  "check_char i =
     (if 0x110000 \<le> i then Inl (Char_out_of_range i)
      else if 0xD800 \<le> i \<and> i \<le> 0xDFFF then Inl (Char_surrogate i) else Inr i)"

definition loadPrimitive :: "bytes \<Rightarrow> u32 \<Rightarrow> string \<Rightarrow> mem_error + val" where
  "loadPrimitive mem ptr prim =
     (if prim = ''bool'' then
        bindE (loadInt mem ptr 1 False) (\<lambda>v. bindE (as_u32 v) (\<lambda>u. Inr (VBool (u \<noteq> 0))))
      else if prim = ''u8'' then loadInt mem ptr 1 False
      else if prim = ''u16'' then loadInt mem ptr 2 False
      else if prim = ''u32'' then loadInt mem ptr 4 False
      else if prim = ''s8'' then loadInt mem ptr 1 True
      else if prim = ''s16'' then loadInt mem ptr 2 True
      else if prim = ''s32'' then loadInt mem ptr 4 True
      else if prim = ''u64'' then loadInt mem ptr 8 False
      else if prim = ''s64'' then loadInt mem ptr 8 True
      else if prim = ''f32'' then bindE (loadInt mem ptr 4 False) (\<lambda>v. bindE (as_u32 v) (\<lambda>u. Inr (VF32 u)))
      else if prim = ''f64'' then bindE (loadInt mem ptr 8 False) (\<lambda>v. bindE (as_u64 v) (\<lambda>u. Inr (VF64 u)))
      else if prim = ''char'' then
        bindE (loadInt mem ptr 4 False) (\<lambda>v. bindE (as_u32 v) (\<lambda>i. bindE (check_char i) (\<lambda>i. Inr (VS32 i))))
      else if prim = ''string'' then loadString mem ptr
      else if prim = ''error-context'' then loadInt mem ptr 4 False
      else Inl (Bad_primitive prim))"

section \<open>Lists of fixed-width primitives\<close>

definition scalarPrim :: "type_desc \<Rightarrow> string option" where
  "scalarPrim t = (case t of PrimitiveDesc p \<Rightarrow> Some p | _ \<Rightarrow> None)"

definition scalarListSpan :: "bytes \<Rightarrow> u32 \<Rightarrow> u32 \<Rightarrow> u32 \<Rightarrow> mem_error + bytes" where
  "scalarListSpan mem ptr len elemSize =
     (let byteLen = len * elemSize in
      if elemSize \<noteq> 0 \<and> 0xFFFFFFFF div elemSize < len then Inl (List_length_overflow len elemSize)
      else if ptr + byteLen < ptr \<or> mem_len mem < ptr + byteLen then Inl (List_overflow ptr byteLen)
      else slice mem ptr (ptr + byteLen))"

definition decodeScalarList ::
  "bytes \<Rightarrow> u32 \<Rightarrow> u32 \<Rightarrow> u32 \<Rightarrow> (bytes \<Rightarrow> mem_error + 'a) \<Rightarrow> mem_error + 'a list" where
  "decodeScalarList mem ptr len elemSize dec =
     bindE (scalarListSpan mem ptr len elemSize) (\<lambda>span.
       mapE (\<lambda>i. dec (drop (i * unat elemSize) span)) [0..<unat len])"

text \<open>The answer is \<open>None\<close> for a primitive that has no typed slice.\<close>

definition liftScalarList :: "bytes \<Rightarrow> u32 \<Rightarrow> u32 \<Rightarrow> string \<Rightarrow> (mem_error + val) option" where
  "liftScalarList mem ptr len prim =
     (if prim = ''u8'' then Some (bindE (scalarListSpan mem ptr len 1) (\<lambda>span. Inr (VBytes span)))
      else if prim = ''s8'' then Some (bindE (decodeScalarList mem ptr len 1 (\<lambda>b. Inr (hd b))) (\<lambda>xs. Inr (VInt8s xs)))
      else if prim = ''bool'' then Some (bindE (decodeScalarList mem ptr len 1 (\<lambda>b. Inr (hd b \<noteq> 0))) (\<lambda>xs. Inr (VBools xs)))
      else if prim = ''u16'' then Some (bindE (decodeScalarList mem ptr len 2 (\<lambda>b. Inr (getU16 b))) (\<lambda>xs. Inr (VUint16s xs)))
      else if prim = ''s16'' then Some (bindE (decodeScalarList mem ptr len 2 (\<lambda>b. Inr (getU16 b))) (\<lambda>xs. Inr (VInt16s xs)))
      else if prim = ''u32'' then Some (bindE (decodeScalarList mem ptr len 4 (\<lambda>b. Inr (getU32 b))) (\<lambda>xs. Inr (VUint32s xs)))
      else if prim = ''s32'' then Some (bindE (decodeScalarList mem ptr len 4 (\<lambda>b. Inr (getU32 b))) (\<lambda>xs. Inr (VInt32s xs)))
      else if prim = ''u64'' then Some (bindE (decodeScalarList mem ptr len 8 (\<lambda>b. Inr (getU64 b))) (\<lambda>xs. Inr (VUint64s xs)))
      else if prim = ''s64'' then Some (bindE (decodeScalarList mem ptr len 8 (\<lambda>b. Inr (getU64 b))) (\<lambda>xs. Inr (VInt64s xs)))
      else if prim = ''f32'' then Some (bindE (decodeScalarList mem ptr len 4 (\<lambda>b. Inr (getU32 b))) (\<lambda>xs. Inr (VFloat32s xs)))
      else if prim = ''f64'' then Some (bindE (decodeScalarList mem ptr len 8 (\<lambda>b. Inr (getU64 b))) (\<lambda>xs. Inr (VFloat64s xs)))
      else if prim = ''char'' then Some (bindE (decodeScalarList mem ptr len 4 (\<lambda>b. check_char (getU32 b))) (\<lambda>xs. Inr (VInt32s xs)))
      else None)"

section \<open>Reading composite values\<close>

text \<open>
  A Go function that reads a child takes that call as an argument (\<open>ld\<close>), and the layout calls on
  children as \<open>al\<close> and \<open>sz\<close>; \<open>loadValue\<close> ties the knot with a stack depth, as the layout walks do.
\<close>

text \<open>The loop over \<open>k\<close> elements from index \<open>i\<close>.\<close>

fun load_elems :: "(u32 \<Rightarrow> mem_error + val) \<Rightarrow> u32 \<Rightarrow> u32 \<Rightarrow> nat \<Rightarrow> nat \<Rightarrow> mem_error + val list" where
  "load_elems ld ptr elemSize i 0 = Inr []"
| "load_elems ld ptr elemSize i (Suc k) =
     bindE (ld (ptr + of_nat i * elemSize)) (\<lambda>v.
     bindE (load_elems ld ptr elemSize (Suc i) k) (\<lambda>vs. Inr (v # vs)))"

definition loadListFromRange ::
  "(type_desc \<Rightarrow> abi_error + u32) \<Rightarrow> (type_desc \<Rightarrow> abi_error + u32) \<Rightarrow> (u32 \<Rightarrow> type_desc \<Rightarrow> mem_error + val) \<Rightarrow>
   bytes \<Rightarrow> u32 \<Rightarrow> u32 \<Rightarrow> type_desc \<Rightarrow> mem_error + val list" where
  "loadListFromRange al sz ld mem ptr len elemType =
     bindE (abiE (sz elemType)) (\<lambda>elemSize.
     bindE (abiE (al elemType)) (\<lambda>elemAlign.
     let byteLen = len * elemSize in
     if mem_len mem < ptr + byteLen then Inl (List_overflow ptr byteLen)
     else if ptr \<noteq> Align ptr elemAlign then Inl (List_misaligned ptr elemAlign)
     else load_elems (\<lambda>p. ld p elemType) ptr elemSize 0 (unat len)))"

definition loadAnyListFromRange ::
  "(type_desc \<Rightarrow> abi_error + u32) \<Rightarrow> (type_desc \<Rightarrow> abi_error + u32) \<Rightarrow> (u32 \<Rightarrow> type_desc \<Rightarrow> mem_error + val) \<Rightarrow>
   bytes \<Rightarrow> u32 \<Rightarrow> u32 \<Rightarrow> type_desc \<Rightarrow> mem_error + val" where
  "loadAnyListFromRange al sz ld mem ptr len elemType =
     (case Option.bind (scalarPrim elemType) (liftScalarList mem ptr len) of
        Some res \<Rightarrow> res
      | None \<Rightarrow> bindE (loadListFromRange al sz ld mem ptr len elemType) (\<lambda>vs. Inr (VList vs)))"

definition loadList ::
  "(type_desc \<Rightarrow> abi_error + u32) \<Rightarrow> (type_desc \<Rightarrow> abi_error + u32) \<Rightarrow> (u32 \<Rightarrow> type_desc \<Rightarrow> mem_error + val) \<Rightarrow>
   bytes \<Rightarrow> u32 \<Rightarrow> type_desc \<Rightarrow> mem_error + val" where
  "loadList al sz ld mem ptr elemType =
     bindE (bindE (loadInt mem ptr 4 False) as_u32) (\<lambda>listPtr.
     bindE (bindE (loadInt mem (ptr + 4) 4 False) as_u32) (\<lambda>listLen.
     loadAnyListFromRange al sz ld mem listPtr listLen elemType))"

text \<open>The loop of \<^verbatim>\<open>loadRecord\<close> and \<^verbatim>\<open>loadTuple\<close>.\<close>

fun load_fields ::
  "resolver \<Rightarrow> (type_desc \<Rightarrow> abi_error + u32) \<Rightarrow> (type_desc \<Rightarrow> abi_error + u32) \<Rightarrow> (u32 \<Rightarrow> type_desc \<Rightarrow> mem_error + val) \<Rightarrow>
   u32 \<Rightarrow> type_ref list \<Rightarrow> mem_error + val list" where
  "load_fields r al sz ld offset [] = Inr []"
| "load_fields r al sz ld offset (tr # trs) =
     bindE (abiE (resolveType r (Some tr))) (\<lambda>fieldType.
     bindE (abiE (al fieldType)) (\<lambda>fieldAlign.
     let offset = Align offset fieldAlign in
     bindE (ld offset fieldType) (\<lambda>v.
     bindE (abiE (sz fieldType)) (\<lambda>fieldSize.
     bindE (load_fields r al sz ld (offset + fieldSize) trs) (\<lambda>vs. Inr (v # vs))))))"

definition loadRecord ::
  "resolver \<Rightarrow> (type_desc \<Rightarrow> abi_error + u32) \<Rightarrow> (type_desc \<Rightarrow> abi_error + u32) \<Rightarrow> (u32 \<Rightarrow> type_desc \<Rightarrow> mem_error + val) \<Rightarrow>
   u32 \<Rightarrow> (string \<times> type_ref) list \<Rightarrow> mem_error + val" where
  "loadRecord r al sz ld ptr fs = bindE (load_fields r al sz ld ptr (map snd fs)) (\<lambda>vs. Inr (VList vs))"

definition loadTuple ::
  "resolver \<Rightarrow> (type_desc \<Rightarrow> abi_error + u32) \<Rightarrow> (type_desc \<Rightarrow> abi_error + u32) \<Rightarrow> (u32 \<Rightarrow> type_desc \<Rightarrow> mem_error + val) \<Rightarrow>
   u32 \<Rightarrow> type_ref list \<Rightarrow> mem_error + val" where
  "loadTuple r al sz ld ptr es = bindE (load_fields r al sz ld ptr es) (\<lambda>vs. Inr (VList vs))"

definition loadVariant ::
  "resolver \<Rightarrow> (type_desc \<Rightarrow> abi_error + u32) \<Rightarrow> (u32 \<Rightarrow> type_desc \<Rightarrow> mem_error + val) \<Rightarrow>
   bytes \<Rightarrow> u32 \<Rightarrow> (string \<times> type_ref option) list \<Rightarrow> mem_error + val" where
  "loadVariant r al ld mem ptr cases =
     bindE (abiE (sizePrimitive (DiscriminantType (length cases)))) (\<lambda>discSize.
     bindE (bindE (loadInt mem ptr discSize False) as_u32) (\<lambda>caseIdx.
     if length cases \<le> unat caseIdx then Inl (Case_out_of_range caseIdx (length cases))
     else
       bindE (abiE (MaxCaseAlignment r al cases)) (\<lambda>maxCaseAlign.
       let offset = Align (ptr + discSize) maxCaseAlign in
       case snd (cases ! unat caseIdx) of
         None \<Rightarrow> Inr (VVariant caseIdx VNil)
       | Some tr \<Rightarrow>
           bindE (abiE (resolveType r (Some tr))) (\<lambda>caseType.
           bindE (ld offset caseType) (\<lambda>payload. Inr (VVariant caseIdx payload))))))"

definition flagsBitMask :: "nat \<Rightarrow> u32" where
  "flagsBitMask numLabels = drop_bit (32 - numLabels) (-1)"

definition loadFlags :: "bytes \<Rightarrow> u32 \<Rightarrow> string list \<Rightarrow> mem_error + val" where
  "loadFlags mem ptr names =
     bindE (abiE (sizeFlagsNumLabels (length names))) (\<lambda>flagsSize.
     bindE (bindE (loadInt mem ptr flagsSize False) as_u32) (\<lambda>bits.
     Inr (VU32 (bits AND flagsBitMask (length names)))))"

definition loadEnum :: "bytes \<Rightarrow> u32 \<Rightarrow> string list \<Rightarrow> mem_error + val" where
  "loadEnum mem ptr cases =
     bindE (abiE (sizeEnumNumCases (length cases))) (\<lambda>enumSize.
     bindE (bindE (loadInt mem ptr enumSize False) as_u32) (\<lambda>idx.
     if length cases \<le> unat idx then Inl (Case_out_of_range idx (length cases)) else Inr (VU32 idx)))"

definition loadOption ::
  "(type_desc \<Rightarrow> abi_error + u32) \<Rightarrow> (u32 \<Rightarrow> type_desc \<Rightarrow> mem_error + val) \<Rightarrow> bytes \<Rightarrow> u32 \<Rightarrow> type_desc \<Rightarrow> mem_error + val" where
  "loadOption al ld mem ptr elemType =
     bindE (bindE (loadInt mem ptr 1 False) as_u32) (\<lambda>discIdx.
     bindE (abiE (al elemType)) (\<lambda>elemAlign.
     let offset = Align (ptr + 1) elemAlign in
     if discIdx = 0 then Inr VNil
     else if discIdx = 1 then ld offset elemType
     else Inl (Bad_option discIdx)))"

text \<open>One arm's share of the alignment of a result's payload.\<close>

definition arm_align ::
  "resolver \<Rightarrow> (type_desc \<Rightarrow> abi_error + u32) \<Rightarrow> type_ref option \<Rightarrow> u32 \<Rightarrow> mem_error + u32" where
  "arm_align r al arm maxAlign =
     (case arm of
        None \<Rightarrow> Inr maxAlign
      | Some tr \<Rightarrow>
          bindE (abiE (resolveType r (Some tr))) (\<lambda>t.
          bindE (abiE (al t)) (\<lambda>a. Inr (if maxAlign < a then a else maxAlign))))"

definition load_arm ::
  "resolver \<Rightarrow> (u32 \<Rightarrow> type_desc \<Rightarrow> mem_error + val) \<Rightarrow> u32 \<Rightarrow> type_ref option \<Rightarrow> mem_error + val" where
  "load_arm r ld offset arm =
     (case arm of
        None \<Rightarrow> Inr VNil
      | Some tr \<Rightarrow> bindE (abiE (resolveType r (Some tr))) (\<lambda>t. ld offset t))"

definition loadResult ::
  "resolver \<Rightarrow> (type_desc \<Rightarrow> abi_error + u32) \<Rightarrow> (u32 \<Rightarrow> type_desc \<Rightarrow> mem_error + val) \<Rightarrow>
   bytes \<Rightarrow> u32 \<Rightarrow> type_ref option \<Rightarrow> type_ref option \<Rightarrow> mem_error + val" where
  "loadResult r al ld mem ptr ok er =
     bindE (bindE (loadInt mem ptr 1 False) as_u32) (\<lambda>discIdx.
     bindE (arm_align r al ok 1) (\<lambda>maxAlign.
     bindE (arm_align r al er maxAlign) (\<lambda>maxAlign.
     let offset = Align (ptr + 1) maxAlign in
     if discIdx = 0 then bindE (load_arm r ld offset ok) (\<lambda>payload. Inr (VResult False payload))
     else if discIdx = 1 then bindE (load_arm r ld offset er) (\<lambda>payload. Inr (VResult True payload))
     else Inl (Bad_result discIdx))))"

definition mapElemType :: "type_ref \<Rightarrow> type_ref \<Rightarrow> type_desc" where
  "mapElemType key value = TupleDesc [key, value]"

definition load_body ::
  "resolver \<Rightarrow> (type_desc \<Rightarrow> abi_error + u32) \<Rightarrow> (type_desc \<Rightarrow> abi_error + u32) \<Rightarrow> (u32 \<Rightarrow> type_desc \<Rightarrow> mem_error + val) \<Rightarrow>
   bytes \<Rightarrow> u32 \<Rightarrow> type_desc \<Rightarrow> mem_error + val" where
  "load_body r al sz ld mem ptr t =
     (case t of
        PrimitiveDesc p \<Rightarrow> loadPrimitive mem ptr p
      | ListDesc e \<Rightarrow> bindE (abiE (resolveType r (Some e))) (loadList al sz ld mem ptr)
      | MapDesc key val \<Rightarrow> loadList al sz ld mem ptr (mapElemType key val)
      | FixedListDesc e n \<Rightarrow> bindE (abiE (resolveType r (Some e))) (loadAnyListFromRange al sz ld mem ptr n)
      | RecordDesc fs \<Rightarrow> loadRecord r al sz ld ptr fs
      | VariantDesc cs \<Rightarrow> loadVariant r al ld mem ptr cs
      | TupleDesc es \<Rightarrow> loadTuple r al sz ld ptr es
      | FlagsDesc ns \<Rightarrow> loadFlags mem ptr ns
      | EnumDesc cs \<Rightarrow> loadEnum mem ptr cs
      | OptionDesc e \<Rightarrow> bindE (abiE (resolveType r (Some e))) (loadOption al ld mem ptr)
      | ResultDesc ok er \<Rightarrow> loadResult r al ld mem ptr ok er
      | OwnDesc _ \<Rightarrow> loadInt mem ptr 4 False | BorrowDesc _ \<Rightarrow> loadInt mem ptr 4 False
      | StreamDesc _ \<Rightarrow> loadInt mem ptr 4 False | FutureDesc _ \<Rightarrow> loadInt mem ptr 4 False
      | _ \<Rightarrow> Inl Bad_type)"

fun loadValue :: "nat \<Rightarrow> resolver \<Rightarrow> bytes \<Rightarrow> u32 \<Rightarrow> type_desc \<Rightarrow> mem_error + val" where
  "loadValue 0 r mem ptr t = Inl (Abi Stack_overflow)"
| "loadValue (Suc n) r mem ptr t = load_body r (Alignment n r) (Size n r) (loadValue n r mem) mem ptr t"

definition Load :: "nat \<Rightarrow> resolver \<Rightarrow> bytes \<Rightarrow> u32 \<Rightarrow> type_desc \<Rightarrow> mem_error + val" where
  "Load n r mem ptr t =
     bindE (abiE (Alignment n r t)) (\<lambda>align.
     if ptr \<noteq> Align ptr align then Inl (Misaligned ptr align)
     else
       bindE (abiE (Size n r t)) (\<lambda>size.
       if mem_len mem < ptr + size then Inl (Buffer_overflow ptr size)
       else loadValue n r mem ptr t))"

end
