(* ===== verification/Abi_Store.thy ===== *)
theory Abi_Store
  imports Abi_Load
begin

unbundle bit_operations_syntax

text \<open>
  Writing component values into linear memory: the \<^verbatim>\<open>Store\<close> half of \<^verbatim>\<open>abi/memory.go\<close>, the typed lists of
  \<^verbatim>\<open>scalarlist.go\<close>, the fixed-length lists of \<^verbatim>\<open>fixedlist.go\<close> and the compiled plans of \<^verbatim>\<open>plan.go\<close>. Strings and
  lists are placed in blocks that the guest's \<^verbatim>\<open>cabi_realloc\<close> returns; the guest runs on the live
  memory and may grow or move it, so the call takes and returns the memory's contents together with
  the guest's own state, and every write goes through the view that the last call left. A failed
  store is an error without the memory, which no caller uses.
\<close>

section \<open>Allocation\<close>

text \<open>
  The arguments of \<^verbatim>\<open>cabi_realloc\<close> are the old pointer and size, the alignment and the new size. It is
  absent when the core module does not export it.
\<close>

type_synonym 's call = "'s \<Rightarrow> bytes \<Rightarrow> u32 \<Rightarrow> u32 \<Rightarrow> u32 \<Rightarrow> u32 \<Rightarrow> (string + u32) \<times> bytes \<times> 's"

record 's Realloc =
  Call :: "'s call option"

type_synonym 's store = "bytes \<times> 's"

definition GrowMem ::
  "'s Realloc \<Rightarrow> u32 \<Rightarrow> u32 \<Rightarrow> u32 \<Rightarrow> u32 \<Rightarrow> 's store \<Rightarrow> mem_error + u32 \<times> 's store" where
  "GrowMem R origPtr origSize align newSize st =
     (case Call R of
        None \<Rightarrow> Inl No_realloc
      | Some f \<Rightarrow>
          (case f (snd st) (fst st) origPtr origSize align newSize of
             (Inl e, _) \<Rightarrow> Inl (Realloc_failed e)
           | (Inr ptr, mem, s) \<Rightarrow> Inr (ptr, mem, s)))"

definition checkAllocated :: "bytes \<Rightarrow> u32 \<Rightarrow> u32 \<Rightarrow> mem_error + unit" where
  "checkAllocated mem ptr sz =
     (if ptr + sz < ptr \<or> mem_len mem < ptr + sz then Inl (Allocated_out_of_bounds ptr sz) else Inr ())"

section \<open>Writing primitives\<close>

definition storeInt :: "bytes \<Rightarrow> u32 \<Rightarrow> val \<Rightarrow> u32 \<Rightarrow> mem_error + bytes" where
  "storeInt mem ptr v nbytes =
     (if ptr + nbytes < ptr \<or> mem_len mem < ptr + nbytes then Inl (Int_overflow ptr nbytes)
      else
        bindE (case v of VU32 u \<Rightarrow> Inr (ucast u) | VS32 u \<Rightarrow> Inr (ucast u) | VU64 u \<Rightarrow> Inr u | VS64 u \<Rightarrow> Inr u
               | _ \<Rightarrow> Inl (Wrong_value ''integer'')) (\<lambda>x :: u64.
        if nbytes \<in> {1, 2, 4, 8} then Inr (write_at mem (unat ptr) (le_bytes (unat nbytes) (unat x)))
        else Inl (Bad_width nbytes)))"

definition allocStoreBytes :: "'s Realloc \<Rightarrow> bytes \<Rightarrow> 's store \<Rightarrow> mem_error + u32 \<times> u32 \<times> 's store" where
  "allocStoreBytes R b st =
     (if 0xFFFFFFFF < length b then Inl (Too_long (length b))
      else
        let byteLen = of_nat (length b) in
        bindE (GrowMem R 0 0 1 byteLen st) (\<lambda>(newPtr, mem, s).
        bindE (checkAllocated mem newPtr byteLen) (\<lambda>_.
        Inr (newPtr, byteLen, write_at mem (unat newPtr) b, s))))"

definition allocStoreString :: "'s Realloc \<Rightarrow> bytes \<Rightarrow> 's store \<Rightarrow> mem_error + u32 \<times> u32 \<times> 's store" where
  "allocStoreString R s st = allocStoreBytes R s st"

text \<open>Writing the pointer and the length of a string or list at its own place.\<close>

definition store_pair :: "u32 \<Rightarrow> u32 \<times> u32 \<times> 's store \<Rightarrow> mem_error + 's store" where
  "store_pair ptr = (\<lambda>(newPtr, len, mem, s).
     bindE (storeInt mem ptr (VU32 newPtr) 4) (\<lambda>mem.
     bindE (storeInt mem (ptr + 4) (VU32 len) 4) (\<lambda>mem. Inr (mem, s))))"

definition storeString :: "'s Realloc \<Rightarrow> u32 \<Rightarrow> bytes \<Rightarrow> 's store \<Rightarrow> mem_error + 's store" where
  "storeString R ptr s st = bindE (allocStoreString R s st) (store_pair ptr)"

definition intByteSize :: "string \<Rightarrow> u32" where
  "intByteSize prim = (if prim = ''u8'' \<or> prim = ''s8'' then 1 else if prim = ''u16'' \<or> prim = ''s16'' then 2 else 4)"

text \<open>The checks of a rune, a signed number.\<close>

definition check_rune :: "u32 \<Rightarrow> mem_error + u32" where
  "check_rune i =
     (if sint i < 0 \<or> 0x110000 \<le> sint i then Inl (Char_out_of_range i)
      else if 0xD800 \<le> sint i \<and> sint i \<le> 0xDFFF then Inl (Char_surrogate i) else Inr i)"

text \<open>A write of an integer at \<open>ptr\<close> that leaves the guest's state alone.\<close>

definition put :: "u32 \<Rightarrow> u32 \<Rightarrow> 's store \<Rightarrow> val \<Rightarrow> mem_error + 's store" where
  "put ptr nbytes st v = bindE (storeInt (fst st) ptr v nbytes) (\<lambda>mem. Inr (mem, snd st))"

definition storePrimitive :: "'s Realloc \<Rightarrow> u32 \<Rightarrow> string \<Rightarrow> val \<Rightarrow> 's store \<Rightarrow> mem_error + 's store" where
  "storePrimitive R ptr prim v st =
     (if prim = ''bool'' then
        (case v of VBool b \<Rightarrow> put ptr 1 st (VU32 (if b then 1 else 0)) | _ \<Rightarrow> Inl (Wrong_value prim))
      else if prim = ''u8'' \<or> prim = ''u16'' \<or> prim = ''u32'' then
        (case v of VU32 u \<Rightarrow> put ptr (intByteSize prim) st (VU32 u) | _ \<Rightarrow> Inl (Wrong_value prim))
      else if prim = ''s8'' \<or> prim = ''s16'' \<or> prim = ''s32'' then
        (case v of VS32 i \<Rightarrow> put ptr (intByteSize prim) st (VU32 i) | _ \<Rightarrow> Inl (Wrong_value prim))
      else if prim = ''u64'' then (case v of VU64 u \<Rightarrow> put ptr 8 st (VU64 u) | _ \<Rightarrow> Inl (Wrong_value prim))
      else if prim = ''s64'' then (case v of VS64 i \<Rightarrow> put ptr 8 st (VU64 i) | _ \<Rightarrow> Inl (Wrong_value prim))
      else if prim = ''f32'' then (case v of VF32 f \<Rightarrow> put ptr 4 st (VU32 f) | _ \<Rightarrow> Inl (Wrong_value prim))
      else if prim = ''f64'' then (case v of VF64 f \<Rightarrow> put ptr 8 st (VU64 f) | _ \<Rightarrow> Inl (Wrong_value prim))
      else if prim = ''char'' then
        (case v of VS32 c \<Rightarrow> bindE (check_rune c) (\<lambda>c. put ptr 4 st (VU32 c)) | _ \<Rightarrow> Inl (Wrong_value prim))
      else if prim = ''string'' then (case v of VString s \<Rightarrow> storeString R ptr s st | _ \<Rightarrow> Inl (Wrong_value prim))
      else if prim = ''error-context'' then (case v of VU32 h \<Rightarrow> put ptr 4 st (VU32 h) | _ \<Rightarrow> Inl (Wrong_value prim))
      else Inl (Bad_primitive prim))"

section \<open>Lists of fixed-width primitives\<close>

text \<open>The element encoders; each gives the bytes of one element.\<close>

definition putS8 :: "u8 \<Rightarrow> mem_error + bytes" where "putS8 e = Inr [e]"

definition putBool :: "bool \<Rightarrow> mem_error + bytes" where "putBool e = Inr [if e then 1 else 0]"

definition putU16 :: "16 word \<Rightarrow> mem_error + bytes" where "putU16 e = Inr (le_bytes 2 (unat e))"

definition putU32 :: "u32 \<Rightarrow> mem_error + bytes" where "putU32 e = Inr (le_bytes 4 (unat e))"

definition putU64 :: "u64 \<Rightarrow> mem_error + bytes" where "putU64 e = Inr (le_bytes 8 (unat e))"

definition putChar :: "u32 \<Rightarrow> mem_error + bytes" where "putChar e = bindE (check_rune e) putU32"

definition encodeScalarList ::
  "'s Realloc \<Rightarrow> 'a list \<Rightarrow> u32 \<Rightarrow> u32 \<Rightarrow> ('a \<Rightarrow> mem_error + bytes) \<Rightarrow> 's store \<Rightarrow> mem_error + u32 \<times> u32 \<times> 's store" where
  "encodeScalarList R xs elemSize align enc st =
     (let len = of_nat (length xs) in
      if elemSize \<noteq> 0 \<and> 0xFFFFFFFF div elemSize < len then Inl (List_length_overflow len elemSize)
      else
        let byteLen = len * elemSize in
        bindE (GrowMem R 0 0 align byteLen st) (\<lambda>(ptr, mem, s).
        bindE (checkAllocated mem ptr byteLen) (\<lambda>_.
        bindE (mapE enc xs) (\<lambda>bs.
        Inr (ptr, len, write_at mem (unat ptr) (concat bs), s)))))"

text \<open>The answer is \<open>None\<close> when the value is not the typed slice for the primitive.\<close>

definition storeScalarList ::
  "'s Realloc \<Rightarrow> val \<Rightarrow> string \<Rightarrow> 's store \<Rightarrow> (mem_error + u32 \<times> u32 \<times> 's store) option" where
  "storeScalarList R v prim st =
     (if prim = ''u8'' then (case v of VBytes b \<Rightarrow> Some (allocStoreBytes R b st) | _ \<Rightarrow> None)
      else if prim = ''s8'' then (case v of VInt8s xs \<Rightarrow> Some (encodeScalarList R xs 1 1 putS8 st) | _ \<Rightarrow> None)
      else if prim = ''bool'' then (case v of VBools xs \<Rightarrow> Some (encodeScalarList R xs 1 1 putBool st) | _ \<Rightarrow> None)
      else if prim = ''u16'' then (case v of VUint16s xs \<Rightarrow> Some (encodeScalarList R xs 2 2 putU16 st) | _ \<Rightarrow> None)
      else if prim = ''s16'' then (case v of VInt16s xs \<Rightarrow> Some (encodeScalarList R xs 2 2 putU16 st) | _ \<Rightarrow> None)
      else if prim = ''u32'' then (case v of VUint32s xs \<Rightarrow> Some (encodeScalarList R xs 4 4 putU32 st) | _ \<Rightarrow> None)
      else if prim = ''s32'' then (case v of VInt32s xs \<Rightarrow> Some (encodeScalarList R xs 4 4 putU32 st) | _ \<Rightarrow> None)
      else if prim = ''u64'' then (case v of VUint64s xs \<Rightarrow> Some (encodeScalarList R xs 8 8 putU64 st) | _ \<Rightarrow> None)
      else if prim = ''s64'' then (case v of VInt64s xs \<Rightarrow> Some (encodeScalarList R xs 8 8 putU64 st) | _ \<Rightarrow> None)
      else if prim = ''f32'' then (case v of VFloat32s xs \<Rightarrow> Some (encodeScalarList R xs 4 4 putU32 st) | _ \<Rightarrow> None)
      else if prim = ''f64'' then (case v of VFloat64s xs \<Rightarrow> Some (encodeScalarList R xs 8 8 putU64 st) | _ \<Rightarrow> None)
      else if prim = ''char'' then (case v of VInt32s xs \<Rightarrow> Some (encodeScalarList R xs 4 4 putChar st) | _ \<Rightarrow> None)
      else None)"

text \<open>The place of a typed slice that is stored in a fixed-length list, and the slice's bytes there.\<close>

definition fixedSpan :: "bytes \<Rightarrow> u32 \<Rightarrow> u32 \<Rightarrow> u32 \<Rightarrow> nat \<Rightarrow> mem_error + unit" where
  "fixedSpan mem ptr n elemSize got =
     (if got \<noteq> unat n then Inl (Wrong_length (unat n) got)
      else if length mem < unat ptr + unat n * unat elemSize then Inl (List_overflow ptr (n * elemSize))
      else Inr ())"

definition putFixed ::
  "bytes \<Rightarrow> u32 \<Rightarrow> 'a list \<Rightarrow> u32 \<Rightarrow> u32 \<Rightarrow> ('a \<Rightarrow> mem_error + bytes) \<Rightarrow> mem_error + bytes" where
  "putFixed mem ptr xs n elemSize enc =
     bindE (fixedSpan mem ptr n elemSize (length xs)) (\<lambda>_.
     bindE (mapE enc xs) (\<lambda>bs. Inr (write_at mem (unat ptr) (concat bs))))"

definition storeFixedScalars :: "bytes \<Rightarrow> u32 \<Rightarrow> val \<Rightarrow> string \<Rightarrow> u32 \<Rightarrow> u32 \<Rightarrow> (mem_error + bytes) option" where
  "storeFixedScalars mem ptr v prim n es =
     (if prim = ''u8'' then (case v of VBytes b \<Rightarrow> Some (putFixed mem ptr b n es putS8) | _ \<Rightarrow> None)
      else if prim = ''s8'' then (case v of VInt8s xs \<Rightarrow> Some (putFixed mem ptr xs n es putS8) | _ \<Rightarrow> None)
      else if prim = ''bool'' then (case v of VBools xs \<Rightarrow> Some (putFixed mem ptr xs n es putBool) | _ \<Rightarrow> None)
      else if prim = ''u16'' then (case v of VUint16s xs \<Rightarrow> Some (putFixed mem ptr xs n es putU16) | _ \<Rightarrow> None)
      else if prim = ''s16'' then (case v of VInt16s xs \<Rightarrow> Some (putFixed mem ptr xs n es putU16) | _ \<Rightarrow> None)
      else if prim = ''u32'' then (case v of VUint32s xs \<Rightarrow> Some (putFixed mem ptr xs n es putU32) | _ \<Rightarrow> None)
      else if prim = ''s32'' then (case v of VInt32s xs \<Rightarrow> Some (putFixed mem ptr xs n es putU32) | _ \<Rightarrow> None)
      else if prim = ''u64'' then (case v of VUint64s xs \<Rightarrow> Some (putFixed mem ptr xs n es putU64) | _ \<Rightarrow> None)
      else if prim = ''s64'' then (case v of VInt64s xs \<Rightarrow> Some (putFixed mem ptr xs n es putU64) | _ \<Rightarrow> None)
      else if prim = ''f32'' then (case v of VFloat32s xs \<Rightarrow> Some (putFixed mem ptr xs n es putU32) | _ \<Rightarrow> None)
      else if prim = ''f64'' then (case v of VFloat64s xs \<Rightarrow> Some (putFixed mem ptr xs n es putU64) | _ \<Rightarrow> None)
      else if prim = ''char'' then (case v of VInt32s xs \<Rightarrow> Some (putFixed mem ptr xs n es putChar) | _ \<Rightarrow> None)
      else None)"

section \<open>Writing composite values\<close>

text \<open>\<open>sto\<close> is the call on a child: the pointer, the type, the value and the alignment if it is known.\<close>

type_synonym 's child = "u32 \<Rightarrow> type_desc \<Rightarrow> val \<Rightarrow> u32 \<Rightarrow> 's store \<Rightarrow> mem_error + 's store"

fun store_elems ::
  "'s child \<Rightarrow> u32 \<Rightarrow> u32 \<Rightarrow> u32 \<Rightarrow> type_desc \<Rightarrow> nat \<Rightarrow> val list \<Rightarrow> 's store \<Rightarrow> mem_error + 's store" where
  "store_elems sto ptr elemSize elemAlign elemType i [] st = Inr st"
| "store_elems sto ptr elemSize elemAlign elemType i (v # vs) st =
     bindE (sto (ptr + of_nat i * elemSize) elemType v elemAlign st)
       (store_elems sto ptr elemSize elemAlign elemType (Suc i) vs)"

definition allocStoreList ::
  "'s Realloc \<Rightarrow> (type_desc \<Rightarrow> abi_error + u32) \<Rightarrow> (type_desc \<Rightarrow> abi_error + u32) \<Rightarrow> 's child \<Rightarrow>
   val list \<Rightarrow> type_desc \<Rightarrow> 's store \<Rightarrow> mem_error + u32 \<times> u32 \<times> 's store" where
  "allocStoreList R al sz sto vs elemType st =
     bindE (abiE (sz elemType)) (\<lambda>elemSize.
     bindE (abiE (al elemType)) (\<lambda>elemAlign.
     let len = of_nat (length vs) in
     if elemSize \<noteq> 0 \<and> 0xFFFFFFFF div elemSize < len then Inl (List_length_overflow len elemSize)
     else
       let byteLen = len * elemSize in
       bindE (GrowMem R 0 0 elemAlign byteLen st) (\<lambda>(newPtr, mem, s).
       bindE (checkAllocated mem newPtr byteLen) (\<lambda>_.
       bindE (store_elems sto newPtr elemSize elemAlign elemType 0 vs (mem, s)) (\<lambda>st.
       Inr (newPtr, len, st))))))"

definition allocStoreAnyList ::
  "'s Realloc \<Rightarrow> (type_desc \<Rightarrow> abi_error + u32) \<Rightarrow> (type_desc \<Rightarrow> abi_error + u32) \<Rightarrow> 's child \<Rightarrow>
   val \<Rightarrow> type_desc \<Rightarrow> 's store \<Rightarrow> mem_error + u32 \<times> u32 \<times> 's store" where
  "allocStoreAnyList R al sz sto v elemType st =
     (case Option.bind (scalarPrim elemType) (\<lambda>prim. storeScalarList R v prim st) of
        Some res \<Rightarrow> res
      | None \<Rightarrow>
          (case v of VList vs \<Rightarrow> allocStoreList R al sz sto vs elemType st | _ \<Rightarrow> Inl (Wrong_value ''list'')))"

definition storeList ::
  "'s Realloc \<Rightarrow> (type_desc \<Rightarrow> abi_error + u32) \<Rightarrow> (type_desc \<Rightarrow> abi_error + u32) \<Rightarrow> 's child \<Rightarrow>
   u32 \<Rightarrow> val \<Rightarrow> type_desc \<Rightarrow> 's store \<Rightarrow> mem_error + 's store" where
  "storeList R al sz sto ptr v elemType st = bindE (allocStoreAnyList R al sz sto v elemType st) (store_pair ptr)"

definition storeFixedList ::
  "(type_desc \<Rightarrow> abi_error + u32) \<Rightarrow> (type_desc \<Rightarrow> abi_error + u32) \<Rightarrow> 's child \<Rightarrow>
   u32 \<Rightarrow> val \<Rightarrow> u32 \<Rightarrow> type_desc \<Rightarrow> 's store \<Rightarrow> mem_error + 's store" where
  "storeFixedList al sz sto ptr v n elemType st =
     bindE (abiE (al elemType)) (\<lambda>elemAlign.
     bindE (abiE (sz elemType)) (\<lambda>elemSize.
     case Option.bind (scalarPrim elemType) (\<lambda>prim. storeFixedScalars (fst st) ptr v prim n elemSize) of
       Some res \<Rightarrow> bindE res (\<lambda>mem. Inr (mem, snd st))
     | None \<Rightarrow>
         (case v of
            VList vs \<Rightarrow>
              (if length vs \<noteq> unat n then Inl (Wrong_length (unat n) (length vs))
               else store_elems sto ptr elemSize elemAlign elemType 0 vs st)
          | _ \<Rightarrow> Inl (Wrong_value ''fixed-length list''))))"

fun store_fields ::
  "resolver \<Rightarrow> (type_desc \<Rightarrow> abi_error + u32) \<Rightarrow> (type_desc \<Rightarrow> abi_error + u32) \<Rightarrow> 's child \<Rightarrow>
   u32 \<Rightarrow> type_ref list \<Rightarrow> val list \<Rightarrow> 's store \<Rightarrow> mem_error + 's store" where
  "store_fields r al sz sto offset (tr # trs) (v # vs) st =
     bindE (abiE (resolveType r (Some tr))) (\<lambda>fieldType.
     bindE (abiE (al fieldType)) (\<lambda>fieldAlign.
     let offset = Align offset fieldAlign in
     bindE (sto offset fieldType v fieldAlign st) (\<lambda>st.
     bindE (abiE (sz fieldType)) (\<lambda>fieldSize.
     store_fields r al sz sto (offset + fieldSize) trs vs st))))"
| "store_fields r al sz sto offset trs vs st = Inr st"

definition storeRecord ::
  "resolver \<Rightarrow> (type_desc \<Rightarrow> abi_error + u32) \<Rightarrow> (type_desc \<Rightarrow> abi_error + u32) \<Rightarrow> 's child \<Rightarrow>
   u32 \<Rightarrow> val \<Rightarrow> (string \<times> type_ref) list \<Rightarrow> 's store \<Rightarrow> mem_error + 's store" where
  "storeRecord r al sz sto ptr v fs st =
     (case v of
        VList vs \<Rightarrow>
          (if length vs \<noteq> length fs then Inl (Wrong_length (length fs) (length vs))
           else store_fields r al sz sto ptr (map snd fs) vs st)
      | _ \<Rightarrow> Inl (Wrong_value ''record''))"

definition storeTuple ::
  "resolver \<Rightarrow> (type_desc \<Rightarrow> abi_error + u32) \<Rightarrow> (type_desc \<Rightarrow> abi_error + u32) \<Rightarrow> 's child \<Rightarrow>
   u32 \<Rightarrow> val \<Rightarrow> type_ref list \<Rightarrow> 's store \<Rightarrow> mem_error + 's store" where
  "storeTuple r al sz sto ptr v es st =
     (case v of
        VList vs \<Rightarrow>
          (if length vs \<noteq> length es then Inl (Wrong_length (length es) (length vs))
           else store_fields r al sz sto ptr es vs st)
      | _ \<Rightarrow> Inl (Wrong_value ''tuple''))"

definition storeVariant ::
  "resolver \<Rightarrow> (type_desc \<Rightarrow> abi_error + u32) \<Rightarrow> 's child \<Rightarrow>
   u32 \<Rightarrow> val \<Rightarrow> (string \<times> type_ref option) list \<Rightarrow> u32 \<Rightarrow> 's store \<Rightarrow> mem_error + 's store" where
  "storeVariant r al sto ptr v cases align st =
     (case v of
        VVariant disc payload \<Rightarrow>
          (if length cases \<le> unat disc then Inl (Case_out_of_range disc (length cases))
           else
             bindE (abiE (sizePrimitive (DiscriminantType (length cases)))) (\<lambda>discSize.
             bindE (put ptr discSize st (VU32 disc)) (\<lambda>st.
             bindE (if align = 0 then abiE (MaxCaseAlignment r al cases) else Inr align) (\<lambda>payloadAlign.
             let offset = Align (ptr + discSize) payloadAlign in
             case snd (cases ! unat disc) of
               None \<Rightarrow> Inr st
             | Some tr \<Rightarrow>
                 bindE (abiE (resolveType r (Some tr))) (\<lambda>caseType.
                 if payload = VNil then Inl (Payload_required disc)
                 else sto offset caseType payload 0 st)))))
      | _ \<Rightarrow> Inl (Wrong_value ''variant''))"

definition storeFlags :: "u32 \<Rightarrow> val \<Rightarrow> string list \<Rightarrow> 's store \<Rightarrow> mem_error + 's store" where
  "storeFlags ptr v names st =
     (case v of
        VU32 bits \<Rightarrow> bindE (abiE (sizeFlagsNumLabels (length names))) (\<lambda>flagsSize. put ptr flagsSize st (VU32 bits))
      | _ \<Rightarrow> Inl (Wrong_value ''flags''))"

definition storeEnum :: "u32 \<Rightarrow> val \<Rightarrow> string list \<Rightarrow> 's store \<Rightarrow> mem_error + 's store" where
  "storeEnum ptr v cases st =
     (case v of
        VU32 idx \<Rightarrow>
          (if length cases \<le> unat idx then Inl (Case_out_of_range idx (length cases))
           else bindE (abiE (sizeEnumNumCases (length cases))) (\<lambda>enumSize. put ptr enumSize st (VU32 idx)))
      | _ \<Rightarrow> Inl (Wrong_value ''enum''))"

definition storeOption ::
  "(type_desc \<Rightarrow> abi_error + u32) \<Rightarrow> 's child \<Rightarrow> u32 \<Rightarrow> val \<Rightarrow> u32 \<Rightarrow> type_desc \<Rightarrow> 's store \<Rightarrow> mem_error + 's store" where
  "storeOption al sto ptr v align elemType st =
     bindE (put ptr 1 st (VU32 (if v = VNil then 0 else 1))) (\<lambda>st.
     bindE (if align = 0 then abiE (al elemType) else Inr align) (\<lambda>elemAlign.
     let offset = Align (ptr + 1) elemAlign in
     if v = VNil then Inr st else sto offset elemType v elemAlign st))"

definition storeResult ::
  "resolver \<Rightarrow> (type_desc \<Rightarrow> abi_error + u32) \<Rightarrow> 's child \<Rightarrow>
   u32 \<Rightarrow> val \<Rightarrow> type_ref option \<Rightarrow> type_ref option \<Rightarrow> u32 \<Rightarrow> 's store \<Rightarrow> mem_error + 's store" where
  "storeResult r al sto ptr v ok er align st =
     (case v of
        VResult isErr payload \<Rightarrow>
          bindE (put ptr 1 st (VU32 (if isErr then 1 else 0))) (\<lambda>st.
          bindE (if align = 0 then abiE (alignmentResult r al ok er) else Inr align) (\<lambda>maxAlign.
          let offset = Align (ptr + 1) maxAlign in
          case (if isErr then er else ok) of
            None \<Rightarrow> Inr st
          | Some tr \<Rightarrow> bindE (abiE (resolveType r (Some tr))) (\<lambda>t. sto offset t payload 0 st)))
      | _ \<Rightarrow> Inl (Wrong_value ''result''))"

definition store_handle :: "u32 \<Rightarrow> val \<Rightarrow> 's store \<Rightarrow> mem_error + 's store" where
  "store_handle ptr v st = (case v of VU32 h \<Rightarrow> put ptr 4 st (VU32 h) | _ \<Rightarrow> Inl (Wrong_value ''handle''))"

definition store_body ::
  "resolver \<Rightarrow> 's Realloc \<Rightarrow> (type_desc \<Rightarrow> abi_error + u32) \<Rightarrow> (type_desc \<Rightarrow> abi_error + u32) \<Rightarrow> 's child \<Rightarrow> 's child" where
  "store_body r R al sz sto ptr t v align st =
     (case t of
        PrimitiveDesc p \<Rightarrow> storePrimitive R ptr p v st
      | ListDesc e \<Rightarrow> bindE (abiE (resolveType r (Some e))) (\<lambda>et. storeList R al sz sto ptr v et st)
      | MapDesc key val \<Rightarrow> storeList R al sz sto ptr v (mapElemType key val) st
      | FixedListDesc e n \<Rightarrow> bindE (abiE (resolveType r (Some e))) (\<lambda>et. storeFixedList al sz sto ptr v n et st)
      | RecordDesc fs \<Rightarrow> storeRecord r al sz sto ptr v fs st
      | VariantDesc cs \<Rightarrow> storeVariant r al sto ptr v cs align st
      | TupleDesc es \<Rightarrow> storeTuple r al sz sto ptr v es st
      | FlagsDesc ns \<Rightarrow> storeFlags ptr v ns st
      | EnumDesc cs \<Rightarrow> storeEnum ptr v cs st
      | OptionDesc e \<Rightarrow> bindE (abiE (resolveType r (Some e))) (\<lambda>et. storeOption al sto ptr v align et st)
      | ResultDesc ok er \<Rightarrow> storeResult r al sto ptr v ok er align st
      | OwnDesc _ \<Rightarrow> store_handle ptr v st | BorrowDesc _ \<Rightarrow> store_handle ptr v st
      | StreamDesc _ \<Rightarrow> store_handle ptr v st | FutureDesc _ \<Rightarrow> store_handle ptr v st
      | _ \<Rightarrow> Inl Bad_type)"

fun storeValue :: "nat \<Rightarrow> resolver \<Rightarrow> 's Realloc \<Rightarrow> 's child" where
  "storeValue 0 r R ptr t v align st = Inl (Abi Stack_overflow)"
| "storeValue (Suc n) r R ptr t v align st =
     store_body r R (Alignment n r) (Size n r) (storeValue n r R) ptr t v align st"

section \<open>Compiled stores\<close>

record StoreStep =
  step_type :: type_desc
  step_align :: u32
  step_size :: u32

definition CompileStore :: "nat \<Rightarrow> resolver \<Rightarrow> type_desc \<Rightarrow> mem_error + StoreStep" where
  "CompileStore n r t =
     bindE (abiE (Alignment n r t)) (\<lambda>align.
     bindE (abiE (Size n r t)) (\<lambda>size.
     Inr \<lparr>step_type = t, step_align = align, step_size = size\<rparr>))"

definition StoreStep_Store ::
  "nat \<Rightarrow> resolver \<Rightarrow> 's Realloc \<Rightarrow> StoreStep \<Rightarrow> u32 \<Rightarrow> val \<Rightarrow> 's store \<Rightarrow> mem_error + 's store" where
  "StoreStep_Store n r R c ptr v st =
     (if ptr \<noteq> Align ptr (step_align c) then Inl (Misaligned ptr (step_align c))
      else if ptr + step_size c < ptr \<or> mem_len (fst st) < ptr + step_size c then Inl (Buffer_overflow ptr (step_size c))
      else storeValue n r R ptr (step_type c) v (step_align c) st)"

definition Store ::
  "nat \<Rightarrow> resolver \<Rightarrow> 's Realloc \<Rightarrow> u32 \<Rightarrow> type_desc \<Rightarrow> val \<Rightarrow> 's store \<Rightarrow> mem_error + 's store" where
  "Store n r R ptr t v st = bindE (CompileStore n r t) (\<lambda>c. StoreStep_Store n r R c ptr v st)"

definition Spill ::
  "nat \<Rightarrow> resolver \<Rightarrow> 's Realloc \<Rightarrow> StoreStep \<Rightarrow> val \<Rightarrow> 's store \<Rightarrow> mem_error + u32 \<times> 's store" where
  "Spill n r R c v st =
     bindE (GrowMem R 0 0 (step_align c) (step_size c) st) (\<lambda>(ptr, st).
     bindE (StoreStep_Store n r R c ptr v st) (\<lambda>st. Inr (ptr, st)))"

definition spillValue ::
  "nat \<Rightarrow> resolver \<Rightarrow> 's Realloc \<Rightarrow> val \<Rightarrow> type_desc \<Rightarrow> 's store \<Rightarrow> mem_error + u32 \<times> 's store" where
  "spillValue n r R v t st = bindE (CompileStore n r t) (\<lambda>c. Spill n r R c v st)"

end
