(* ===== verification/Abi_Flatten.thy ===== *)
theory Abi_Flatten
  imports Abi_Layout
begin

text \<open>
  Flattening of component types to core value types: \<^verbatim>\<open>src/internal/component/abi/flatten.go\<close>,
  \<^verbatim>\<open>flatwidth.go\<close> and the fixed-length list cases of \<^verbatim>\<open>fixedlist.go\<close>. Core types are the
  strings the code uses. As in the layout theory, each Go function takes the calls it makes
  on children as arguments and the walks tie the knot with a stack depth. The reference
  semantics is the Canonical ABI's \<^verbatim>\<open>flatten_type\<close> on despecialised types, with variants
  joined case by case and fixed-length lists spelled out in full.
\<close>

section \<open>Core types\<close>

definition MaxFlatParams :: nat where "MaxFlatParams = 16"
definition MaxFlatResults :: nat where "MaxFlatResults = 1"

definition flatKindsI32 :: "string list" where "flatKindsI32 = [''i32'']"
definition flatKindsI64 :: "string list" where "flatKindsI64 = [''i64'']"
definition flatKindsF32 :: "string list" where "flatKindsF32 = [''f32'']"
definition flatKindsF64 :: "string list" where "flatKindsF64 = [''f64'']"
definition flatKindsStringPtrs :: "string list" where "flatKindsStringPtrs = [''i32'', ''i32'']"

lemmas flatKinds_defs = flatKindsI32_def flatKindsI64_def flatKindsF32_def flatKindsF64_def flatKindsStringPtrs_def

definition flattenPrimitive :: "string \<Rightarrow> abi_error + string list" where
  "flattenPrimitive prim =
     (if prim = ''bool'' then Inr flatKindsI32
      else if prim \<in> {''u8'', ''u16'', ''u32'', ''s8'', ''s16'', ''s32''} then Inr flatKindsI32
      else if prim \<in> {''s64'', ''u64''} then Inr flatKindsI64
      else if prim = ''f32'' then Inr flatKindsF32
      else if prim = ''f64'' then Inr flatKindsF64
      else if prim = ''char'' then Inr flatKindsI32
      else if prim = ''string'' then Inr flatKindsStringPtrs
      else if prim = ''error-context'' then Inr flatKindsI32
      else Inl (Unknown_primitive prim))"

definition joinCoreTypes :: "string list \<Rightarrow> string" where
  "joinCoreTypes types =
     (case types of
        [] \<Rightarrow> ''i32''
      | all # _ \<Rightarrow>
          if \<forall>t \<in> set types. t = all then all
          else if \<forall>t \<in> set types. t = ''i32'' \<or> t = ''f32'' then ''i32''
          else ''i64'')"

section \<open>Widths\<close>

definition maxFlatWidth :: nat where "maxFlatWidth = 2 ^ 20"

definition addFlatWidth :: "nat \<Rightarrow> nat \<Rightarrow> abi_error + nat" where
  "addFlatWidth a b = (if int maxFlatWidth - int b < int a then Inl Flat_width_exceeded else Inr (a + b))"

definition fixedListCopies :: "nat \<Rightarrow> u32 \<Rightarrow> nat" where
  "fixedListCopies elemWidth n =
     (if elemWidth = 0 then 0
      else if unat (of_nat elemWidth * ucast n :: u64) \<le> MaxFlatParams then unat n
      else MaxFlatParams div elemWidth + 1)"

definition flattenFlagsNumLabels :: "nat \<Rightarrow> abi_error + string list" where
  "flattenFlagsNumLabels numLabels =
     (if numLabels = 0 \<or> numLabels > 32 then Inl (Invalid_flags numLabels) else Inr flatKindsI32)"

definition flattenEnum :: "string list \<Rightarrow> abi_error + string list" where
  "flattenEnum cases = (if length cases = 0 then Inl (Invalid_enum 0) else Inr flatKindsI32)"

definition flatWidthPrimitive :: "string \<Rightarrow> abi_error + nat" where
  "flatWidthPrimitive prim = bindE (flattenPrimitive prim) (\<lambda>f. Inr (length f))"

text \<open>\<^verbatim>\<open>flatWidthRef\<close> is \<open>via\<close> applied to the width walk.\<close>

definition flatWidthFixedList ::
  "resolver \<Rightarrow> (type_desc \<Rightarrow> abi_error + nat) \<Rightarrow> type_ref \<Rightarrow> u32 \<Rightarrow> abi_error + nat" where
  "flatWidthFixedList r fw e n = bindE (via r fw (Some e)) (\<lambda>w. Inr (w * fixedListCopies w n))"

definition sum_widths :: "resolver \<Rightarrow> (type_desc \<Rightarrow> abi_error + nat) \<Rightarrow> type_ref list \<Rightarrow> abi_error + nat" where
  "sum_widths r fw trs =
     foldE (\<lambda>total tr. bindE (via r fw (Some tr)) (\<lambda>w. addFlatWidth total w)) 0 trs"

definition FlatWidth_body ::
  "resolver \<Rightarrow> (type_desc \<Rightarrow> abi_error + nat) \<Rightarrow> type_desc \<Rightarrow> abi_error + nat" where
  "FlatWidth_body r fw t =
     (case t of
        PrimitiveDesc p \<Rightarrow> flatWidthPrimitive p
      | ListDesc _ \<Rightarrow> Inr 2
      | MapDesc _ _ \<Rightarrow> Inr 2
      | FixedListDesc e n \<Rightarrow> flatWidthFixedList r fw e n
      | RecordDesc fs \<Rightarrow> sum_widths r fw (map snd fs)
      | TupleDesc es \<Rightarrow> sum_widths r fw es
      | VariantDesc cs \<Rightarrow>
          bindE (foldE (\<lambda>widest c.
              case snd c of
                None \<Rightarrow> Inr widest
              | Some tr \<Rightarrow> bindE (via r fw (Some tr)) (\<lambda>w. Inr (if widest < w then w else widest))) 0 cs)
            (\<lambda>widest.
          bindE (flatWidthPrimitive (DiscriminantType (length cs))) (\<lambda>disc. addFlatWidth disc widest))
      | OptionDesc e \<Rightarrow> bindE (via r fw (Some e)) (\<lambda>w. addFlatWidth 1 w)
      | ResultDesc ok er \<Rightarrow>
          bindE (case ok of None \<Rightarrow> Inr 0 | Some tr \<Rightarrow> via r fw (Some tr)) (\<lambda>okW.
          bindE (case er of None \<Rightarrow> Inr 0 | Some tr \<Rightarrow> via r fw (Some tr)) (\<lambda>errW.
          addFlatWidth 1 (if okW < errW then errW else okW)))
      | FlagsDesc ns \<Rightarrow> bindE (flattenFlagsNumLabels (length ns)) (\<lambda>f. Inr (length f))
      | EnumDesc cs \<Rightarrow> bindE (flattenEnum cs) (\<lambda>f. Inr (length f))
      | OwnDesc _ \<Rightarrow> Inr 1 | BorrowDesc _ \<Rightarrow> Inr 1 | StreamDesc _ \<Rightarrow> Inr 1 | FutureDesc _ \<Rightarrow> Inr 1
      | FuncDesc _ \<Rightarrow> Inl Cannot_flatten | InstanceDesc \<Rightarrow> Inl Cannot_flatten
      | ComponentDesc \<Rightarrow> Inl Cannot_flatten | ResourceDesc _ _ \<Rightarrow> Inl Cannot_flatten)"

fun FlatWidth :: "nat \<Rightarrow> resolver \<Rightarrow> type_desc \<Rightarrow> abi_error + nat" where
  "FlatWidth 0 r t = Inl Stack_overflow"
| "FlatWidth (Suc n) r t = FlatWidth_body r (FlatWidth n r) t"

section \<open>Flattening\<close>

definition flattenList :: "abi_error + string list" where
  "flattenList = Inr flatKindsStringPtrs"

definition append_flats ::
  "resolver \<Rightarrow> (type_desc \<Rightarrow> abi_error + string list) \<Rightarrow> type_ref list \<Rightarrow> abi_error + string list" where
  "append_flats r fl trs =
     foldE (\<lambda>flat tr. bindE (via r fl (Some tr)) (\<lambda>fFlat. Inr (flat @ fFlat))) [] trs"

definition flattenRecord ::
  "resolver \<Rightarrow> (type_desc \<Rightarrow> abi_error + nat) \<Rightarrow> (type_desc \<Rightarrow> abi_error + string list) \<Rightarrow>
     (string \<times> type_ref) list \<Rightarrow> abi_error + string list" where
  "flattenRecord r fw fl fs =
     bindE (FlatWidth_body r fw (RecordDesc fs)) (\<lambda>width. append_flats r fl (map snd fs))"

definition flattenTuple ::
  "resolver \<Rightarrow> (type_desc \<Rightarrow> abi_error + nat) \<Rightarrow> (type_desc \<Rightarrow> abi_error + string list) \<Rightarrow>
     type_ref list \<Rightarrow> abi_error + string list" where
  "flattenTuple r fw fl es =
     bindE (FlatWidth_body r fw (TupleDesc es)) (\<lambda>width. append_flats r fl es)"

text \<open>The candidates for slot \<open>i\<close> among the flattened payloads, and the joined slots.\<close>

definition candidates :: "string list list \<Rightarrow> nat \<Rightarrow> string list" where
  "candidates flats i = map (\<lambda>f. f ! i) (filter (\<lambda>f. i < length f) flats)"

definition join_slots :: "string list list \<Rightarrow> nat \<Rightarrow> string list" where
  "join_slots flats maxLen =
     concat (map (\<lambda>i. let c = candidates flats i in if 0 < length c then [joinCoreTypes c] else []) [0..<maxLen])"

definition flattenVariant ::
  "resolver \<Rightarrow> (type_desc \<Rightarrow> abi_error + string list) \<Rightarrow> (string \<times> type_ref option) list \<Rightarrow>
     abi_error + string list" where
  "flattenVariant r fl cs =
     bindE (flattenPrimitive (DiscriminantType (length cs))) (\<lambda>discFlat.
     bindE (foldE (\<lambda>(caseFlats, maxLen) c.
         case snd c of
           None \<Rightarrow> Inr (caseFlats, maxLen)
         | Some tr \<Rightarrow> bindE (via r fl (Some tr)) (\<lambda>cFlat.
             Inr (caseFlats @ [cFlat], if maxLen < length cFlat then length cFlat else maxLen))) ([], 0) cs)
       (\<lambda>(caseFlats, maxLen). Inr (discFlat @ join_slots caseFlats maxLen)))"

definition flattenOption ::
  "resolver \<Rightarrow> (type_desc \<Rightarrow> abi_error + string list) \<Rightarrow> type_ref \<Rightarrow> abi_error + string list" where
  "flattenOption r fl e = bindE (via r fl (Some e)) (\<lambda>elemFlat. Inr ([''i32''] @ elemFlat))"

definition flattenResult ::
  "resolver \<Rightarrow> (type_desc \<Rightarrow> abi_error + string list) \<Rightarrow> type_ref option \<Rightarrow> type_ref option \<Rightarrow>
     abi_error + string list" where
  "flattenResult r fl ok er =
     bindE (case ok of None \<Rightarrow> Inr [] | Some tr \<Rightarrow> via r fl (Some tr)) (\<lambda>okFlat.
     bindE (case er of None \<Rightarrow> Inr [] | Some tr \<Rightarrow> via r fl (Some tr)) (\<lambda>errFlat.
     let maxLen = max (length errFlat) (max (length okFlat) 0) in
     Inr ([''i32''] @ join_slots [okFlat, errFlat] maxLen)))"

definition flattenFixedList ::
  "resolver \<Rightarrow> (type_desc \<Rightarrow> abi_error + string list) \<Rightarrow> type_ref \<Rightarrow> u32 \<Rightarrow> abi_error + string list" where
  "flattenFixedList r fl e n =
     bindE (via r fl (Some e)) (\<lambda>elemFlat.
     let copies = fixedListCopies (length elemFlat) n in Inr (concat (replicate copies elemFlat)))"

definition Flatten_body ::
  "resolver \<Rightarrow> (type_desc \<Rightarrow> abi_error + nat) \<Rightarrow> (type_desc \<Rightarrow> abi_error + string list) \<Rightarrow>
     type_desc \<Rightarrow> abi_error + string list" where
  "Flatten_body r fw fl t =
     (case t of
        PrimitiveDesc p \<Rightarrow> flattenPrimitive p
      | ListDesc _ \<Rightarrow> flattenList
      | MapDesc _ _ \<Rightarrow> flattenList
      | FixedListDesc e n \<Rightarrow> flattenFixedList r fl e n
      | RecordDesc fs \<Rightarrow> flattenRecord r fw fl fs
      | VariantDesc cs \<Rightarrow> flattenVariant r fl cs
      | TupleDesc es \<Rightarrow> flattenTuple r fw fl es
      | FlagsDesc ns \<Rightarrow> flattenFlagsNumLabels (length ns)
      | EnumDesc cs \<Rightarrow> flattenEnum cs
      | OptionDesc e \<Rightarrow> flattenOption r fl e
      | ResultDesc ok er \<Rightarrow> flattenResult r fl ok er
      | OwnDesc _ \<Rightarrow> Inr flatKindsI32 | BorrowDesc _ \<Rightarrow> Inr flatKindsI32
      | StreamDesc _ \<Rightarrow> Inr flatKindsI32 | FutureDesc _ \<Rightarrow> Inr flatKindsI32
      | FuncDesc _ \<Rightarrow> Inl Cannot_flatten | InstanceDesc \<Rightarrow> Inl Cannot_flatten
      | ComponentDesc \<Rightarrow> Inl Cannot_flatten | ResourceDesc _ _ \<Rightarrow> Inl Cannot_flatten)"

fun Flatten :: "nat \<Rightarrow> resolver \<Rightarrow> type_desc \<Rightarrow> abi_error + string list" where
  "Flatten 0 r t = Inl Stack_overflow"
| "Flatten (Suc n) r t = Flatten_body r (FlatWidth n r) (Flatten n r) t"

definition FlattenFunc ::
  "nat \<Rightarrow> resolver \<Rightarrow> func_desc \<Rightarrow> string \<Rightarrow> abi_error + string list \<times> string list" where
  "FlattenFunc n r f context =
     bindE (append_flats r (Flatten n r) (map snd (Params f))) (\<lambda>params.
     bindE (case Unnamed f of
              Some tr \<Rightarrow> via r (Flatten n r) (Some tr)
            | None \<Rightarrow> append_flats r (Flatten n r) (map snd (Named f))) (\<lambda>results.
     let params = (if MaxFlatParams < length params then [''i32''] else params) in
     if MaxFlatResults < length results then
       if context = ''lift'' then Inr (params, [''i32''])
       else if context = ''lower'' then Inr (params @ [''i32''], [])
       else Inl (Invalid_context context)
     else Inr (params, results)))"

section \<open>The Canonical ABI's flattening\<close>

definition join :: "string \<Rightarrow> string \<Rightarrow> string" where
  "join a b =
     (if a = b then a
      else if (a = ''i32'' \<and> b = ''f32'') \<or> (a = ''f32'' \<and> b = ''i32'') then ''i32''
      else ''i64'')"

fun merge :: "string list \<Rightarrow> string list \<Rightarrow> string list" where
  "merge [] ys = ys"
| "merge xs [] = xs"
| "merge (x # xs) (y # ys) = join x y # merge xs ys"

definition spec_flatten_prim :: "string \<Rightarrow> string list option" where
  "spec_flatten_prim p =
     map_of [(''bool'', [''i32'']), (''s8'', [''i32'']), (''u8'', [''i32'']), (''s16'', [''i32'']),
       (''u16'', [''i32'']), (''s32'', [''i32'']), (''u32'', [''i32'']), (''s64'', [''i64'']),
       (''u64'', [''i64'']), (''f32'', [''f32'']), (''f64'', [''f64'']), (''char'', [''i32'']),
       (''string'', [''i32'', ''i32'']), (''error-context'', [''i32''])] p"

definition spec_flatten_node ::
  "resolver \<Rightarrow> (type_desc \<Rightarrow> string list option) \<Rightarrow> type_desc \<Rightarrow> string list option" where
  "spec_flatten_node r f t =
     (case t of
        PrimitiveDesc p \<Rightarrow> spec_flatten_prim p
      | ListDesc _ \<Rightarrow> Some [''i32'', ''i32'']
      | MapDesc _ _ \<Rightarrow> Some [''i32'', ''i32'']
      | FixedListDesc e n \<Rightarrow> map_option (\<lambda>fs. concat (replicate (unat n) (hd fs))) (spec_refs r f [e])
      | RecordDesc fs \<Rightarrow> map_option concat (spec_refs r f (map snd fs))
      | VariantDesc cs \<Rightarrow>
          if cs = [] then None
          else map_option (\<lambda>fs. ''i32'' # foldl merge [] fs) (spec_refs r f (List.map_filter snd cs))
      | FlagsDesc ns \<Rightarrow> if ns = [] \<or> 32 < length ns then None else Some [''i32'']
      | OwnDesc _ \<Rightarrow> Some [''i32''] | BorrowDesc _ \<Rightarrow> Some [''i32'']
      | StreamDesc _ \<Rightarrow> Some [''i32''] | FutureDesc _ \<Rightarrow> Some [''i32'']
      | _ \<Rightarrow> None)"

fun spec_flatten :: "nat \<Rightarrow> resolver \<Rightarrow> type_desc \<Rightarrow> string list option" where
  "spec_flatten 0 r t = None"
| "spec_flatten (Suc n) r t = spec_flatten_node r (spec_flatten n r) (despecialize t)"

definition spec_flatten_functype ::
  "nat \<Rightarrow> resolver \<Rightarrow> func_desc \<Rightarrow> bool \<Rightarrow> (string list \<times> string list) option" where
  "spec_flatten_functype n r f lift =
     Option.bind (map_option concat (spec_refs r (spec_flatten n r) (map snd (Params f)))) (\<lambda>ps.
     Option.bind (map_option concat (spec_refs r (spec_flatten n r)
         (case Unnamed f of Some tr \<Rightarrow> [tr] | None \<Rightarrow> map snd (Named f)))) (\<lambda>rs.
     let ps = (if 16 < length ps then [''i32''] else ps) in
     Some (if 1 < length rs then if lift then (ps, [''i32'']) else (ps @ [''i32''], []) else (ps, rs))))"

section \<open>Vocabulary of the proofs and test instances\<close>

text \<open>
  The decoder only builds fixed-length lists with at least one element; with none, the width
  walk may fail on an element type that the flattening walk never spells out.
\<close>

definition positive_lists :: "resolver \<Rightarrow> bool" where
  "positive_lists r \<longleftrightarrow> (\<forall>f i e. r = Some f \<longrightarrow> f i \<noteq> Some (FixedListDesc e 0))"

definition nonempty_list :: "type_desc \<Rightarrow> bool" where
  "nonempty_list t = (case t of FixedListDesc e n \<Rightarrow> n \<noteq> 0 | _ \<Rightarrow> True)"

definition widths :: "(type_desc \<Rightarrow> abi_error + nat) \<Rightarrow> (type_desc \<Rightarrow> abi_error + string list) \<Rightarrow> bool" where
  "widths fw fl \<longleftrightarrow> (\<forall>u w. nonempty_list u \<longrightarrow>
     (fw u = Inr w \<longleftrightarrow> (\<exists>f. fl u = Inr f \<and> length f = w \<and> w \<le> maxFlatWidth)))"

text \<open>A flattening is faithful if it is the specified one wherever that is short enough to be used.\<close>

definition faithful :: "string list \<Rightarrow> string list \<Rightarrow> bool" where
  "faithful fl fr \<longleftrightarrow> (if length fr \<le> 16 then fl = fr else 16 < length fl)"

definition refines :: "(type_desc \<Rightarrow> abi_error + string list) \<Rightarrow> (type_desc \<Rightarrow> string list option) \<Rightarrow> bool" where
  "refines fl sp \<longleftrightarrow> (\<forall>u f. fl u = Inr f \<longrightarrow> (\<exists>f'. sp u = Some f' \<and> faithful f f'))"

text \<open>Type \<open>i\<close> is a pair of type \<open>i - 1\<close>, so type \<open>i\<close> flattens to \<open>2 ^ i\<close> core values.\<close>

definition doubling :: resolver where
  "doubling = Some (\<lambda>i. Some (if i = 0 then PrimitiveDesc ''u8'' else TupleDesc [index_ref (i - 1), index_ref (i - 1)]))"

definition doubling_desc :: "nat \<Rightarrow> type_desc" where
  "doubling_desc i = (if i = 0 then PrimitiveDesc ''u8'' else TupleDesc [index_ref (of_nat (i - 1)), index_ref (of_nat (i - 1))])"

text \<open>A function of a \<^verbatim>\<open>list<u8, 100000>\<close> and a record that returns a string.\<close>

definition sample_func :: func_desc where
  "sample_func = \<lparr>Params = [(''bytes'', index_ref 0), (''x'', prim_ref ''f64'')],
     Unnamed = Some (prim_ref ''string''), Named = [], Async = False\<rparr>"

definition sample_func_resolver :: resolver where
  "sample_func_resolver = Some (\<lambda>i. if i = 0 then Some (FixedListDesc (prim_ref ''u8'') 100000) else None)"

section \<open>The loops in closed form\<close>

abbreviation vias :: "resolver \<Rightarrow> (type_desc \<Rightarrow> abi_error + 'a) \<Rightarrow> type_ref list \<Rightarrow> abi_error + 'a list" where
  "vias r f trs \<equiv> mapE (\<lambda>tr. via r f (Some tr)) trs"

lemma append_flats_concat: "append_flats r fl trs = bindE (vias r fl trs) (\<lambda>fs. Inr (concat fs))"
proof -
  have "foldE (\<lambda>flat tr. bindE (via r fl (Some tr)) (\<lambda>fFlat. Inr (flat @ fFlat))) acc trs =
      bindE (vias r fl trs) (\<lambda>fs. Inr (acc @ concat fs))" for acc
    by (induction trs arbitrary: acc) (simp_all add: bindE_assoc)
  from this [of "[]"] show ?thesis by (simp add: append_flats_def)
qed

lemma case_flats:
  "foldE (\<lambda>(caseFlats, maxLen) c. case snd c of None \<Rightarrow> Inr (caseFlats, maxLen)
      | Some tr \<Rightarrow> bindE (via r fl (Some tr)) (\<lambda>cFlat.
          Inr (caseFlats @ [cFlat], if maxLen < length cFlat then length cFlat else maxLen))) (acc, m) cs =
   bindE (vias r fl (List.map_filter snd cs)) (\<lambda>fs. Inr (acc @ fs, foldl max m (map length fs)))"
proof (induction cs arbitrary: acc m)
  case (Cons c cs)
  then show ?case
    by (cases "snd c") (simp_all add: List.map_filter_simps bindE_assoc if_max)
qed (simp add: List.map_filter_simps)

lemma case_widths:
  "foldE (\<lambda>widest c. case snd c of None \<Rightarrow> Inr widest
      | Some tr \<Rightarrow> bindE (via r fw (Some tr)) (\<lambda>w. Inr (if widest < w then w else widest))) (m::nat) cs =
   bindE (vias r fw (List.map_filter snd cs)) (\<lambda>ws. Inr (foldl max m ws))"
proof (induction cs arbitrary: m)
  case (Cons c cs)
  then show ?case
    by (cases "snd c") (simp_all add: List.map_filter_simps bindE_assoc if_max)
qed (simp add: List.map_filter_simps)

lemma addFlatWidth_Inr: "addFlatWidth a b = Inr w \<longleftrightarrow> w = a + b \<and> w \<le> maxFlatWidth"
  by (auto simp: addFlatWidth_def)

lemma sum_widths_Inr:
  "sum_widths r fw trs = Inr w \<longleftrightarrow> (\<exists>ws. vias r fw trs = Inr ws \<and> w = sum_list ws \<and> w \<le> maxFlatWidth)"
proof -
  have "foldE (\<lambda>total tr. bindE (via r fw (Some tr)) (\<lambda>w. addFlatWidth total w)) t trs = Inr w \<longleftrightarrow>
      (\<exists>ws. vias r fw trs = Inr ws \<and> w = t + sum_list ws \<and> w \<le> maxFlatWidth)" if "t \<le> maxFlatWidth" for t
    using that
  proof (induction trs arbitrary: t)
    case (Cons tr trs)
    have "(\<exists>s. addFlatWidth t x = Inr s \<and>
        foldE (\<lambda>total tr. bindE (via r fw (Some tr)) (\<lambda>w. addFlatWidth total w)) s trs = Inr w) \<longleftrightarrow>
      (\<exists>ws. vias r fw trs = Inr ws \<and> w = t + x + sum_list ws \<and> w \<le> maxFlatWidth)" for x
      using Cons.IH [of "t + x"] by (auto simp: addFlatWidth_Inr)
    note * = this
    show ?case (is "?L \<longleftrightarrow> ?R")
    proof (cases "via r fw (Some tr)")
      case (Inr x)
      have "?L \<longleftrightarrow> (\<exists>s. addFlatWidth t x = Inr s \<and>
        foldE (\<lambda>total tr. bindE (via r fw (Some tr)) (\<lambda>w. addFlatWidth total w)) s trs = Inr w)"
        by (simp add: Inr)
      also have "\<dots> \<longleftrightarrow> ?R" unfolding * by (auto simp: Inr add.assoc)
      finally show ?thesis .
    qed simp
  qed auto
  from this [of 0] show ?thesis by (simp add: sum_widths_def)
qed

section \<open>Joining slots\<close>

lemma foldl_join: "foldl join x xs = joinCoreTypes (x # xs)"
proof (induction xs rule: rev_induct)
  case (snoc y ys)
  then show ?case by (auto simp: joinCoreTypes_def join_def)
qed (simp add: joinCoreTypes_def)

lemma length_merge [simp]: "length (merge xs ys) = max (length xs) (length ys)"
  by (induction xs ys rule: merge.induct) auto

lemma nth_merge:
  "i < max (length xs) (length ys) \<Longrightarrow> merge xs ys ! i =
     (if i < length xs then if i < length ys then join (xs ! i) (ys ! i) else xs ! i else ys ! i)"
  by (induction xs ys arbitrary: i rule: merge.induct) (auto simp: nth_Cons' less_Suc_eq_0_disj)

lemma length_foldl_merge: "length (foldl merge m fs) = foldl max (length m) (map length fs)"
  by (induction fs arbitrary: m) simp_all

lemma nth_foldl_merge:
  "i < length (foldl merge m fs) \<Longrightarrow> foldl merge m fs ! i =
     joinCoreTypes ((if i < length m then [m ! i] else []) @ candidates fs i)"
proof (induction fs arbitrary: m)
  case (Cons f fs)
  show ?case
  proof (cases "i < max (length m) (length f)")
    case True
    with Cons show ?thesis
      by (auto simp: nth_merge candidates_def simp flip: foldl_join)
  next
    case False
    then have "\<not> i < length m" "\<not> i < length f" "\<not> i < length (merge m f)" by auto
    with Cons show ?thesis by (simp add: candidates_def)
  qed
qed (simp add: candidates_def joinCoreTypes_def)

lemma candidates_nonempty: "i < foldl max 0 (map length fs) \<Longrightarrow> candidates fs i \<noteq> []"
proof -
  assume i: "i < foldl max 0 (map length fs)"
  then have "foldl max 0 (map length fs) \<in> set (map length fs)"
    using foldl_max_in [of 0 "map length fs"] by auto
  then obtain f where "f \<in> set fs" "length f = foldl max 0 (map length fs)" by auto
  then have "\<exists>f \<in> set fs. i < length f" using i by metis
  then show ?thesis by (auto simp: candidates_def filter_empty_conv)
qed

lemma join_slots_merge: "join_slots fs (foldl max 0 (map length fs)) = foldl merge [] fs"
proof -
  let ?n = "foldl max 0 (map length fs)"
  have "join_slots fs ?n = map (\<lambda>i. joinCoreTypes (candidates fs i)) [0..<?n]"
  proof -
    have "concat (map (\<lambda>i. if 0 < length (candidates fs i) then [joinCoreTypes (candidates fs i)] else []) is) =
        map (\<lambda>i. joinCoreTypes (candidates fs i)) is" if "\<forall>i \<in> set is. i < ?n" for "is"
      using that candidates_nonempty [of _ fs] by (induction "is") auto
    then show ?thesis by (simp add: join_slots_def Let_def)
  qed
  also have "\<dots> = foldl merge [] fs"
    by (rule nth_equalityI) (simp_all add: length_foldl_merge nth_foldl_merge)
  finally show ?thesis .
qed

lemma length_join_slots [simp]: "length (join_slots fs (foldl max 0 (map length fs))) = foldl max 0 (map length fs)"
  unfolding join_slots_merge by (simp add: length_foldl_merge)

section \<open>Widths are the lengths of flattenings\<close>

lemma resolve_nonempty: "positive_lists r \<Longrightarrow> resolveType r tr = Inr u \<Longrightarrow> nonempty_list u"
  by (auto simp: positive_lists_def resolveType_def primDesc_def nonempty_list_def
      split: option.splits if_splits type_desc.splits)

lemma widthsI:
  "(\<And>u w. nonempty_list u \<Longrightarrow> fw u = Inr w \<longleftrightarrow> (\<exists>f. fl u = Inr f \<and> length f = w \<and> w \<le> maxFlatWidth)) \<Longrightarrow> widths fw fl"
  by (simp add: widths_def)

lemma via_widths: "positive_lists r \<Longrightarrow> widths fw fl \<Longrightarrow>
    via r fw tr = Inr w \<longleftrightarrow> (\<exists>f. via r fl tr = Inr f \<and> length f = w \<and> w \<le> maxFlatWidth)"
  unfolding via_def widths_def using resolve_nonempty [of r tr] by (cases "resolveType r tr") auto

lemma vias_widths: "positive_lists r \<Longrightarrow> widths fw fl \<Longrightarrow>
    vias r fw trs = Inr ws \<longleftrightarrow>
    (\<exists>fs. vias r fl trs = Inr fs \<and> ws = map length fs \<and> (\<forall>f \<in> set fs. length f \<le> maxFlatWidth))"
proof (induction trs arbitrary: ws)
  case (Cons tr trs)
  then show ?case by (auto simp: via_widths)
qed auto

lemma sum_widths_flats:
  assumes "positive_lists r" "widths fw fl"
  shows "sum_widths r fw trs = Inr w \<longleftrightarrow>
    (\<exists>f. append_flats r fl trs = Inr f \<and> length f = w \<and> w \<le> maxFlatWidth)"
proof -
  have "\<forall>f \<in> set fs. length f \<le> length (concat fs)" for fs :: "string list list"
    by (simp add: length_concat member_le_sum_list)
  then have "(\<forall>f \<in> set fs. length f \<le> maxFlatWidth) \<and> length (concat fs) \<le> maxFlatWidth \<longleftrightarrow>
      length (concat fs) \<le> maxFlatWidth" for fs :: "string list list"
    using le_trans by blast
  then show ?thesis unfolding sum_widths_Inr append_flats_concat vias_widths [OF assms] bindE_eq_Inr
    by (metis length_concat Inr_inject)
qed

lemma max_widths_flats:
  assumes "positive_lists r" "widths fw fl"
  shows "bindE (vias r fw trs) (\<lambda>ws. Inr (foldl max 0 ws)) = Inr w \<and> w < maxFlatWidth \<longleftrightarrow>
    (\<exists>fs. vias r fl trs = Inr fs \<and> foldl max 0 (map length fs) = w \<and> w < maxFlatWidth)"
proof -
  have "(\<forall>f \<in> set fs. length f \<le> maxFlatWidth)" if "foldl max 0 (map length fs) < maxFlatWidth"
    for fs :: "string list list"
    using foldl_max_ge [of 0 "map length fs"] that by auto
  then show ?thesis unfolding vias_widths [OF assms] bindE_eq_Inr by auto
qed

lemma fixedListCopies_bound:
  assumes "w \<le> maxFlatWidth"
  shows "w * fixedListCopies w n \<le> maxFlatWidth"
proof -
  consider "w = 0" | "0 < w" "unat (of_nat w * ucast n :: u64) \<le> 16" | "0 < w" "w \<le> 16" "\<not> unat (of_nat w * ucast n :: u64) \<le> 16"
    | "16 < w" "\<not> unat (of_nat w * ucast n :: u64) \<le> 16" by linarith
  then show ?thesis
  proof cases
    case 2
    have n: "unat n < 2 ^ 32" using unsigned_less [of n, where 'a = nat] by simp
    have u: "unat (ucast n :: u64) = unat n"
      unfolding unsigned_ucast_eq using n by (intro take_bit_nat_eq_self) simp
    have w: "unat (of_nat w :: u64) = w" using assms by (simp add: unat_of_nat maxFlatWidth_def)
    have "w * unat n \<le> 2 ^ 20 * 2 ^ 32" using assms n by (intro mult_mono) (auto simp: maxFlatWidth_def)
    then have "unat (of_nat w * ucast n :: u64) = w * unat n"
      using unat_mult_lem [of "of_nat w :: u64" "ucast n"] u w by simp
    with 2 show ?thesis by (simp add: fixedListCopies_def MaxFlatParams_def maxFlatWidth_def)
  next
    case 3
    have "w * (16 div w) \<le> 16" by (metis div_times_less_eq_dividend mult.commute)
    with 3(2) have "w + w * (16 div w) \<le> 32" by linarith
    with 3 show ?thesis by (simp add: fixedListCopies_def MaxFlatParams_def maxFlatWidth_def)
  next
    case 4
    then show ?thesis using assms by (simp add: fixedListCopies_def MaxFlatParams_def)
  qed (simp add: fixedListCopies_def)
qed

lemma fixedListCopies_pos: "n \<noteq> 0 \<Longrightarrow> w \<noteq> 0 \<Longrightarrow> 0 < fixedListCopies w n"
  by (simp add: fixedListCopies_def unat_gt_0)

lemma flattenPrimitive_short: "flattenPrimitive p = Inr f \<Longrightarrow> length f \<le> 2"
proof -
  have "case flattenPrimitive p of Inl _ \<Rightarrow> True | Inr f \<Rightarrow> length f \<le> 2"
    by (simp add: flattenPrimitive_def flatKinds_defs)
  then show "flattenPrimitive p = Inr f \<Longrightarrow> length f \<le> 2" by simp
qed

lemma discriminant_flat:
  "flattenPrimitive (DiscriminantType n) =
     (if n = 0 \<or> 4294967295 < n then Inl (Unknown_primitive []) else Inr [''i32''])"
  by (simp add: DiscriminantType_def flattenPrimitive_def flatKinds_defs)

lemma FlatWidth_body_widths:
  assumes p: "positive_lists r" and w: "widths fw fl" and t: "nonempty_list t"
  shows "FlatWidth_body r fw t = Inr w \<longleftrightarrow>
    (\<exists>f. Flatten_body r fw fl t = Inr f \<and> length f = w \<and> w \<le> maxFlatWidth)"
proof -
  have sum: "sum_widths r fw trs = Inr w \<longleftrightarrow>
      (\<exists>f. bindE (sum_widths r fw trs) (\<lambda>_. append_flats r fl trs) = Inr f \<and> length f = w \<and> w \<le> maxFlatWidth)"
    for trs
    using sum_widths_flats [OF p w, of trs] by auto
  have small: "length f \<le> maxFlatWidth" if "flattenPrimitive p = Inr f" for p f
    using flattenPrimitive_short [OF that] by (simp add: maxFlatWidth_def)
  show ?thesis
  proof (cases t)
    case (RecordDesc fs)
    with sum [of "map snd fs"] show ?thesis
      by (simp add: FlatWidth_body_def Flatten_body_def flattenRecord_def)
  next
    case (TupleDesc es)
    with sum [of es] show ?thesis
      by (simp add: FlatWidth_body_def Flatten_body_def flattenTuple_def)
  next
    case (PrimitiveDesc p)
    then show ?thesis using small by (auto simp: FlatWidth_body_def Flatten_body_def flatWidthPrimitive_def)
  next
    case (FixedListDesc e n)
    with t have n: "n \<noteq> 0" by (simp add: nonempty_list_def)
    have "x \<le> x * fixedListCopies x n" for x using fixedListCopies_pos [OF n, of x] by (cases "x = 0") auto
    then have bound: "x \<le> maxFlatWidth \<longleftrightarrow> x * fixedListCopies x n \<le> maxFlatWidth" for x
      using fixedListCopies_bound le_trans by blast
    have "FlatWidth_body r fw t = Inr w \<longleftrightarrow> (\<exists>x. via r fw (Some e) = Inr x \<and> x * fixedListCopies x n = w)"
      by (simp add: FixedListDesc FlatWidth_body_def flatWidthFixedList_def)
    also have "\<dots> \<longleftrightarrow> (\<exists>f. via r fl (Some e) = Inr f \<and> length f * fixedListCopies (length f) n = w \<and> w \<le> maxFlatWidth)"
      unfolding via_widths [OF p w] using bound by blast
    also have "\<dots> \<longleftrightarrow> (\<exists>f. Flatten_body r fw fl t = Inr f \<and> length f = w \<and> w \<le> maxFlatWidth)"
      by (auto simp: FixedListDesc Flatten_body_def flattenFixedList_def Let_def)
    finally show ?thesis .
  next
    case (OptionDesc e)
    then show ?thesis
      by (auto simp: FlatWidth_body_def Flatten_body_def flattenOption_def addFlatWidth_Inr via_widths [OF p w])
  next
    case (VariantDesc cs)
    let ?refs = "List.map_filter snd cs"
    have "FlatWidth_body r fw t = Inr w \<longleftrightarrow> cs \<noteq> [] \<and> length cs \<le> 4294967295 \<and>
        (\<exists>m. (bindE (vias r fw ?refs) (\<lambda>ws. Inr (foldl max 0 ws)) = Inr m \<and> m < maxFlatWidth) \<and> w = Suc m)"
      by (auto simp: VariantDesc FlatWidth_body_def case_widths flatWidthPrimitive_def discriminant_flat
          addFlatWidth_Inr simp del: bindE_eq_Inr)
         (auto simp: addFlatWidth_Inr)
    also have "\<dots> \<longleftrightarrow> (\<exists>f. Flatten_body r fw fl t = Inr f \<and> length f = w \<and> w \<le> maxFlatWidth)"
      unfolding max_widths_flats [OF p w]
      by (auto simp: VariantDesc Flatten_body_def flattenVariant_def case_flats discriminant_flat)
    finally show ?thesis .
  next
    case (ResultDesc ok er)
    have o: "(case tr of None \<Rightarrow> Inr 0 | Some x \<Rightarrow> via r fw (Some x)) = Inr a \<longleftrightarrow>
        (\<exists>f. (case tr of None \<Rightarrow> Inr [] | Some x \<Rightarrow> via r fl (Some x)) = Inr f \<and> length f = a \<and> a \<le> maxFlatWidth)" for tr a
      by (cases tr) (auto simp: via_widths [OF p w])
    have s: "length (join_slots [f, g] (max (length g) (length f))) = max (length f) (length g)" for f g
      using length_join_slots [of "[f, g]"] by (simp add: max.commute)
    show ?thesis
      by (auto simp: ResultDesc FlatWidth_body_def Flatten_body_def flattenResult_def addFlatWidth_Inr o s Let_def if_max)
  qed (auto simp: FlatWidth_body_def Flatten_body_def flattenList_def flatKinds_defs maxFlatWidth_def
      flattenEnum_def flattenFlagsNumLabels_def)
qed

lemma FlatWidth_widths: "positive_lists r \<Longrightarrow> widths (FlatWidth n r) (Flatten n r)"
proof (induction n)
  case (Suc n)
  then show ?case by (intro widthsI) (simp add: FlatWidth_body_widths)
qed (simp add: widths_def)

section \<open>The walks use their children only\<close>

lemma vias_agree: "agree r t f g \<Longrightarrow> set trs \<subseteq> set (layout_refs t) \<Longrightarrow> vias r f trs = vias r g trs"
  by (intro mapE_cong) (auto intro: via_agree)

lemma vias_no_overflow:
  "no_overflow r t f \<Longrightarrow> set trs \<subseteq> set (layout_refs t) \<Longrightarrow> vias r f trs \<noteq> Inl Stack_overflow"
  by (auto dest!: mapE_Inl simp: via_no_overflow subset_iff)

lemma sum_widths_agree:
  assumes "agree r t f g" "set trs \<subseteq> set (layout_refs t)"
  shows "sum_widths r f trs = sum_widths r g trs"
  unfolding sum_widths_def using assms by (intro foldE_cong refl bindE_cong) (auto intro!: via_agree)

lemma sum_widths_no_overflow:
  assumes "no_overflow r t f" "set trs \<subseteq> set (layout_refs t)"
  shows "sum_widths r f trs \<noteq> Inl Stack_overflow"
  unfolding sum_widths_def using assms
  by (auto dest!: foldE_Inl simp: bindE_eq_Inl via_no_overflow subset_iff addFlatWidth_def split: if_splits)

lemma flattenPrimitive_no_overflow [simp]: "flattenPrimitive p \<noteq> Inl Stack_overflow"
  by (simp add: flattenPrimitive_def)

lemma opt_via_agree:
  assumes "agree r (ResultDesc ok er) f g" "tr = ok \<or> tr = er"
  shows "(case tr of None \<Rightarrow> d | Some x \<Rightarrow> via r f (Some x)) = (case tr of None \<Rightarrow> d | Some x \<Rightarrow> via r g (Some x))"
  using assms(2) by (auto split: option.splits intro!: via_agree [OF assms(1)])

lemma opt_via_no_overflow:
  assumes "no_overflow r (ResultDesc ok er) f" "tr = ok \<or> tr = er" "d \<noteq> Inl Stack_overflow"
  shows "(case tr of None \<Rightarrow> d | Some x \<Rightarrow> via r f (Some x)) \<noteq> Inl Stack_overflow"
  using assms(2,3) by (auto split: option.splits simp: via_no_overflow [OF assms(1)])

lemma FlatWidth_body_agree:
  assumes "agree r t f g"
  shows "FlatWidth_body r f t = FlatWidth_body r g t"
proof (cases t)
  case (VariantDesc cs)
  with vias_agree [OF assms, of "List.map_filter snd cs"] show ?thesis by (simp add: FlatWidth_body_def case_widths)
next
  case (ResultDesc ok er)
  with opt_via_agree [of r ok er f g] assms show ?thesis by (simp add: FlatWidth_body_def)
next
  case (OptionDesc e)
  with via_agree [OF assms, of e] show ?thesis by (simp add: FlatWidth_body_def)
next
  case (FixedListDesc e n)
  with via_agree [OF assms, of e] show ?thesis by (simp add: FlatWidth_body_def flatWidthFixedList_def)
qed (use assms in \<open>auto simp: FlatWidth_body_def intro!: sum_widths_agree\<close>)

lemma FlatWidth_body_no_overflow:
  assumes "no_overflow r t f"
  shows "FlatWidth_body r f t \<noteq> Inl Stack_overflow"
proof (cases t)
  case (VariantDesc cs)
  with vias_no_overflow [OF assms, of "List.map_filter snd cs"] show ?thesis
    by (auto simp: FlatWidth_body_def case_widths bindE_eq_Inl flatWidthPrimitive_def addFlatWidth_def)
next
  case (ResultDesc ok er)
  with opt_via_no_overflow [of r ok er f] assms show ?thesis
    by (auto simp: FlatWidth_body_def bindE_eq_Inl addFlatWidth_def split: if_splits)
next
  case (OptionDesc e)
  with via_no_overflow [OF assms, of e] show ?thesis by (auto simp: FlatWidth_body_def bindE_eq_Inl addFlatWidth_def)
next
  case (FixedListDesc e n)
  with via_no_overflow [OF assms, of e] show ?thesis
    by (auto simp: FlatWidth_body_def flatWidthFixedList_def bindE_eq_Inl)
next
  case (RecordDesc fs)
  with sum_widths_no_overflow [OF assms, of "map snd fs"] show ?thesis by (simp add: FlatWidth_body_def)
next
  case (TupleDesc es)
  with sum_widths_no_overflow [OF assms, of es] show ?thesis by (simp add: FlatWidth_body_def)
qed (auto simp: FlatWidth_body_def flatWidthPrimitive_def flattenFlagsNumLabels_def flattenEnum_def bindE_eq_Inl
      split: if_splits)

lemma Flatten_body_agree:
  assumes "agree r t d d'" "agree r t f g"
  shows "Flatten_body r d f t = Flatten_body r d' g t"
proof (cases t)
  case (VariantDesc cs)
  with vias_agree [OF assms(2), of "List.map_filter snd cs"] show ?thesis
    by (simp add: Flatten_body_def flattenVariant_def case_flats)
next
  case (ResultDesc ok er)
  with opt_via_agree [of r ok er f g] assms(2) show ?thesis by (simp add: Flatten_body_def flattenResult_def)
next
  case (OptionDesc e)
  with via_agree [OF assms(2), of e] show ?thesis by (simp add: Flatten_body_def flattenOption_def)
next
  case (FixedListDesc e n)
  with via_agree [OF assms(2), of e] show ?thesis by (simp add: Flatten_body_def flattenFixedList_def)
next
  case (RecordDesc fs)
  with vias_agree [OF assms(2), of "map snd fs"] FlatWidth_body_agree [OF assms(1)] show ?thesis
    by (simp add: Flatten_body_def flattenRecord_def append_flats_concat)
next
  case (TupleDesc es)
  with vias_agree [OF assms(2), of es] FlatWidth_body_agree [OF assms(1)] show ?thesis
    by (simp add: Flatten_body_def flattenTuple_def append_flats_concat)
qed (simp_all add: Flatten_body_def)

lemma Flatten_body_no_overflow:
  assumes "no_overflow r t d" "no_overflow r t f"
  shows "Flatten_body r d f t \<noteq> Inl Stack_overflow"
proof (cases t)
  case (VariantDesc cs)
  with vias_no_overflow [OF assms(2), of "List.map_filter snd cs"] show ?thesis
    by (auto simp: Flatten_body_def flattenVariant_def case_flats bindE_eq_Inl)
next
  case (ResultDesc ok er)
  with opt_via_no_overflow [of r ok er f] assms(2) show ?thesis
    by (auto simp: Flatten_body_def flattenResult_def bindE_eq_Inl Let_def)
next
  case (OptionDesc e)
  with via_no_overflow [OF assms(2), of e] show ?thesis by (auto simp: Flatten_body_def flattenOption_def bindE_eq_Inl)
next
  case (FixedListDesc e n)
  with via_no_overflow [OF assms(2), of e] show ?thesis
    by (auto simp: Flatten_body_def flattenFixedList_def bindE_eq_Inl Let_def)
next
  case (RecordDesc fs)
  with vias_no_overflow [OF assms(2), of "map snd fs"] FlatWidth_body_no_overflow [OF assms(1)] show ?thesis
    by (auto simp: Flatten_body_def flattenRecord_def append_flats_concat bindE_eq_Inl)
next
  case (TupleDesc es)
  with vias_no_overflow [OF assms(2), of es] FlatWidth_body_no_overflow [OF assms(1)] show ?thesis
    by (auto simp: Flatten_body_def flattenTuple_def append_flats_concat bindE_eq_Inl)
qed (auto simp: Flatten_body_def flattenList_def flattenFlagsNumLabels_def flattenEnum_def split: if_splits)

interpretation flat_width: type_walk "\<lambda>_ _ _. Inr ()" "\<lambda>r _. FlatWidth_body r" FlatWidth
proof unfold_locales
  fix r t and d d' :: "type_desc \<Rightarrow> abi_error + unit" and f g :: "type_desc \<Rightarrow> abi_error + nat"
  assume "\<And>u. u \<in> set (layout_children r t) \<Longrightarrow> d u = d' u \<and> f u = g u"
  then show "FlatWidth_body r f t = FlatWidth_body r g t" by (intro FlatWidth_body_agree) (simp add: agree_def)
next
  fix r t and d :: "type_desc \<Rightarrow> abi_error + unit" and f :: "type_desc \<Rightarrow> abi_error + nat"
  assume "\<And>u. u \<in> set (layout_children r t) \<Longrightarrow> d u \<noteq> Inl Stack_overflow \<and> f u \<noteq> Inl Stack_overflow"
  then show "FlatWidth_body r f t \<noteq> Inl Stack_overflow"
    by (intro FlatWidth_body_no_overflow) (simp add: no_overflow_def)
qed simp_all

interpretation flattening: type_walk FlatWidth Flatten_body Flatten
proof unfold_locales
  fix r t and d d' :: "type_desc \<Rightarrow> abi_error + nat" and f g :: "type_desc \<Rightarrow> abi_error + string list"
  assume "\<And>u. u \<in> set (layout_children r t) \<Longrightarrow> d u = d' u \<and> f u = g u"
  then show "Flatten_body r d f t = Flatten_body r d' g t" by (intro Flatten_body_agree) (simp_all add: agree_def)
next
  fix r t and d :: "type_desc \<Rightarrow> abi_error + nat" and f :: "type_desc \<Rightarrow> abi_error + string list"
  assume "\<And>u. u \<in> set (layout_children r t) \<Longrightarrow> d u \<noteq> Inl Stack_overflow \<and> f u \<noteq> Inl Stack_overflow"
  then show "Flatten_body r d f t \<noteq> Inl Stack_overflow"
    by (intro Flatten_body_no_overflow) (simp_all add: no_overflow_def)
qed (rule flat_width.enough_stack, simp_all)

section \<open>Against the Canonical ABI\<close>

lemma faithful_concat: "list_all2 faithful fls frs \<Longrightarrow> faithful (concat fls) (concat frs)"
proof (induction rule: list_all2_induct)
  case (Cons fl fls fr frs)
  then show ?case by (auto simp: faithful_def split: if_splits)
qed (simp add: faithful_def)

lemma faithful_merge: "faithful f f' \<Longrightarrow> faithful g g' \<Longrightarrow> faithful (merge f g) (merge f' g')"
  by (auto simp: faithful_def split: if_splits)

lemma faithful_variant:
  assumes "list_all2 faithful fls frs"
  shows "faithful (d # foldl merge [] fls) (d # foldl merge [] frs)"
proof (cases "\<forall>fr \<in> set frs. length fr \<le> 16")
  case True
  with assms have "fls = frs" by (induction rule: list_all2_induct) (auto simp: faithful_def)
  then show ?thesis by (simp add: faithful_def)
next
  case False
  with assms have "\<exists>fl \<in> set fls. 16 < length fl"
    by (induction rule: list_all2_induct) (auto simp: faithful_def not_le)
  then obtain fl fr where "fl \<in> set fls" "16 < length fl" "fr \<in> set frs" "16 < length fr"
    using False by (auto simp: not_le)
  moreover have "length x \<le> length (foldl merge [] xs)" if "x \<in> set xs" for x xs
    using foldl_max_ge [of 0 "map length xs"] that by (auto simp: length_foldl_merge)
  ultimately have "16 < length (foldl merge [] fls)" "16 < length (foldl merge [] frs)"
    by (meson less_le_trans)+
  then show ?thesis by (simp add: faithful_def)
qed

lemma copies_spec:
  assumes "0 < w"
  shows "if w * unat n \<le> 16 then fixedListCopies w n = unat n else 16 < w * fixedListCopies w n"
proof -
  have n: "unat (ucast n :: u64) = unat n"
    unfolding unsigned_ucast_eq using unsigned_less [of n, where 'a = nat] by (intro take_bit_nat_eq_self) simp
  have "unat (of_nat w * ucast n :: u64) = w * unat n" if "w * unat n \<le> 16"
  proof (cases "unat n = 0")
    case False
    then have "w \<le> w * unat n" by simp
    with that have "w \<le> 16" by (rule order_trans [rotated])
    then have "unat (of_nat w :: u64) = w" by (simp add: unat_of_nat)
    with n that show ?thesis using unat_mult_lem [of "of_nat w :: u64" "ucast n"] by simp
  qed (use n in \<open>simp add: unat_word_ariths\<close>)
  moreover have "16 < w * (16 div w + 1)"
  proof -
    have "16 = w * (16 div w) + 16 mod w" by simp
    moreover have "16 mod w < w" using assms by simp
    ultimately show ?thesis by (metis add_less_cancel_left distrib_left mult.right_neutral)
  qed
  ultimately show ?thesis using assms by (simp add: fixedListCopies_def MaxFlatParams_def)
qed

lemma faithful_fixed_list:
  assumes "faithful f f'"
  shows "faithful (concat (replicate (fixedListCopies (length f) n) f)) (concat (replicate (unat n) f'))"
proof (cases "unat n = 0")
  case True
  then have "n = 0" by (simp add: unat_eq_0)
  then show ?thesis by (simp add: faithful_def fixedListCopies_def)
next
  case False
  show ?thesis
  proof (cases "length f' \<le> 16")
    case True
    then have "f = f'" using assms by (simp add: faithful_def)
    then show ?thesis using copies_spec [of "length f" n]
      by (cases "f = []") (auto simp: faithful_def mult.commute split: if_splits)
  next
    case big: False
    with assms have f: "16 < length f" by (auto simp: faithful_def)
    then have "16 < length f * unat n" "16 < length f' * unat n" using big False by (auto intro: less_le_trans [of 16 "length f"] less_le_trans [of 16 "length f'"])
    moreover have "0 < length f" using f by linarith
    ultimately show ?thesis using copies_spec [of "length f" n] f by (simp add: faithful_def)
  qed
qed

lemma via_refines:
  assumes "refines fl sp" "via r fl (Some tr) = Inr f"
  shows "\<exists>u f'. resolveType r (Some tr) = Inr u \<and> sp u = Some f' \<and> faithful f f'"
  using assms by (auto simp: refines_def via_def)

lemma vias_refines:
  assumes "refines fl sp"
  shows "vias r fl trs = Inr fs \<Longrightarrow> \<exists>fs'. spec_refs r sp trs = Some fs' \<and> list_all2 faithful fs fs'"
proof (induction trs arbitrary: fs)
  case (Cons tr trs)
  then obtain f gs where f: "via r fl (Some tr) = Inr f" "vias r fl trs = Inr gs" "fs = f # gs" by auto
  from Cons.IH [OF f(2)] obtain gs' where "spec_refs r sp trs = Some gs'" "list_all2 faithful gs gs'" by blast
  with via_refines [OF assms f(1)] f(3) show ?case by auto
qed simp

lemma prim_flatten: "flattenPrimitive p = Inr f \<Longrightarrow> spec_flatten_prim p = Some f"
proof -
  have "case flattenPrimitive p of Inl _ \<Rightarrow> True | Inr f \<Rightarrow> spec_flatten_prim p = Some f"
    by (simp add: flattenPrimitive_def flatKinds_defs spec_flatten_prim_def)
  then show "flattenPrimitive p = Inr f \<Longrightarrow> spec_flatten_prim p = Some f" by simp
qed

lemma faithful_refl: "faithful f f"
  by (simp add: faithful_def)

lemma merge_Nil2 [simp]: "merge xs [] = xs"
  by (cases xs) simp_all

lemma Flatten_body_refines:
  assumes sp: "refines fl sp" and body: "Flatten_body r fw fl t = Inr f"
  shows "\<exists>f'. spec_flatten_node r sp (despecialize t) = Some f' \<and> faithful f f'"
proof (cases t)
  case (RecordDesc fs)
  with body obtain gs where "vias r fl (map snd fs) = Inr gs" "f = concat gs"
    by (auto simp: Flatten_body_def flattenRecord_def append_flats_concat)
  with vias_refines [OF sp, of r "map snd fs"] RecordDesc show ?thesis
    by (auto simp: despecialize_def spec_flatten_node_def intro: faithful_concat)
next
  case (TupleDesc es)
  with body obtain gs where "vias r fl es = Inr gs" "f = concat gs"
    by (auto simp: Flatten_body_def flattenTuple_def append_flats_concat)
  with vias_refines [OF sp, of r es] TupleDesc show ?thesis
    by (auto simp: despecialize_def spec_flatten_node_def comp_def intro: faithful_concat)
next
  case (VariantDesc cs)
  with body obtain gs where g: "vias r fl (List.map_filter snd cs) = Inr gs" "f = ''i32'' # foldl merge [] gs" "cs \<noteq> []"
    by (auto simp: Flatten_body_def flattenVariant_def case_flats discriminant_flat join_slots_merge split: if_splits)
  with vias_refines [OF sp g(1)] VariantDesc faithful_variant [of gs] show ?thesis
    by (auto simp: despecialize_def spec_flatten_node_def)
next
  case (OptionDesc e)
  with body obtain g where g: "via r fl (Some e) = Inr g" "f = ''i32'' # g"
    by (auto simp: Flatten_body_def flattenOption_def)
  from via_refines [OF sp g(1)] obtain u g' where g': "resolveType r (Some e) = Inr u" "sp u = Some g'" "faithful g g'"
    by blast
  with faithful_variant [of "[g]" "[g']" "''i32''"] g OptionDesc show ?thesis
    by (simp add: despecialize_def spec_flatten_node_def List.map_filter_simps)
next
  case (ResultDesc ok er)
  with body obtain f1 f2 where ff:
    "(case ok of None \<Rightarrow> Inr [] | Some tr \<Rightarrow> via r fl (Some tr)) = Inr f1"
    "(case er of None \<Rightarrow> Inr [] | Some tr \<Rightarrow> via r fl (Some tr)) = Inr f2"
    "f = ''i32'' # join_slots [f1, f2] (max (length f2) (length f1))"
    by (auto simp: Flatten_body_def flattenResult_def Let_def)
  have f: "f = ''i32'' # merge f1 f2"
    using ff(3) join_slots_merge [of "[f1, f2]"] by (simp add: max.commute)
  let ?cs = "[(''ok'', ok), (''error'', er)]"
  have "\<exists>gs. vias r fl (List.map_filter snd ?cs) = Inr gs \<and> foldl merge [] gs = merge f1 f2"
    using ff(1,2) by (cases ok; cases er) (simp_all add: List.map_filter_simps)
  then obtain gs where gs: "vias r fl (List.map_filter snd ?cs) = Inr gs" "foldl merge [] gs = merge f1 f2" by blast
  from vias_refines [OF sp gs(1)] obtain gs' where gs': "spec_refs r sp (List.map_filter snd ?cs) = Some gs'"
    "list_all2 faithful gs gs'" by blast
  have "spec_flatten_node r sp (despecialize t) = Some (''i32'' # foldl merge [] gs')"
    using gs'(1) by (simp add: ResultDesc despecialize_def spec_flatten_node_def)
  with faithful_variant [OF gs'(2), of "''i32''"] gs(2) f show ?thesis by simp
next
  case (FixedListDesc e n)
  with body obtain g where g: "via r fl (Some e) = Inr g" "f = concat (replicate (fixedListCopies (length g) n) g)"
    by (auto simp: Flatten_body_def flattenFixedList_def Let_def)
  from via_refines [OF sp g(1)] faithful_fixed_list g FixedListDesc show ?thesis
    by (auto simp: despecialize_def spec_flatten_node_def)
next
  case (PrimitiveDesc p)
  with body prim_flatten [of p f] show ?thesis
    by (auto simp: Flatten_body_def despecialize_def spec_flatten_node_def faithful_refl)
next
  case (EnumDesc cs)
  with body show ?thesis
    by (auto simp: Flatten_body_def flattenEnum_def despecialize_def spec_flatten_node_def faithful_def no_payloads
      flatKinds_defs split: if_splits)
qed (use body in \<open>auto simp: Flatten_body_def flattenList_def flattenFlagsNumLabels_def despecialize_def spec_flatten_node_def
      flatKinds_defs faithful_def split: if_splits\<close>)

lemma Flatten_refines: "refines (Flatten n r) (spec_flatten n r)"
proof (induction n)
  case (Suc n)
  show ?case unfolding refines_def using Flatten_body_refines [OF Suc] by simp
qed (simp add: refines_def)

section \<open>Function types\<close>

lemma append_flats_refines:
  assumes "append_flats r (Flatten n r) trs = Inr f"
  shows "\<exists>f'. map_option concat (spec_refs r (spec_flatten n r) trs) = Some f' \<and> faithful f f'"
proof -
  from assms obtain gs where "vias r (Flatten n r) trs = Inr gs" "f = concat gs" by (auto simp: append_flats_concat)
  with vias_refines [OF Flatten_refines [of n r], of r trs gs] show ?thesis by (auto intro: faithful_concat)
qed

lemma results_refine:
  assumes "(case Unnamed f of Some tr \<Rightarrow> via r (Flatten n r) (Some tr)
      | None \<Rightarrow> append_flats r (Flatten n r) (map snd (Named f))) = Inr rs"
  shows "\<exists>rs'. map_option concat (spec_refs r (spec_flatten n r)
      (case Unnamed f of Some tr \<Rightarrow> [tr] | None \<Rightarrow> map snd (Named f))) = Some rs' \<and> faithful rs rs'"
proof (cases "Unnamed f")
  case (Some tr)
  with assms via_refines [OF Flatten_refines] show ?thesis by fastforce
qed (use assms append_flats_refines in simp)

lemma FlattenFunc_spec:
  assumes "FlattenFunc n r f context = Inr (ps, rs)"
  shows "spec_flatten_functype n r f (context = ''lift'') = Some (ps, rs)"
proof -
  from assms obtain p q where
    p: "append_flats r (Flatten n r) (map snd (Params f)) = Inr p" and
    q: "(case Unnamed f of Some tr \<Rightarrow> via r (Flatten n r) (Some tr)
      | None \<Rightarrow> append_flats r (Flatten n r) (map snd (Named f))) = Inr q"
    by (auto simp: FlattenFunc_def)
  obtain p' where p': "map_option concat (spec_refs r (spec_flatten n r) (map snd (Params f))) = Some p'" "faithful p p'"
    using append_flats_refines [OF p] by blast
  obtain q' where q': "map_option concat (spec_refs r (spec_flatten n r)
      (case Unnamed f of Some tr \<Rightarrow> [tr] | None \<Rightarrow> map snd (Named f))) = Some q'" "faithful q q'"
    using results_refine [OF q] by blast
  have pp: "(if 16 < length p then [''i32''] else p) = (if 16 < length p' then [''i32''] else p')"
    using p'(2) by (auto simp: faithful_def split: if_splits)
  have qq: "1 < length q \<longleftrightarrow> 1 < length q'" "length q' \<le> 1 \<Longrightarrow> q = q'"
    using q'(2) by (auto simp: faithful_def split: if_splits)
  have "(let params = (if 16 < length p then [''i32''] else p) in
     if 1 < length q then
       if context = ''lift'' then Inr (params, [''i32''])
       else if context = ''lower'' then Inr (params @ [''i32''], [])
       else Inl (Invalid_context context)
     else Inr (params, q)) = Inr (ps, rs)"
    using assms unfolding FlattenFunc_def p q bindE_simps MaxFlatParams_def MaxFlatResults_def .
  then show ?thesis unfolding spec_flatten_functype_def p'(1) q'(1) pp using qq
    by (auto simp: Let_def split: if_splits)
qed

lemma FlattenFunc_bounds:
  assumes "FlattenFunc n r f context = Inr (ps, rs)"
  shows "length ps \<le> 17 \<and> length rs \<le> 1 \<and> (context = ''lift'' \<longrightarrow> length ps \<le> 16)"
  using assms by (auto simp: FlattenFunc_def Let_def MaxFlatParams_def MaxFlatResults_def split: if_splits)

section \<open>A width at the bound\<close>

lemma resolve_doubling: "i < 2 ^ 32 \<Longrightarrow> resolveType doubling (Some (index_ref (of_nat i))) = Inr (doubling_desc i)"
proof -
  assume "i < 2 ^ 32"
  then have "(of_nat i :: u32) = 0 \<longleftrightarrow> i = 0"
    using unat_of_nat [of i, where 'a = 32] by (auto simp: unat_eq_0 [symmetric])
  moreover have "i \<noteq> 0 \<Longrightarrow> (of_nat (i - 1) :: u32) = of_nat i - 1" by (simp add: of_nat_diff)
  ultimately show ?thesis by (auto simp: resolveType_def doubling_def index_ref_def doubling_desc_def)
qed

lemma addFlatWidth_ok: "a + b \<le> maxFlatWidth \<Longrightarrow> addFlatWidth a b = Inr (a + b)"
  by (simp add: addFlatWidth_Inr)

lemma flat_numeral [simp]:
  "FlatWidth (numeral k) r t = FlatWidth_body r (FlatWidth (pred_numeral k) r) t"
  "Flatten (numeral k) r t = Flatten_body r (FlatWidth (pred_numeral k) r) (Flatten (pred_numeral k) r) t"
  by (simp_all add: numeral_eq_Suc)

lemma width_doubling: "i \<le> 20 \<Longrightarrow> FlatWidth (Suc i) doubling (doubling_desc i) = Inr (2 ^ i)"
proof (induction i)
  case 0
  show ?case by (simp add: doubling_desc_def FlatWidth_body_def flatWidthPrimitive_def flattenPrimitive_def flatKinds_defs)
next
  case (Suc i)
  then have v: "via doubling (FlatWidth (Suc i) doubling) (Some (index_ref (of_nat i))) = Inr (2 ^ i)"
    by (simp add: via_def resolve_doubling del: FlatWidth.simps)
  have "(2::nat) ^ i \<le> 524288"
    using Suc.prems power_increasing [of i 19 "2::nat"] by simp
  then show ?case unfolding FlatWidth.simps(2) [of "Suc i"]
    by (simp add: doubling_desc_def FlatWidth_body_def sum_widths_def v addFlatWidth_ok maxFlatWidth_def del: FlatWidth.simps)
qed

lemma positive_doubling: "positive_lists doubling"
  by (simp add: positive_lists_def doubling_def)

section \<open>Properties\<close>

text \<open>
  C22. \<^verbatim>\<open>FlattenFunc\<close> refines the Canonical ABI's \<^verbatim>\<open>flatten_functype\<close>: whatever core signature it
  returns is the specified one, although \<^verbatim>\<open>Flatten\<close> truncates wide fixed-length lists; and
  the signature has at most 17 parameters (16 when lifting) and at most one result.
\<close>

theorem FlattenFunc_refines_canonical_abi:
  assumes "FlattenFunc n r f context = Inr (ps, rs)"
  shows "spec_flatten_functype n r f (context = ''lift'') = Some (ps, rs) \<and>
    length ps \<le> 17 \<and> length rs \<le> 1 \<and> (context = ''lift'' \<longrightarrow> length ps \<le> 16)"
  using FlattenFunc_spec [OF assms] FlattenFunc_bounds [OF assms] by blast

theorem FlattenFunc_refines_canonical_abi_witness:
  "FlattenFunc 3 sample_func_resolver sample_func ''lower'' = Inr ([''i32'', ''i32''], []) \<and>
   spec_flatten_functype 3 sample_func_resolver sample_func False = Some ([''i32'', ''i32''], [])"
proof -
  have "FlattenFunc 3 sample_func_resolver sample_func ''lower'' = Inr ([''i32'', ''i32''], [])"
    by (simp add: FlattenFunc_def sample_func_def sample_func_resolver_def append_flats_def via_def index_ref_def
        prim_ref_def resolveType_def primDesc_def primDescs_def Flatten_body_def flattenFixedList_def
        flattenPrimitive_def flatKinds_defs fixedListCopies_def MaxFlatParams_def MaxFlatResults_def Let_def)
  with FlattenFunc_refines_canonical_abi [OF this] show ?thesis by simp
qed

text \<open>
  \<^verbatim>\<open>FlatWidth\<close> computes the length of the flattening without building it: it answers \<open>w\<close>
  exactly when \<^verbatim>\<open>Flatten\<close> succeeds with \<open>w\<close> core types and \<open>w\<close> is at most \<open>2 ^ 20\<close>, for types
  whose fixed-length lists are not empty.
\<close>

theorem FlatWidth_is_length:
  assumes "positive_lists r" and "nonempty_list t"
  shows "FlatWidth n r t = Inr w \<longleftrightarrow> (\<exists>f. Flatten n r t = Inr f \<and> length f = w \<and> w \<le> 2 ^ 20)"
  using FlatWidth_widths [OF assms(1), of n] assms(2) by (simp add: widths_def maxFlatWidth_def)

theorem FlatWidth_is_length_witness:
  "positive_lists sample_func_resolver \<and> nonempty_list (OptionDesc (index_ref 0)) \<and>
   FlatWidth 3 sample_func_resolver (OptionDesc (index_ref 0)) = Inr 18 \<and>
   (\<exists>f. Flatten 3 sample_func_resolver (OptionDesc (index_ref 0)) = Inr f \<and> length f = 18)"
proof -
  have p: "positive_lists sample_func_resolver" by (simp add: positive_lists_def sample_func_resolver_def)
  have o: "nonempty_list (OptionDesc (index_ref 0))" by (simp add: nonempty_list_def)
  have "FlatWidth 3 sample_func_resolver (OptionDesc (index_ref 0)) = Inr 18"
    by (simp add: sample_func_resolver_def via_def index_ref_def prim_ref_def resolveType_def primDesc_def
        primDescs_def FlatWidth_body_def flatWidthFixedList_def flatWidthPrimitive_def flattenPrimitive_def
        flatKinds_defs fixedListCopies_def MaxFlatParams_def addFlatWidth_def maxFlatWidth_def)
  with FlatWidth_is_length [OF p o, of 3 18] p o show ?thesis by (auto simp del: flat_numeral)
qed

text \<open>
  The two walks do not agree on errors: for an option whose element flattens to exactly
  \<open>2 ^ 20\<close> core values, \<^verbatim>\<open>FlatWidth\<close> rejects the type and \<^verbatim>\<open>Flatten\<close> returns \<open>2 ^ 20 + 1\<close> values.
\<close>

theorem FlatWidth_rejects_what_Flatten_accepts:
  "FlatWidth 22 doubling (OptionDesc (index_ref 20)) = Inl Flat_width_exceeded \<and>
   (\<exists>f. Flatten 22 doubling (OptionDesc (index_ref 20)) = Inr f \<and> length f = 2 ^ 20 + 1)"
proof -
  have w: "FlatWidth 21 doubling (doubling_desc 20) = Inr (2 ^ 20)" using width_doubling [of 20] by (simp del: flat_numeral FlatWidth.simps)
  have "nonempty_list (doubling_desc 20)" by (simp add: doubling_desc_def nonempty_list_def)
  then obtain f where f: "Flatten 21 doubling (doubling_desc 20) = Inr f" "length f = 2 ^ 20"
    using FlatWidth_widths [OF positive_doubling, of 21] w unfolding widths_def by blast
  have r: "resolveType doubling (Some (index_ref 20)) = Inr (doubling_desc 20)"
    using resolve_doubling [of 20] by simp
  have "FlatWidth (Suc 21) doubling (OptionDesc (index_ref 20)) = Inl Flat_width_exceeded"
    unfolding FlatWidth.simps(2) [of 21]
    by (simp add: FlatWidth_body_def via_def r w addFlatWidth_def maxFlatWidth_def del: flat_numeral)
  moreover have "Flatten (Suc 21) doubling (OptionDesc (index_ref 20)) = Inr (''i32'' # f)"
    unfolding Flatten.simps(2) [of 21] by (simp add: Flatten_body_def flattenOption_def via_def r f del: flat_numeral)
  ultimately show ?thesis using f(2) by (simp del: flat_numeral FlatWidth.simps Flatten.simps)
qed

text \<open>
  Termination of the flattening walks: on a type graph of depth at most \<open>n\<close>, \<open>n\<close> stack
  frames are enough for \<^verbatim>\<open>FlatWidth\<close> and \<^verbatim>\<open>Flatten\<close>, and more frames change no result.
\<close>

theorem flatten_walks_return:
  assumes "depth_within n r t" and "n \<le> m"
  shows "FlatWidth m r t = FlatWidth n r t \<and> FlatWidth m r t \<noteq> Inl Stack_overflow \<and>
    Flatten m r t = Flatten n r t \<and> Flatten m r t \<noteq> Inl Stack_overflow"
  using flat_width.enough_stack [OF assms] flattening.enough_stack [OF assms] by blast

theorem flatten_walks_return_witness:
  "depth_within 4 sample_resolver sample_type \<and>
   Flatten 100 sample_resolver sample_type = Flatten 4 sample_resolver sample_type"
proof -
  have d: "depth_within 4 sample_resolver sample_type"
    by (simp add: sample_type_def sample_resolver_def layout_children_def index_ref_def prim_ref_def
        resolveType_def primDesc_def primDescs_def List.map_filter_simps)
  moreover have "4 \<le> (100::nat)" by simp
  ultimately show ?thesis using flatten_walks_return [OF d, of 100] by blast
qed

end
