(* ===== verification/Abi_Flat.thy ===== *)
theory Abi_Flat
  imports Abi_Store Abi_Flatten
begin

unbundle bit_operations_syntax

text \<open>
  Values on the core stack: \<^verbatim>\<open>abi/coreval.go\<close>, \<^verbatim>\<open>abi/flat.go\<close>, the flat half of \<^verbatim>\<open>abi/fixedlist.go\<close> and the plans of
  \<^verbatim>\<open>abi/plan.go\<close>. Lowering turns a value into core values, lifting reads it back through an iterator. The
  payload of a variant is coerced to the joined type of its slot when it is lowered, and an iterator
  that wraps the outer one undoes this when it is lifted; variants nest, so these iterators do.
  The lowering code never writes memory itself, and the allocating calls below it refresh their view,
  so memory is passed from call to call here. \<^verbatim>\<open>AsI32\<close> and its siblings panic on another kind.
\<close>

section \<open>Core values\<close>

record CoreValue =
  Kind :: string
  Bits :: u64

definition NewCoreValueI32 :: "u32 \<Rightarrow> CoreValue" where "NewCoreValueI32 v = \<lparr>Kind = ''i32'', Bits = ucast v\<rparr>"

definition NewCoreValueI64 :: "u64 \<Rightarrow> CoreValue" where "NewCoreValueI64 v = \<lparr>Kind = ''i64'', Bits = v\<rparr>"

definition NewCoreValueF32 :: "u32 \<Rightarrow> CoreValue" where "NewCoreValueF32 v = \<lparr>Kind = ''f32'', Bits = ucast v\<rparr>"

definition NewCoreValueF64 :: "u64 \<Rightarrow> CoreValue" where "NewCoreValueF64 v = \<lparr>Kind = ''f64'', Bits = v\<rparr>"

definition AsI32 :: "CoreValue \<Rightarrow> mem_error + u32" where
  "AsI32 cv = (if Kind cv \<noteq> ''i32'' then Inl (Panic_kind ''i32'' (Kind cv)) else Inr (ucast (Bits cv)))"

definition AsI64 :: "CoreValue \<Rightarrow> mem_error + u64" where
  "AsI64 cv = (if Kind cv \<noteq> ''i64'' then Inl (Panic_kind ''i64'' (Kind cv)) else Inr (Bits cv))"

definition AsF32 :: "CoreValue \<Rightarrow> mem_error + u32" where
  "AsF32 cv = (if Kind cv \<noteq> ''f32'' then Inl (Panic_kind ''f32'' (Kind cv)) else Inr (ucast (Bits cv)))"

definition AsF64 :: "CoreValue \<Rightarrow> mem_error + u64" where
  "AsF64 cv = (if Kind cv \<noteq> ''f64'' then Inl (Panic_kind ''f64'' (Kind cv)) else Inr (Bits cv))"

definition zeroCoreValueForKind :: "string \<Rightarrow> mem_error + CoreValue" where
  "zeroCoreValueForKind kind =
     (if kind = ''i32'' then Inr (NewCoreValueI32 0)
      else if kind = ''i64'' then Inr (NewCoreValueI64 0)
      else if kind = ''f32'' then Inr (NewCoreValueF32 0)
      else if kind = ''f64'' then Inr (NewCoreValueF64 0)
      else Inl (Unknown_kind kind))"

definition coerceValue :: "CoreValue \<Rightarrow> string \<Rightarrow> string \<Rightarrow> mem_error + CoreValue" where
  "coerceValue cv got want =
     (if got = want then Inr cv
      else if got = ''f32'' \<and> want = ''i32'' then bindE (AsF32 cv) (\<lambda>b. Inr (NewCoreValueI32 b))
      else if got = ''i32'' \<and> want = ''i64'' then bindE (AsI32 cv) (\<lambda>b. Inr (NewCoreValueI64 (ucast b)))
      else if got = ''f32'' \<and> want = ''i64'' then bindE (AsF32 cv) (\<lambda>b. Inr (NewCoreValueI64 (ucast b)))
      else if got = ''f64'' \<and> want = ''i64'' then bindE (AsF64 cv) (\<lambda>b. Inr (NewCoreValueI64 b))
      else Inr cv)"

definition deCoerceValue :: "CoreValue \<Rightarrow> string \<Rightarrow> string \<Rightarrow> mem_error + CoreValue" where
  "deCoerceValue cv got want =
     (if got = want then Inr cv
      else if got = ''i32'' \<and> want = ''f32'' then bindE (AsI32 cv) (\<lambda>b. Inr (NewCoreValueF32 b))
      else if got = ''i64'' \<and> want = ''i32'' then bindE (AsI64 cv) (\<lambda>b. Inr (NewCoreValueI32 (ucast b)))
      else if got = ''i64'' \<and> want = ''f32'' then bindE (AsI64 cv) (\<lambda>b. Inr (NewCoreValueF32 (ucast b)))
      else if got = ''i64'' \<and> want = ''f64'' then bindE (AsI64 cv) (\<lambda>b. Inr (NewCoreValueF64 b))
      else Inr cv)"

section \<open>Lowering\<close>

definition lowerChar :: "u32 \<Rightarrow> mem_error + CoreValue" where
  "lowerChar r = bindE (check_rune r) (\<lambda>r. Inr (NewCoreValueI32 r))"

text \<open>The addition of \<^verbatim>\<open>1 << 32\<close> to a negative 32-bit integer (and of \<^verbatim>\<open>1 << 64\<close> to a 64-bit one) adds nothing.\<close>

definition lowerPrimitiveCore :: "val \<Rightarrow> string \<Rightarrow> mem_error + CoreValue" where
  "lowerPrimitiveCore v prim =
     (if prim = ''bool'' then
        (case v of VBool b \<Rightarrow> Inr (NewCoreValueI32 (if b then 1 else 0)) | _ \<Rightarrow> Inl (Wrong_value prim))
      else if prim = ''u8'' \<or> prim = ''u16'' \<or> prim = ''u32'' then
        (case v of VU32 u \<Rightarrow> Inr (NewCoreValueI32 u) | _ \<Rightarrow> Inl (Wrong_value prim))
      else if prim = ''s8'' \<or> prim = ''s16'' \<or> prim = ''s32'' then
        (case v of VS32 i \<Rightarrow> Inr (NewCoreValueI32 (if sint i < 0 then i + push_bit 32 1 else i)) | _ \<Rightarrow> Inl (Wrong_value prim))
      else if prim = ''u64'' then (case v of VU64 u \<Rightarrow> Inr (NewCoreValueI64 u) | _ \<Rightarrow> Inl (Wrong_value prim))
      else if prim = ''s64'' then
        (case v of VS64 i \<Rightarrow> Inr (NewCoreValueI64 (if sint i < 0 then i + push_bit 64 1 else i)) | _ \<Rightarrow> Inl (Wrong_value prim))
      else if prim = ''f32'' then (case v of VF32 f \<Rightarrow> Inr (NewCoreValueF32 f) | _ \<Rightarrow> Inl (Wrong_value prim))
      else if prim = ''f64'' then (case v of VF64 f \<Rightarrow> Inr (NewCoreValueF64 f) | _ \<Rightarrow> Inl (Wrong_value prim))
      else if prim = ''char'' then (case v of VS32 c \<Rightarrow> lowerChar c | _ \<Rightarrow> Inl (Wrong_value prim))
      else if prim = ''error-context'' then (case v of VU32 h \<Rightarrow> Inr (NewCoreValueI32 h) | _ \<Rightarrow> Inl (Wrong_value prim))
      else Inl (Bad_primitive prim))"

type_synonym 's lowered = "mem_error + CoreValue list \<times> 's store"

text \<open>The pointer and the length of a string or list as core values.\<close>

definition ptr_len :: "mem_error + u32 \<times> u32 \<times> 's store \<Rightarrow> 's lowered" where
  "ptr_len res = bindE res (\<lambda>(ptr, len, st). Inr ([NewCoreValueI32 ptr, NewCoreValueI32 len], st))"

definition lowerFlatString :: "'s Realloc \<Rightarrow> bytes \<Rightarrow> 's store \<Rightarrow> 's lowered" where
  "lowerFlatString R s st = ptr_len (allocStoreString R s st)"

definition lowerFlatPrimitive :: "'s Realloc \<Rightarrow> val \<Rightarrow> string \<Rightarrow> 's store \<Rightarrow> 's lowered" where
  "lowerFlatPrimitive R v prim st =
     (if prim = ''string'' then (case v of VString s \<Rightarrow> lowerFlatString R s st | _ \<Rightarrow> Inl (Wrong_value prim))
      else bindE (lowerPrimitiveCore v prim) (\<lambda>cv. Inr ([cv], st)))"

definition lowerFlatList ::
  "'s Realloc \<Rightarrow> (type_desc \<Rightarrow> abi_error + u32) \<Rightarrow> (type_desc \<Rightarrow> abi_error + u32) \<Rightarrow> 's child \<Rightarrow>
   val \<Rightarrow> type_desc \<Rightarrow> 's store \<Rightarrow> 's lowered" where
  "lowerFlatList R al sz sto v elemType st = ptr_len (allocStoreAnyList R al sz sto v elemType st)"

text \<open>\<open>lo\<close> is the call on a child: the value, the type, its flattening if it is known.\<close>

type_synonym 's lower_child = "val \<Rightarrow> type_desc \<Rightarrow> string list option \<Rightarrow> 's store \<Rightarrow> 's lowered"

fun lower_fields :: "resolver \<Rightarrow> 's lower_child \<Rightarrow> type_ref list \<Rightarrow> val list \<Rightarrow> 's store \<Rightarrow> 's lowered" where
  "lower_fields r lo (tr # trs) (v # vs) st =
     bindE (abiE (resolveType r (Some tr))) (\<lambda>fieldType.
     bindE (lo v fieldType None st) (\<lambda>(fieldFlat, st).
     bindE (lower_fields r lo trs vs st) (\<lambda>(flat, st). Inr (fieldFlat @ flat, st))))"
| "lower_fields r lo trs vs st = Inr ([], st)"

definition lowerFlatRecord :: "resolver \<Rightarrow> 's lower_child \<Rightarrow> val \<Rightarrow> (string \<times> type_ref) list \<Rightarrow> 's store \<Rightarrow> 's lowered" where
  "lowerFlatRecord r lo v fs st =
     (case v of
        VList vs \<Rightarrow>
          (if length vs \<noteq> length fs then Inl (Wrong_length (length fs) (length vs))
           else lower_fields r lo (map snd fs) vs st)
      | _ \<Rightarrow> Inl (Wrong_value ''record''))"

definition lowerFlatTuple :: "resolver \<Rightarrow> 's lower_child \<Rightarrow> val \<Rightarrow> type_ref list \<Rightarrow> 's store \<Rightarrow> 's lowered" where
  "lowerFlatTuple r lo v es st =
     (case v of
        VList vs \<Rightarrow>
          (if length vs \<noteq> length es then Inl (Wrong_length (length es) (length vs)) else lower_fields r lo es vs st)
      | _ \<Rightarrow> Inl (Wrong_value ''tuple''))"

text \<open>The loop that coerces a payload, which reads \<^verbatim>\<open>caseFlat[i]\<close>, and the one that pads it.\<close>

fun coerce_all :: "CoreValue list \<Rightarrow> string list \<Rightarrow> string list \<Rightarrow> mem_error + CoreValue list" where
  "coerce_all (cv # cvs) caseFlat (want # joinedFlat) =
     (case caseFlat of
        [] \<Rightarrow> Inl Panic_index
      | got # caseFlat \<Rightarrow>
          bindE (coerceValue cv got want) (\<lambda>x. bindE (coerce_all cvs caseFlat joinedFlat) (\<lambda>xs. Inr (x # xs))))"
| "coerce_all _ _ _ = Inr []"

definition pad :: "string list \<Rightarrow> CoreValue list \<Rightarrow> mem_error + CoreValue list" where
  "pad joinedFlat payload =
     bindE (mapE zeroCoreValueForKind (drop (length payload) joinedFlat)) (\<lambda>zs. Inr (payload @ zs))"

text \<open>The flattening of the type itself: the one the caller knows, or computed here.\<close>

definition own_flat ::
  "resolver \<Rightarrow> (type_desc \<Rightarrow> abi_error + nat) \<Rightarrow> (type_desc \<Rightarrow> abi_error + string list) \<Rightarrow>
   type_desc \<Rightarrow> string list option \<Rightarrow> mem_error + string list" where
  "own_flat r fw fl t flat = (case flat of Some f \<Rightarrow> Inr f | None \<Rightarrow> abiE (Flatten_body r fw fl t))"

text \<open>The joined slots behind the discriminant.\<close>

definition joined_flat :: "string list \<Rightarrow> mem_error + string list" where
  "joined_flat flat = (case flat of k # ks \<Rightarrow> if k = ''i32'' then Inr ks else Inl No_discriminant | [] \<Rightarrow> Inl No_discriminant)"

text \<open>Lowering, coercing and padding the payload of the active case.\<close>

definition lower_payload ::
  "resolver \<Rightarrow> (type_desc \<Rightarrow> abi_error + string list) \<Rightarrow> 's lower_child \<Rightarrow> type_ref option \<Rightarrow> val \<Rightarrow> string list \<Rightarrow> 's store \<Rightarrow> 's lowered" where
  "lower_payload r fl lo ref v joinedFlat st =
     bindE (case ref of
         None \<Rightarrow> Inr ([], st)
       | Some tr \<Rightarrow>
           bindE (abiE (resolveType r (Some tr))) (\<lambda>caseType.
           bindE (abiE (fl caseType)) (\<lambda>caseFlat.
           bindE (lo v caseType (Some caseFlat) st) (\<lambda>(casePayload, st).
           bindE (coerce_all casePayload caseFlat joinedFlat) (\<lambda>payload. Inr (payload, st))))))
       (\<lambda>(payload, st). bindE (pad joinedFlat payload) (\<lambda>payload. Inr (payload, st)))"

definition lowerFlatVariant ::
  "resolver \<Rightarrow> (type_desc \<Rightarrow> abi_error + nat) \<Rightarrow> (type_desc \<Rightarrow> abi_error + string list) \<Rightarrow> 's lower_child \<Rightarrow>
   val \<Rightarrow> (string \<times> type_ref option) list \<Rightarrow> string list option \<Rightarrow> 's store \<Rightarrow> 's lowered" where
  "lowerFlatVariant r fw fl lo v cs flat st =
     (case v of
        VVariant disc payload \<Rightarrow>
          (if length cs \<le> unat disc then Inl (Case_out_of_range disc (length cs))
           else
             bindE (own_flat r fw fl (VariantDesc cs) flat) (\<lambda>variantFlat.
             bindE (joined_flat variantFlat) (\<lambda>joinedFlat.
             bindE (lower_payload r fl lo (snd (cs ! unat disc)) payload joinedFlat st) (\<lambda>(payload, st).
             Inr (NewCoreValueI32 disc # payload, st)))))
      | _ \<Rightarrow> Inl (Wrong_value ''variant''))"

definition lowerFlatFlags :: "val \<Rightarrow> 's store \<Rightarrow> 's lowered" where
  "lowerFlatFlags v st = (case v of VU32 flags \<Rightarrow> Inr ([NewCoreValueI32 flags], st) | _ \<Rightarrow> Inl (Wrong_value ''flags''))"

definition lowerFlatEnum :: "val \<Rightarrow> string list \<Rightarrow> 's store \<Rightarrow> 's lowered" where
  "lowerFlatEnum v cs st =
     (case v of
        VU32 idx \<Rightarrow>
          (if length cs \<le> unat idx then Inl (Case_out_of_range idx (length cs)) else Inr ([NewCoreValueI32 idx], st))
      | _ \<Rightarrow> Inl (Wrong_value ''enum''))"

definition lowerFlatOption ::
  "(type_desc \<Rightarrow> abi_error + string list) \<Rightarrow> 's lower_child \<Rightarrow> val \<Rightarrow> type_desc \<Rightarrow> string list option \<Rightarrow> 's store \<Rightarrow> 's lowered" where
  "lowerFlatOption fl lo v elemType elemFlat st =
     (if v = VNil then
        bindE (case elemFlat of Some f \<Rightarrow> Inr f | None \<Rightarrow> abiE (fl elemType)) (\<lambda>elemFlatTypes.
        bindE (mapE zeroCoreValueForKind elemFlatTypes) (\<lambda>zs. Inr (NewCoreValueI32 0 # zs, st)))
      else bindE (lo v elemType elemFlat st) (\<lambda>(elemVals, st). Inr (NewCoreValueI32 1 # elemVals, st)))"

definition lowerFlatResult ::
  "resolver \<Rightarrow> (type_desc \<Rightarrow> abi_error + nat) \<Rightarrow> (type_desc \<Rightarrow> abi_error + string list) \<Rightarrow> 's lower_child \<Rightarrow>
   val \<Rightarrow> type_ref option \<Rightarrow> type_ref option \<Rightarrow> string list option \<Rightarrow> 's store \<Rightarrow> 's lowered" where
  "lowerFlatResult r fw fl lo v ok er flat st =
     (case v of
        VResult isErr payload \<Rightarrow>
          bindE (own_flat r fw fl (ResultDesc ok er) flat) (\<lambda>resultFlat.
          bindE (joined_flat resultFlat) (\<lambda>joinedFlat.
          bindE (lower_payload r fl lo (if isErr then er else ok) payload joinedFlat st) (\<lambda>(payload, st).
          Inr (NewCoreValueI32 (if isErr then 1 else 0) # payload, st))))
      | _ \<Rightarrow> Inl (Wrong_value ''result''))"

text \<open>A typed slice in a fixed-length list; \<open>None\<close> when the value is not the slice of the primitive.\<close>

definition lowerFixed :: "'a list \<Rightarrow> u32 \<Rightarrow> ('a \<Rightarrow> mem_error + CoreValue) \<Rightarrow> mem_error + CoreValue list" where
  "lowerFixed xs n lower = (if length xs \<noteq> unat n then Inl (Wrong_length (unat n) (length xs)) else mapE lower xs)"

definition lowerFixedScalars :: "val \<Rightarrow> string \<Rightarrow> u32 \<Rightarrow> (mem_error + CoreValue list) option" where
  "lowerFixedScalars v prim n =
     (if prim = ''u8'' then (case v of VBytes xs \<Rightarrow> Some (lowerFixed xs n (\<lambda>e. Inr (NewCoreValueI32 (ucast e)))) | _ \<Rightarrow> None)
      else if prim = ''s8'' then (case v of VInt8s xs \<Rightarrow> Some (lowerFixed xs n (\<lambda>e. Inr (NewCoreValueI32 (scast e)))) | _ \<Rightarrow> None)
      else if prim = ''bool'' then
        (case v of VBools xs \<Rightarrow> Some (lowerFixed xs n (\<lambda>e. Inr (NewCoreValueI32 (if e then 1 else 0)))) | _ \<Rightarrow> None)
      else if prim = ''u16'' then (case v of VUint16s xs \<Rightarrow> Some (lowerFixed xs n (\<lambda>e. Inr (NewCoreValueI32 (ucast e)))) | _ \<Rightarrow> None)
      else if prim = ''s16'' then (case v of VInt16s xs \<Rightarrow> Some (lowerFixed xs n (\<lambda>e. Inr (NewCoreValueI32 (scast e)))) | _ \<Rightarrow> None)
      else if prim = ''u32'' then (case v of VUint32s xs \<Rightarrow> Some (lowerFixed xs n (\<lambda>e. Inr (NewCoreValueI32 e))) | _ \<Rightarrow> None)
      else if prim = ''s32'' then (case v of VInt32s xs \<Rightarrow> Some (lowerFixed xs n (\<lambda>e. Inr (NewCoreValueI32 e))) | _ \<Rightarrow> None)
      else if prim = ''u64'' then (case v of VUint64s xs \<Rightarrow> Some (lowerFixed xs n (\<lambda>e. Inr (NewCoreValueI64 e))) | _ \<Rightarrow> None)
      else if prim = ''s64'' then (case v of VInt64s xs \<Rightarrow> Some (lowerFixed xs n (\<lambda>e. Inr (NewCoreValueI64 e))) | _ \<Rightarrow> None)
      else if prim = ''f32'' then (case v of VFloat32s xs \<Rightarrow> Some (lowerFixed xs n (\<lambda>e. Inr (NewCoreValueF32 e))) | _ \<Rightarrow> None)
      else if prim = ''f64'' then (case v of VFloat64s xs \<Rightarrow> Some (lowerFixed xs n (\<lambda>e. Inr (NewCoreValueF64 e))) | _ \<Rightarrow> None)
      else if prim = ''char'' then (case v of VInt32s xs \<Rightarrow> Some (lowerFixed xs n lowerChar) | _ \<Rightarrow> None)
      else None)"

fun lower_elems :: "'s lower_child \<Rightarrow> type_desc \<Rightarrow> val list \<Rightarrow> 's store \<Rightarrow> 's lowered" where
  "lower_elems lo elemType [] st = Inr ([], st)"
| "lower_elems lo elemType (e # es) st =
     bindE (lo e elemType None st) (\<lambda>(elemFlat, st).
     bindE (lower_elems lo elemType es st) (\<lambda>(flat, st). Inr (elemFlat @ flat, st)))"

definition lowerFlatFixedList :: "'s lower_child \<Rightarrow> val \<Rightarrow> u32 \<Rightarrow> type_desc \<Rightarrow> 's store \<Rightarrow> 's lowered" where
  "lowerFlatFixedList lo v n elemType st =
     (case Option.bind (scalarPrim elemType) (\<lambda>prim. lowerFixedScalars v prim n) of
        Some res \<Rightarrow> bindE res (\<lambda>flat. Inr (flat, st))
      | None \<Rightarrow>
          (case v of
             VList vs \<Rightarrow>
               (if length vs \<noteq> unat n then Inl (Wrong_length (unat n) (length vs)) else lower_elems lo elemType vs st)
           | _ \<Rightarrow> Inl (Wrong_value ''fixed-length list'')))"

definition lower_handle :: "val \<Rightarrow> 's store \<Rightarrow> 's lowered" where
  "lower_handle v st = (case v of VU32 h \<Rightarrow> Inr ([NewCoreValueI32 h], st) | _ \<Rightarrow> Inl (Wrong_value ''handle''))"

text \<open>The slice \<^verbatim>\<open>flat[1:]\<close> of a flattening that is known.\<close>

definition tail_flat :: "string list option \<Rightarrow> mem_error + string list option" where
  "tail_flat flat = (case flat of None \<Rightarrow> Inr None | Some [] \<Rightarrow> Inl (Panic_slice 1 0) | Some (_ # ks) \<Rightarrow> Inr (Some ks))"

definition lower_body ::
  "resolver \<Rightarrow> 's Realloc \<Rightarrow> (type_desc \<Rightarrow> abi_error + nat) \<Rightarrow> (type_desc \<Rightarrow> abi_error + string list) \<Rightarrow>
   (type_desc \<Rightarrow> abi_error + u32) \<Rightarrow> (type_desc \<Rightarrow> abi_error + u32) \<Rightarrow> 's child \<Rightarrow> 's lower_child \<Rightarrow> 's lower_child" where
  "lower_body r R fw fl al sz sto lo v t flat st =
     (case t of
        PrimitiveDesc p \<Rightarrow> lowerFlatPrimitive R v p st
      | ListDesc e \<Rightarrow> bindE (abiE (resolveType r (Some e))) (\<lambda>et. lowerFlatList R al sz sto v et st)
      | MapDesc key val \<Rightarrow> lowerFlatList R al sz sto v (mapElemType key val) st
      | FixedListDesc e n \<Rightarrow> bindE (abiE (resolveType r (Some e))) (\<lambda>et. lowerFlatFixedList lo v n et st)
      | RecordDesc fs \<Rightarrow> lowerFlatRecord r lo v fs st
      | VariantDesc cs \<Rightarrow> lowerFlatVariant r fw fl lo v cs flat st
      | TupleDesc es \<Rightarrow> lowerFlatTuple r lo v es st
      | FlagsDesc ns \<Rightarrow> lowerFlatFlags v st
      | EnumDesc cs \<Rightarrow> lowerFlatEnum v cs st
      | OptionDesc e \<Rightarrow>
          bindE (abiE (resolveType r (Some e))) (\<lambda>et.
          bindE (tail_flat flat) (\<lambda>elemFlat. lowerFlatOption fl lo v et elemFlat st))
      | ResultDesc ok er \<Rightarrow> lowerFlatResult r fw fl lo v ok er flat st
      | OwnDesc _ \<Rightarrow> lower_handle v st | BorrowDesc _ \<Rightarrow> lower_handle v st
      | StreamDesc _ \<Rightarrow> lower_handle v st | FutureDesc _ \<Rightarrow> lower_handle v st
      | _ \<Rightarrow> Inl Bad_type)"

fun lowerFlatImpl :: "nat \<Rightarrow> resolver \<Rightarrow> 's Realloc \<Rightarrow> 's lower_child" where
  "lowerFlatImpl 0 r R v t flat st = Inl (Abi Stack_overflow)"
| "lowerFlatImpl (Suc n) r R v t flat st =
     lower_body r R (FlatWidth n r) (Flatten n r) (Alignment n r) (Size n r) (storeValue n r R) (lowerFlatImpl n r R) v t flat st"

text \<open>The spill is decided before anything is lowered.\<close>

definition lower_or_spill ::
  "nat \<Rightarrow> resolver \<Rightarrow> 's Realloc \<Rightarrow> CoreValue list \<Rightarrow> val \<Rightarrow> type_desc \<Rightarrow> 's store \<Rightarrow> 's lowered" where
  "lower_or_spill n r R dst v t st =
     bindE (abiE (FlatWidth n r t)) (\<lambda>flatWidth.
     if MaxFlatParams < flatWidth then
       bindE (spillValue n r R v t st) (\<lambda>(ptr, st). Inr (dst @ [NewCoreValueI32 ptr], st))
     else bindE (lowerFlatImpl n r R v t None st) (\<lambda>(flat, st). Inr (dst @ flat, st)))"

definition LowerFlatInto ::
  "nat \<Rightarrow> resolver \<Rightarrow> 's Realloc \<Rightarrow> CoreValue list \<Rightarrow> val \<Rightarrow> type_desc \<Rightarrow> 's store \<Rightarrow> 's lowered" where
  "LowerFlatInto n r R dst v t st =
     (case t of
        PrimitiveDesc p \<Rightarrow>
          if p \<noteq> ''string'' then bindE (lowerPrimitiveCore v p) (\<lambda>cv. Inr (dst @ [cv], st))
          else lower_or_spill n r R dst v t st
      | _ \<Rightarrow> lower_or_spill n r R dst v t st)"

definition LowerFlat :: "nat \<Rightarrow> resolver \<Rightarrow> 's Realloc \<Rightarrow> val \<Rightarrow> type_desc \<Rightarrow> 's store \<Rightarrow> 's lowered" where
  "LowerFlat n r R v t st = LowerFlatInto n r R [] v t st"

definition SpillValue :: "nat \<Rightarrow> resolver \<Rightarrow> 's Realloc \<Rightarrow> val \<Rightarrow> type_desc \<Rightarrow> 's store \<Rightarrow> mem_error + u32 \<times> 's store" where
  "SpillValue n r R v t st = spillValue n r R v t st"

section \<open>Iterators over core values\<close>

datatype valueIter =
    CoreValueIter "CoreValue list" nat
  | stackValueIter "string list" "u64 list" nat
  | coercingValueIter valueIter "string list" "string list" nat

fun Next :: "valueIter \<Rightarrow> mem_error + CoreValue \<times> valueIter" where
  "Next (CoreValueIter values i) =
     (if length values \<le> i then Inl Iter_exhausted else Inr (values ! i, CoreValueIter values (Suc i)))"
| "Next (stackValueIter kinds bits i) =
     (if length kinds \<le> i then Inl Iter_exhausted
      else if length bits \<le> i then Inl Panic_index
      else Inr (\<lparr>Kind = kinds ! i, Bits = bits ! i\<rparr>, stackValueIter kinds bits (Suc i)))"
| "Next (coercingValueIter underlying joinedFlat caseFlat i) =
     (if length caseFlat \<le> i then Inl Iter_exhausted
      else if length joinedFlat \<le> i then Inl Panic_index
      else
        bindE (Next underlying) (\<lambda>(cv, underlying).
        bindE (deCoerceValue cv (joinedFlat ! i) (caseFlat ! i)) (\<lambda>cv.
        Inr (cv, coercingValueIter underlying joinedFlat caseFlat (Suc i)))))"

fun Done :: "valueIter \<Rightarrow> bool" where
  "Done (CoreValueIter values i) = (i = length values)"
| "Done (stackValueIter kinds bits i) = (i = length kinds)"
| "Done (coercingValueIter underlying joinedFlat caseFlat i) = (i = length caseFlat)"

text \<open>Values that are read and discarded.\<close>

fun skip :: "nat \<Rightarrow> valueIter \<Rightarrow> mem_error + valueIter" where
  "skip 0 vi = Inr vi"
| "skip (Suc k) vi = bindE (Next vi) (\<lambda>(_, vi). skip k vi)"

section \<open>Lifting\<close>

definition liftChar :: "CoreValue \<Rightarrow> mem_error + u32" where
  "liftChar cv = bindE (AsI32 cv) check_char"

definition liftScalarPrimitive :: "CoreValue \<Rightarrow> string \<Rightarrow> mem_error + val" where
  "liftScalarPrimitive cv prim =
     (if prim = ''bool'' then bindE (AsI32 cv) (\<lambda>i. Inr (VBool (i \<noteq> 0)))
      else if prim = ''u8'' then bindE (AsI32 cv) (\<lambda>i. Inr (VU32 (i AND 0xFF)))
      else if prim = ''u16'' then bindE (AsI32 cv) (\<lambda>i. Inr (VU32 (i AND 0xFFFF)))
      else if prim = ''u32'' then bindE (AsI32 cv) (\<lambda>i. Inr (VU32 i))
      else if prim = ''u64'' then bindE (AsI64 cv) (\<lambda>i. Inr (VU64 i))
      else if prim = ''s8'' then
        bindE (AsI32 cv) (\<lambda>i. let i = i AND 0xFF in Inr (VS32 (if 0x80 \<le> i then scast (ucast i :: u8) else i)))
      else if prim = ''s16'' then
        bindE (AsI32 cv) (\<lambda>i. let i = i AND 0xFFFF in Inr (VS32 (if 0x8000 \<le> i then scast (ucast i :: 16 word) else i)))
      else if prim = ''s32'' then bindE (AsI32 cv) (\<lambda>i. Inr (VS32 i))
      else if prim = ''s64'' then bindE (AsI64 cv) (\<lambda>i. Inr (VS64 i))
      else if prim = ''f32'' then bindE (AsF32 cv) (\<lambda>f. Inr (VF32 f))
      else if prim = ''f64'' then bindE (AsF64 cv) (\<lambda>f. Inr (VF64 f))
      else if prim = ''char'' then bindE (liftChar cv) (\<lambda>r. Inr (VS32 r))
      else if prim = ''error-context'' then bindE (AsI32 cv) (\<lambda>i. Inr (VU32 i))
      else Inl (Bad_primitive prim))"

type_synonym lifted = "mem_error + val \<times> valueIter"

text \<open>Two core values, a pointer and a length; the kinds are checked after both are read.\<close>

definition next_pair :: "valueIter \<Rightarrow> mem_error + CoreValue \<times> CoreValue \<times> valueIter" where
  "next_pair vi = bindE (Next vi) (\<lambda>(p, vi). bindE (Next vi) (\<lambda>(n, vi). Inr (p, n, vi)))"

definition liftFlatString :: "bytes \<Rightarrow> valueIter \<Rightarrow> lifted" where
  "liftFlatString mem vi =
     bindE (next_pair vi) (\<lambda>(ptrCV, lenCV, vi).
     bindE (AsI32 ptrCV) (\<lambda>ptr. bindE (AsI32 lenCV) (\<lambda>len.
     bindE (loadStringFromRange mem ptr len) (\<lambda>s. Inr (VString s, vi)))))"

definition liftFlatPrimitive :: "bytes \<Rightarrow> valueIter \<Rightarrow> string \<Rightarrow> lifted" where
  "liftFlatPrimitive mem vi prim =
     (if prim = ''string'' then liftFlatString mem vi
      else bindE (Next vi) (\<lambda>(cv, vi). bindE (liftScalarPrimitive cv prim) (\<lambda>v. Inr (v, vi))))"

definition liftFlatList ::
  "(type_desc \<Rightarrow> abi_error + u32) \<Rightarrow> (type_desc \<Rightarrow> abi_error + u32) \<Rightarrow> (u32 \<Rightarrow> type_desc \<Rightarrow> mem_error + val) \<Rightarrow>
   bytes \<Rightarrow> valueIter \<Rightarrow> type_desc \<Rightarrow> lifted" where
  "liftFlatList al sz ld mem vi elemType =
     bindE (next_pair vi) (\<lambda>(ptrCV, lenCV, vi).
     bindE (AsI32 ptrCV) (\<lambda>ptr. bindE (AsI32 lenCV) (\<lambda>len.
     bindE (loadAnyListFromRange al sz ld mem ptr len elemType) (\<lambda>v. Inr (v, vi)))))"

text \<open>\<open>li\<close> is the call on a child.\<close>

type_synonym lift_child = "valueIter \<Rightarrow> type_desc \<Rightarrow> string list option \<Rightarrow> lifted"

fun lift_fields :: "resolver \<Rightarrow> lift_child \<Rightarrow> type_ref list \<Rightarrow> valueIter \<Rightarrow> mem_error + val list \<times> valueIter" where
  "lift_fields r li [] vi = Inr ([], vi)"
| "lift_fields r li (tr # trs) vi =
     bindE (abiE (resolveType r (Some tr))) (\<lambda>fieldType.
     bindE (li vi fieldType None) (\<lambda>(v, vi).
     bindE (lift_fields r li trs vi) (\<lambda>(vs, vi). Inr (v # vs, vi))))"

definition liftFlatRecord :: "resolver \<Rightarrow> lift_child \<Rightarrow> valueIter \<Rightarrow> (string \<times> type_ref) list \<Rightarrow> lifted" where
  "liftFlatRecord r li vi fs = bindE (lift_fields r li (map snd fs) vi) (\<lambda>(vs, vi). Inr (VList vs, vi))"

definition liftFlatTuple :: "resolver \<Rightarrow> lift_child \<Rightarrow> valueIter \<Rightarrow> type_ref list \<Rightarrow> lifted" where
  "liftFlatTuple r li vi es = bindE (lift_fields r li es vi) (\<lambda>(vs, vi). Inr (VList vs, vi))"

text \<open>
  The payload of the active case, read through a coercing iterator over the outer one; what the
  case did not use of the joined slots is discarded. \<open>released\<close> is the outer iterator and the count of
  values that were read through the coercing one.
\<close>

definition released :: "valueIter \<Rightarrow> valueIter \<times> nat" where
  "released vi = (case vi of coercingValueIter underlying _ _ i \<Rightarrow> (underlying, i) | _ \<Rightarrow> (vi, 0))"

definition lift_payload ::
  "resolver \<Rightarrow> (type_desc \<Rightarrow> abi_error + string list) \<Rightarrow> lift_child \<Rightarrow> type_ref option \<Rightarrow> string list \<Rightarrow> valueIter \<Rightarrow> lifted" where
  "lift_payload r fl li ref joinedFlat vi =
     bindE (case ref of
         None \<Rightarrow> Inr (VNil, coercingValueIter vi joinedFlat [] 0)
       | Some tr \<Rightarrow>
           bindE (abiE (resolveType r (Some tr))) (\<lambda>caseType.
           bindE (abiE (fl caseType)) (\<lambda>caseFlat.
           li (coercingValueIter vi joinedFlat caseFlat 0) caseType (Some caseFlat))))
       (\<lambda>(payload, coerceVI).
          let (vi, idx) = released coerceVI in
          bindE (skip (length joinedFlat - idx) vi) (\<lambda>vi. Inr (payload, vi)))"

definition liftFlatVariant ::
  "resolver \<Rightarrow> (type_desc \<Rightarrow> abi_error + nat) \<Rightarrow> (type_desc \<Rightarrow> abi_error + string list) \<Rightarrow> lift_child \<Rightarrow>
   valueIter \<Rightarrow> (string \<times> type_ref option) list \<Rightarrow> string list option \<Rightarrow> lifted" where
  "liftFlatVariant r fw fl li vi cs flat =
     bindE (own_flat r fw fl (VariantDesc cs) flat) (\<lambda>variantFlat.
     bindE (joined_flat variantFlat) (\<lambda>joinedFlat.
     bindE (Next vi) (\<lambda>(discCV, vi).
     bindE (AsI32 discCV) (\<lambda>caseIdx.
     if length cs \<le> unat caseIdx then Inl (Case_out_of_range caseIdx (length cs))
     else
       bindE (lift_payload r fl li (snd (cs ! unat caseIdx)) joinedFlat vi) (\<lambda>(payload, vi).
       Inr (VVariant caseIdx payload, vi))))))"

definition liftFlatFlags :: "valueIter \<Rightarrow> string list \<Rightarrow> lifted" where
  "liftFlatFlags vi names =
     bindE (abiE (flattenFlagsNumLabels (length names))) (\<lambda>_.
     bindE (Next vi) (\<lambda>(cv, vi).
     bindE (AsI32 cv) (\<lambda>i. Inr (VU32 (i AND flagsBitMask (length names)), vi))))"

definition liftFlatEnum :: "valueIter \<Rightarrow> string list \<Rightarrow> lifted" where
  "liftFlatEnum vi cs =
     bindE (Next vi) (\<lambda>(cv, vi).
     bindE (AsI32 cv) (\<lambda>idx.
     if length cs \<le> unat idx then Inl (Case_out_of_range idx (length cs)) else Inr (VU32 idx, vi)))"

definition liftFlatOption ::
  "(type_desc \<Rightarrow> abi_error + nat) \<Rightarrow> lift_child \<Rightarrow> valueIter \<Rightarrow> type_desc \<Rightarrow> string list option \<Rightarrow> lifted" where
  "liftFlatOption fw li vi elemType elemFlat =
     bindE (Next vi) (\<lambda>(cv, vi).
     bindE (AsI32 cv) (\<lambda>disc.
     if disc = 0 then
       bindE (case elemFlat of Some f \<Rightarrow> Inr (length f) | None \<Rightarrow> abiE (fw elemType)) (\<lambda>elemWidth.
       bindE (skip elemWidth vi) (\<lambda>vi. Inr (VNil, vi)))
     else if disc = 1 then li vi elemType elemFlat
     else Inl (Bad_option disc)))"

definition liftFlatResult ::
  "resolver \<Rightarrow> (type_desc \<Rightarrow> abi_error + nat) \<Rightarrow> (type_desc \<Rightarrow> abi_error + string list) \<Rightarrow> lift_child \<Rightarrow>
   valueIter \<Rightarrow> type_ref option \<Rightarrow> type_ref option \<Rightarrow> string list option \<Rightarrow> lifted" where
  "liftFlatResult r fw fl li vi ok er flat =
     bindE (Next vi) (\<lambda>(cv, vi).
     bindE (AsI32 cv) (\<lambda>disc.
     bindE (own_flat r fw fl (ResultDesc ok er) flat) (\<lambda>resultFlat.
     bindE (joined_flat resultFlat) (\<lambda>joinedFlat.
     if disc = 0 \<or> disc = 1 then
       bindE (lift_payload r fl li (if disc = 1 then er else ok) joinedFlat vi) (\<lambda>(payload, vi).
       Inr (VResult (disc = 1) payload, vi))
     else Inl (Bad_result disc)))))"

fun liftFixed :: "(CoreValue \<Rightarrow> mem_error + 'a) \<Rightarrow> nat \<Rightarrow> valueIter \<Rightarrow> mem_error + 'a list \<times> valueIter" where
  "liftFixed lift 0 vi = Inr ([], vi)"
| "liftFixed lift (Suc n) vi =
     bindE (Next vi) (\<lambda>(cv, vi). bindE (lift cv) (\<lambda>e. bindE (liftFixed lift n vi) (\<lambda>(es, vi). Inr (e # es, vi))))"

definition into :: "('a list \<Rightarrow> val) \<Rightarrow> mem_error + 'a list \<times> valueIter \<Rightarrow> lifted" where
  "into c res = bindE res (\<lambda>(xs, vi). Inr (c xs, vi))"

definition liftFixedScalars :: "valueIter \<Rightarrow> string \<Rightarrow> u32 \<Rightarrow> lifted option" where
  "liftFixedScalars vi prim n =
     (if prim = ''u8'' then Some (into VBytes (liftFixed (\<lambda>cv. bindE (AsI32 cv) (\<lambda>i. Inr (ucast i))) (unat n) vi))
      else if prim = ''s8'' then Some (into VInt8s (liftFixed (\<lambda>cv. bindE (AsI32 cv) (\<lambda>i. Inr (ucast i))) (unat n) vi))
      else if prim = ''bool'' then Some (into VBools (liftFixed (\<lambda>cv. bindE (AsI32 cv) (\<lambda>i. Inr (i \<noteq> 0))) (unat n) vi))
      else if prim = ''u16'' then Some (into VUint16s (liftFixed (\<lambda>cv. bindE (AsI32 cv) (\<lambda>i. Inr (ucast i))) (unat n) vi))
      else if prim = ''s16'' then Some (into VInt16s (liftFixed (\<lambda>cv. bindE (AsI32 cv) (\<lambda>i. Inr (ucast i))) (unat n) vi))
      else if prim = ''u32'' then Some (into VUint32s (liftFixed AsI32 (unat n) vi))
      else if prim = ''s32'' then Some (into VInt32s (liftFixed AsI32 (unat n) vi))
      else if prim = ''u64'' then Some (into VUint64s (liftFixed AsI64 (unat n) vi))
      else if prim = ''s64'' then Some (into VInt64s (liftFixed AsI64 (unat n) vi))
      else if prim = ''f32'' then Some (into VFloat32s (liftFixed AsF32 (unat n) vi))
      else if prim = ''f64'' then Some (into VFloat64s (liftFixed AsF64 (unat n) vi))
      else if prim = ''char'' then Some (into VInt32s (liftFixed liftChar (unat n) vi))
      else None)"

fun lift_elems :: "lift_child \<Rightarrow> type_desc \<Rightarrow> nat \<Rightarrow> valueIter \<Rightarrow> mem_error + val list \<times> valueIter" where
  "lift_elems li elemType 0 vi = Inr ([], vi)"
| "lift_elems li elemType (Suc n) vi =
     bindE (li vi elemType None) (\<lambda>(e, vi). bindE (lift_elems li elemType n vi) (\<lambda>(es, vi). Inr (e # es, vi)))"

definition liftFlatFixedList :: "lift_child \<Rightarrow> valueIter \<Rightarrow> u32 \<Rightarrow> type_desc \<Rightarrow> lifted" where
  "liftFlatFixedList li vi n elemType =
     (case Option.bind (scalarPrim elemType) (\<lambda>prim. liftFixedScalars vi prim n) of
        Some res \<Rightarrow> res
      | None \<Rightarrow> into VList (lift_elems li elemType (unat n) vi))"

definition lift_handle :: "valueIter \<Rightarrow> lifted" where
  "lift_handle vi = bindE (Next vi) (\<lambda>(cv, vi). bindE (AsI32 cv) (\<lambda>h. Inr (VU32 h, vi)))"

definition lift_body ::
  "resolver \<Rightarrow> (type_desc \<Rightarrow> abi_error + nat) \<Rightarrow> (type_desc \<Rightarrow> abi_error + string list) \<Rightarrow>
   (type_desc \<Rightarrow> abi_error + u32) \<Rightarrow> (type_desc \<Rightarrow> abi_error + u32) \<Rightarrow> (u32 \<Rightarrow> type_desc \<Rightarrow> mem_error + val) \<Rightarrow>
   lift_child \<Rightarrow> bytes \<Rightarrow> lift_child" where
  "lift_body r fw fl al sz ld li mem vi t flat =
     (case t of
        PrimitiveDesc p \<Rightarrow> liftFlatPrimitive mem vi p
      | ListDesc e \<Rightarrow> bindE (abiE (resolveType r (Some e))) (liftFlatList al sz ld mem vi)
      | MapDesc key val \<Rightarrow> liftFlatList al sz ld mem vi (mapElemType key val)
      | FixedListDesc e n \<Rightarrow> bindE (abiE (resolveType r (Some e))) (liftFlatFixedList li vi n)
      | RecordDesc fs \<Rightarrow> liftFlatRecord r li vi fs
      | VariantDesc cs \<Rightarrow> liftFlatVariant r fw fl li vi cs flat
      | TupleDesc es \<Rightarrow> liftFlatTuple r li vi es
      | FlagsDesc ns \<Rightarrow> liftFlatFlags vi ns
      | EnumDesc cs \<Rightarrow> liftFlatEnum vi cs
      | OptionDesc e \<Rightarrow>
          bindE (abiE (resolveType r (Some e))) (\<lambda>et.
          bindE (tail_flat flat) (liftFlatOption fw li vi et))
      | ResultDesc ok er \<Rightarrow> liftFlatResult r fw fl li vi ok er flat
      | OwnDesc _ \<Rightarrow> lift_handle vi | BorrowDesc _ \<Rightarrow> lift_handle vi
      | StreamDesc _ \<Rightarrow> lift_handle vi | FutureDesc _ \<Rightarrow> lift_handle vi
      | _ \<Rightarrow> Inl Bad_type)"

fun liftFlatImpl :: "nat \<Rightarrow> resolver \<Rightarrow> bytes \<Rightarrow> lift_child" where
  "liftFlatImpl 0 r mem vi t flat = Inl (Abi Stack_overflow)"
| "liftFlatImpl (Suc n) r mem vi t flat =
     lift_body r (FlatWidth n r) (Flatten n r) (Alignment n r) (Size n r) (loadValue n r mem) (liftFlatImpl n r mem) mem vi t flat"

definition LiftFlat :: "nat \<Rightarrow> resolver \<Rightarrow> CoreValue list \<Rightarrow> type_desc \<Rightarrow> bytes \<Rightarrow> mem_error + val" where
  "LiftFlat n r vals t mem =
     bindE (abiE (FlatWidth n r t)) (\<lambda>flatWidth.
     if MaxFlatParams < flatWidth then
       if length vals \<noteq> 1 then Inl (Wrong_count 1 (length vals))
       else bindE (AsI32 (vals ! 0)) (\<lambda>ptr. Load n r mem ptr t)
     else bindE (liftFlatImpl n r mem (CoreValueIter vals 0) t None) (\<lambda>(v, _). Inr v))"

definition LiftFlatKinds :: "nat \<Rightarrow> resolver \<Rightarrow> string list \<Rightarrow> u64 list \<Rightarrow> type_desc \<Rightarrow> bytes \<Rightarrow> mem_error + val" where
  "LiftFlatKinds n r flat bits t mem =
     (if MaxFlatParams < length flat then
        if length bits \<noteq> 1 then Inl (Wrong_count 1 (length bits)) else Load n r mem (ucast (bits ! 0)) t
      else if length bits \<noteq> length flat then Inl (Wrong_count (length flat) (length bits))
      else bindE (liftFlatImpl n r mem (stackValueIter flat bits 0) t (Some flat)) (\<lambda>(v, _). Inr v))"

section \<open>Plans\<close>

text \<open>A composite that spills carries the plan of the store.\<close>

datatype LowerStep =
    lowerKindPrimitive string
  | lowerKindString
  | lowerKindHandle
  | lowerKindComposite type_desc "string list" "StoreStep option"

definition CompileLower :: "nat \<Rightarrow> resolver \<Rightarrow> type_desc \<Rightarrow> mem_error + LowerStep" where
  "CompileLower n r t =
     (case t of
        PrimitiveDesc p \<Rightarrow> if p = ''string'' then Inr lowerKindString else Inr (lowerKindPrimitive p)
      | OwnDesc _ \<Rightarrow> Inr lowerKindHandle | BorrowDesc _ \<Rightarrow> Inr lowerKindHandle
      | StreamDesc _ \<Rightarrow> Inr lowerKindHandle | FutureDesc _ \<Rightarrow> Inr lowerKindHandle
      | _ \<Rightarrow>
          bindE (abiE (Flatten n r t)) (\<lambda>flat.
          if MaxFlatParams < length flat then
            bindE (CompileStore n r t) (\<lambda>store. Inr (lowerKindComposite t flat (Some store)))
          else Inr (lowerKindComposite t flat None)))"

definition Lower ::
  "nat \<Rightarrow> resolver \<Rightarrow> 's Realloc \<Rightarrow> LowerStep \<Rightarrow> CoreValue list \<Rightarrow> val \<Rightarrow> 's store \<Rightarrow> 's lowered" where
  "Lower n r R s dst v st =
     (case s of
        lowerKindPrimitive prim \<Rightarrow> bindE (lowerPrimitiveCore v prim) (\<lambda>cv. Inr (dst @ [cv], st))
      | lowerKindString \<Rightarrow>
          (case v of
             VString str \<Rightarrow> bindE (allocStoreString R str st) (\<lambda>(ptr, byteLen, st). Inr (dst @ [NewCoreValueI32 ptr, NewCoreValueI32 byteLen], st))
           | _ \<Rightarrow> Inl (Wrong_value ''string''))
      | lowerKindHandle \<Rightarrow> (case v of VU32 h \<Rightarrow> Inr (dst @ [NewCoreValueI32 h], st) | _ \<Rightarrow> Inl (Wrong_value ''handle''))
      | lowerKindComposite t flat spills \<Rightarrow>
          (case spills of
             Some store \<Rightarrow> bindE (Spill n r R store v st) (\<lambda>(ptr, st). Inr (dst @ [NewCoreValueI32 ptr], st))
           | None \<Rightarrow> bindE (lowerFlatImpl n r R v t (Some flat) st) (\<lambda>(flat, st). Inr (dst @ flat, st))))"

datatype LiftStep =
    liftPrimitive string
  | liftHandle
  | liftSpilled type_desc
  | liftFlatAgg type_desc "string list"

definition CompileLift :: "nat \<Rightarrow> resolver \<Rightarrow> type_desc \<Rightarrow> mem_error + LiftStep" where
  "CompileLift n r t =
     (case t of
        PrimitiveDesc p \<Rightarrow> if p = ''string'' then Inr (liftSpilled t) else Inr (liftPrimitive p)
      | OwnDesc _ \<Rightarrow> Inr liftHandle | BorrowDesc _ \<Rightarrow> Inr liftHandle
      | StreamDesc _ \<Rightarrow> Inr liftHandle | FutureDesc _ \<Rightarrow> Inr liftHandle
      | _ \<Rightarrow>
          bindE (abiE (Flatten n r t)) (\<lambda>flat.
          if MaxFlatResults < length flat then Inr (liftSpilled t) else Inr (liftFlatAgg t flat)))"

text \<open>The read \<^verbatim>\<open>coreResults[0]\<close>.\<close>

definition first_result :: "CoreValue list \<Rightarrow> mem_error + CoreValue" where
  "first_result coreResults = (case coreResults of [] \<Rightarrow> Inl Panic_index | cv # _ \<Rightarrow> Inr cv)"

definition Lift :: "nat \<Rightarrow> resolver \<Rightarrow> LiftStep \<Rightarrow> CoreValue list \<Rightarrow> bytes \<Rightarrow> mem_error + val" where
  "Lift n r s coreResults mem =
     (case s of
        liftPrimitive prim \<Rightarrow> bindE (first_result coreResults) (\<lambda>cv. liftScalarPrimitive cv prim)
      | liftHandle \<Rightarrow> bindE (first_result coreResults) (\<lambda>cv. bindE (AsI32 cv) (\<lambda>h. Inr (VU32 h)))
      | liftSpilled t \<Rightarrow> bindE (first_result coreResults) (\<lambda>cv. bindE (AsI32 cv) (\<lambda>ptr. Load n r mem ptr t))
      | liftFlatAgg t flat \<Rightarrow> bindE (liftFlatImpl n r mem (CoreValueIter coreResults 0) t (Some flat)) (\<lambda>(v, _). Inr v))"

end
