(* ===== verification/Abi_Flat_Kinds.thy ===== *)
theory Abi_Flat_Kinds
  imports Abi_Flat
begin

text \<open>
  The kinds of lowered values. A value of a kind can be coerced to the joined kind of its slot and back
  (\<open>coerceValue_typed\<close>); the slots of a variant join those of its cases (\<open>slots_join\<close>), so that coercing and padding
  a payload fills them. \<open>kinds_ok\<close> is the contract between a parent and its children, and \<open>lowerFlatImpl_kinds\<close> closes the
  induction over the nesting: lowering gives one core value for each slot of the flattened type.
\<close>

unbundle bit_operations_syntax

section \<open>Specification vocabulary\<close>

definition core_kinds :: "string list" where
  "core_kinds = [''i32'', ''i64'', ''f32'', ''f64'']"

text \<open>A core value of a kind; the upper half of a 32-bit one is zero.\<close>

definition typed_cv :: "string \<Rightarrow> CoreValue \<Rightarrow> bool" where
  "typed_cv k cv \<longleftrightarrow> Kind cv = k \<and> k \<in> set core_kinds \<and> (k = ''i32'' \<or> k = ''f32'' \<longrightarrow> ucast (ucast (Bits cv) :: u32) = Bits cv)"

text \<open>The kinds a slot may have for a payload of a given kind.\<close>

definition joins_to :: "string \<Rightarrow> string \<Rightarrow> bool" where
  "joins_to k j \<longleftrightarrow> k \<in> set core_kinds \<and> (j = k \<or> k = ''f32'' \<and> j = ''i32'' \<or> j = ''i64'')"

definition kinds_ok :: "(type_desc \<Rightarrow> abi_error + string list) \<Rightarrow> 's lower_child \<Rightarrow> bool" where
  "kinds_ok fl lo \<longleftrightarrow> (\<forall>v t flat st cvs st' ks. lo v t flat st = Inr (cvs, st') \<longrightarrow> fl t = Inr ks \<longrightarrow> length ks \<le> 16 \<longrightarrow>
     (flat = None \<or> flat = Some ks) \<longrightarrow> list_all2 typed_cv ks cvs)"

section \<open>Kinds\<close>

lemma narrow [simp]: "ucast (ucast (u :: u32) :: u64) = u"
  by (rule bit_word_eqI) (simp add: bit_simps)

lemma typed_new [simp]:
  "typed_cv ''i32'' (NewCoreValueI32 u)" "typed_cv ''i64'' (NewCoreValueI64 w)" "typed_cv ''f32'' (NewCoreValueF32 u)" "typed_cv ''f64'' (NewCoreValueF64 w)"
  by (simp_all add: typed_cv_def core_kinds_def NewCoreValueI32_def NewCoreValueI64_def NewCoreValueF32_def NewCoreValueF64_def)

lemma As_New [simp]:
  "AsI32 (NewCoreValueI32 u) = Inr u" "AsI64 (NewCoreValueI64 w) = Inr w" "AsF32 (NewCoreValueF32 u) = Inr u" "AsF64 (NewCoreValueF64 w) = Inr w"
  by (simp_all add: AsI32_def AsI64_def AsF32_def AsF64_def NewCoreValueI32_def NewCoreValueI64_def NewCoreValueF32_def NewCoreValueF64_def)

lemma typed_cvE:
  assumes "typed_cv k cv"
  obtains u where "k = ''i32''" "cv = NewCoreValueI32 u" | w where "k = ''i64''" "cv = NewCoreValueI64 w"
    | u where "k = ''f32''" "cv = NewCoreValueF32 u" | w where "k = ''f64''" "cv = NewCoreValueF64 w"
proof -
  consider "k = ''i32''" | "k = ''i64''" | "k = ''f32''" | "k = ''f64''" using assms by (auto simp: typed_cv_def core_kinds_def)
  then show thesis
  proof cases
    case 1
    then have "cv = NewCoreValueI32 (ucast (Bits cv))" using assms by (simp add: typed_cv_def NewCoreValueI32_def)
    with 1 show thesis by (rule that(1))
  next
    case 2
    then have "cv = NewCoreValueI64 (Bits cv)" using assms by (simp add: typed_cv_def NewCoreValueI64_def)
    with 2 show thesis by (rule that(2))
  next
    case 3
    then have "cv = NewCoreValueF32 (ucast (Bits cv))" using assms by (simp add: typed_cv_def NewCoreValueF32_def)
    with 3 show thesis by (rule that(3))
  next
    case 4
    then have "cv = NewCoreValueF64 (Bits cv)" using assms by (simp add: typed_cv_def NewCoreValueF64_def)
    with 4 show thesis by (rule that(4))
  qed
qed

text \<open>Coercing to the joined kind, and back.\<close>

lemma coerceValue_typed:
  assumes "typed_cv k cv" "joins_to k j"
  shows "\<exists>x. coerceValue cv k j = Inr x \<and> typed_cv j x \<and> deCoerceValue x j k = Inr cv"
  using assms(1) by (rule typed_cvE) (use assms(2) in \<open>auto simp: joins_to_def core_kinds_def coerceValue_def deCoerceValue_def\<close>)

lemma coerce_all_typed:
  assumes "list_all2 typed_cv ks cvs" "length ks \<le> length js" "list_all2 joins_to ks (take (length ks) js)"
  shows "\<exists>xs. coerce_all cvs ks js = Inr xs \<and> list_all2 typed_cv (take (length ks) js) xs \<and> length xs = length cvs \<and>
    (\<forall>i < length cvs. deCoerceValue (xs ! i) (js ! i) (ks ! i) = Inr (cvs ! i))"
  using assms
proof (induction ks cvs arbitrary: js rule: list_all2_induct)
  case (Cons k ks cv cvs)
  obtain j js' where js: "js = j # js'" using Cons.prems(1) by (cases js) auto
  obtain x where x: "coerceValue cv k j = Inr x" "typed_cv j x" "deCoerceValue x j k = Inr cv"
    using coerceValue_typed [OF Cons.hyps(1)] Cons.prems(2) js by auto
  obtain xs where xs: "coerce_all cvs ks js' = Inr xs" "list_all2 typed_cv (take (length ks) js') xs" "length xs = length cvs"
    "\<forall>i < length cvs. deCoerceValue (xs ! i) (js' ! i) (ks ! i) = Inr (cvs ! i)"
    using Cons.IH [of js'] Cons.prems js by auto
  show ?case using x xs js by (auto simp: nth_Cons split: nat.splits)
qed simp

lemma zero_typed: "k \<in> set core_kinds \<Longrightarrow> \<exists>z. zeroCoreValueForKind k = Inr z \<and> typed_cv k z"
  by (auto simp: zeroCoreValueForKind_def core_kinds_def)

lemma zeros_typed: "set ks \<subseteq> set core_kinds \<Longrightarrow> \<exists>zs. mapE zeroCoreValueForKind ks = Inr zs \<and> list_all2 typed_cv ks zs"
proof (induction ks)
  case (Cons k ks)
  then show ?case using zero_typed [of k] by auto
qed simp

lemma pad_typed:
  assumes "list_all2 typed_cv (take (length xs) js) xs" "length xs \<le> length js" "set js \<subseteq> set core_kinds"
  shows "\<exists>zs. pad js xs = Inr (xs @ zs) \<and> list_all2 typed_cv js (xs @ zs)"
proof -
  have "set (drop (length xs) js) \<subseteq> set core_kinds" using assms(3) set_drop_subset [of "length xs" js] by blast
  then obtain zs where zs: "mapE zeroCoreValueForKind (drop (length xs) js) = Inr zs" "list_all2 typed_cv (drop (length xs) js) zs"
    using zeros_typed by blast
  have "list_all2 typed_cv (take (length xs) js @ drop (length xs) js) (xs @ zs)" by (rule list_all2_appendI [OF assms(1) zs(2)])
  then show ?thesis using zs(1) by (simp add: pad_def)
qed

section \<open>The kinds of a flattened type\<close>

lemma joinCoreTypes_kind: "cs \<noteq> [] \<Longrightarrow> set cs \<subseteq> set core_kinds \<Longrightarrow> joinCoreTypes cs \<in> set core_kinds"
  by (cases cs) (auto simp: joinCoreTypes_def core_kinds_def)

lemma joinCoreTypes_joins: "c \<in> set cs \<Longrightarrow> set cs \<subseteq> set core_kinds \<Longrightarrow> joins_to c (joinCoreTypes cs)"
proof -
  assume c: "c \<in> set cs" and k: "set cs \<subseteq> set core_kinds"
  have ck: "c \<in> set core_kinds" using c k by blast
  obtain a as where cs: "cs = a # as" using c by (cases cs) auto
  consider "\<forall>t \<in> set cs. t = a" | "\<not> (\<forall>t \<in> set cs. t = a)" "\<forall>t \<in> set cs. t = ''i32'' \<or> t = ''f32''"
    | "\<not> (\<forall>t \<in> set cs. t = a)" "\<not> (\<forall>t \<in> set cs. t = ''i32'' \<or> t = ''f32'')" by blast
  then show ?thesis
  proof cases
    case 1
    then have "joinCoreTypes cs = c" using c by (auto simp: joinCoreTypes_def cs)
    then show ?thesis using ck by (simp add: joins_to_def)
  next
    case 2
    have "joinCoreTypes cs = ''i32''"
      unfolding cs joinCoreTypes_def list.case if_not_P [OF 2(1) [unfolded cs]] if_P [OF 2(2) [unfolded cs]] ..
    moreover have "c = ''i32'' \<or> c = ''f32''" using 2(2) c by blast
    ultimately show ?thesis using ck unfolding joins_to_def by metis
  next
    case 3
    then have "joinCoreTypes cs = ''i64''" unfolding joinCoreTypes_def cs list.case by (simp only: if_False)
    then show ?thesis using ck by (simp add: joins_to_def)
  qed
qed

lemma candidates_sub: "set (candidates fs i) \<subseteq> (\<Union>f \<in> set fs. set f)"
  by (auto simp: candidates_def)

lemma join_slots_nth:
  assumes "i < foldl max 0 (map length fs)"
  shows "join_slots fs (foldl max 0 (map length fs)) ! i = joinCoreTypes (candidates fs i)"
proof -
  have "join_slots fs (foldl max 0 (map length fs)) = map (\<lambda>i. joinCoreTypes (candidates fs i)) [0..<foldl max 0 (map length fs)]"
  proof -
    have "concat (map (\<lambda>i. if 0 < length (candidates fs i) then [joinCoreTypes (candidates fs i)] else []) is) = map (\<lambda>i. joinCoreTypes (candidates fs i)) is"
      if "\<forall>i \<in> set is. candidates fs i \<noteq> []" for "is"
      using that by (induction "is") auto
    then show ?thesis by (simp add: join_slots_def Let_def candidates_nonempty)
  qed
  then show ?thesis using assms by simp
qed

lemma slots_join:
  assumes "f \<in> set fs" "\<forall>f \<in> set fs. set f \<subseteq> set core_kinds"
  defines "js \<equiv> join_slots fs (foldl max 0 (map length fs))"
  shows "length f \<le> length js" "list_all2 joins_to f (take (length f) js)"
proof -
  have le: "length f \<le> foldl max 0 (map length fs)" using foldl_max_ge [of 0 "map length fs"] assms(1) by auto
  then show l: "length f \<le> length js" by (simp add: js_def)
  have "joins_to (f ! i) (js ! i)" if i: "i < length f" for i
  proof -
    have "f ! i \<in> set (candidates fs i)" using assms(1) i by (auto simp: candidates_def)
    moreover have "set (candidates fs i) \<subseteq> set core_kinds" using candidates_sub [of fs i] assms(2) by blast
    ultimately show ?thesis using join_slots_nth [of i fs] i le by (simp add: js_def joinCoreTypes_joins)
  qed
  then show "list_all2 joins_to f (take (length f) js)" using l by (simp add: list_all2_conv_all_nth)
qed

lemma slots_kinds:
  assumes "\<forall>f \<in> set fs. set f \<subseteq> set core_kinds"
  shows "set (join_slots fs (foldl max 0 (map length fs))) \<subseteq> set core_kinds"
proof
  fix k assume "k \<in> set (join_slots fs (foldl max 0 (map length fs)))"
  then obtain i where i: "i < foldl max 0 (map length fs)" "k = join_slots fs (foldl max 0 (map length fs)) ! i" by (auto simp: in_set_conv_nth)
  then have "k = joinCoreTypes (candidates fs i)" by (simp add: join_slots_nth)
  then show "k \<in> set core_kinds"
    using joinCoreTypes_kind [of "candidates fs i"] candidates_nonempty [OF i(1)] candidates_sub [of fs i] assms by blast
qed

lemma vias_set: "vias r fl trs = Inr fs \<Longrightarrow> f \<in> set fs \<Longrightarrow> \<exists>tr \<in> set trs. \<exists>u. resolveType r (Some tr) = Inr u \<and> fl u = Inr f"
  by (induction trs arbitrary: fs) (auto simp: via_def)

lemma vias_all2: "vias r fl trs = Inr fs \<longleftrightarrow> list_all2 (\<lambda>tr f. \<exists>u. resolveType r (Some tr) = Inr u \<and> fl u = Inr f) trs fs"
proof (induction trs arbitrary: fs)
  case (Cons tr trs)
  then show ?case by (cases fs) (auto simp: via_def)
qed auto

lemma vias_in:
  assumes "vias r fl trs = Inr fs" "tr \<in> set trs" "resolveType r (Some tr) = Inr u" "fl u = Inr f"
  shows "f \<in> set fs"
  using assms(1) [unfolded vias_all2] assms(2-) by (induction rule: list_all2_induct) auto

lemma flattenPrimitive_prims:
  assumes "flattenPrimitive p = Inr ks"
  shows "p \<in> set [''bool'', ''u8'', ''u16'', ''u32'', ''s8'', ''s16'', ''s32'', ''s64'', ''u64'', ''f32'', ''f64'', ''char'', ''string'', ''error-context'']"
  by (rule ccontr) (use assms in \<open>simp add: flattenPrimitive_def\<close>)

lemma flattenPrimitive_kinds:
  assumes "flattenPrimitive p = Inr ks"
  shows "set ks \<subseteq> set core_kinds"
  using flattenPrimitive_prims [OF assms] assms unfolding list.set
  by (elim insertE emptyE) (auto simp: flattenPrimitive_def flatKinds_defs core_kinds_def)

text \<open>The joined slots of a variant, from the flattenings of its payloads.\<close>

lemma flattenVariant_slots:
  assumes "flattenVariant r fl cs = Inr ks"
  obtains fs where "vias r fl (List.map_filter snd cs) = Inr fs" "ks = ''i32'' # join_slots fs (foldl max 0 (map length fs))"
proof -
  obtain fs df where f: "flattenPrimitive (DiscriminantType (length cs)) = Inr df" "vias r fl (List.map_filter snd cs) = Inr fs"
    "ks = df @ join_slots fs (foldl max 0 (map length fs))"
    using assms by (auto simp: flattenVariant_def case_flats)
  moreover have "df = [''i32'']" using f(1) by (auto simp: DiscriminantType_def flattenPrimitive_def flatKinds_defs split: if_splits)
  ultimately show thesis using that by simp
qed

lemma flattenResult_slots:
  assumes "flattenResult r fl ok er = Inr ks"
  obtains okFlat errFlat where "ks = ''i32'' # join_slots [okFlat, errFlat] (foldl max 0 (map length [okFlat, errFlat]))"
    "case ok of None \<Rightarrow> okFlat = [] | Some tr \<Rightarrow> via r fl (Some tr) = Inr okFlat"
    "case er of None \<Rightarrow> errFlat = [] | Some tr \<Rightarrow> via r fl (Some tr) = Inr errFlat"
proof -
  obtain okFlat errFlat where f: "(case ok of None \<Rightarrow> Inr [] | Some tr \<Rightarrow> via r fl (Some tr)) = Inr okFlat"
    "(case er of None \<Rightarrow> Inr [] | Some tr \<Rightarrow> via r fl (Some tr)) = Inr errFlat"
    "ks = ''i32'' # join_slots [okFlat, errFlat] (max (length errFlat) (max (length okFlat) 0))"
    using assms by (auto simp: flattenResult_def Let_def)
  have "foldl max 0 (map length [okFlat, errFlat]) = max (length errFlat) (max (length okFlat) 0)" by (simp add: max.commute)
  then show thesis using that [of okFlat errFlat] f by (cases ok; cases er) auto
qed

lemma Flatten_kinds: "Flatten n r t = Inr ks \<Longrightarrow> set ks \<subseteq> set core_kinds"
proof (induction n arbitrary: t ks)
  case (Suc n)
  have ch: "set f \<subseteq> set core_kinds" if "via r (Flatten n r) (Some tr) = Inr f" for tr f using that Suc.IH by (auto simp: via_def)
  have vs: "\<forall>f \<in> set fs. set f \<subseteq> set core_kinds" if "vias r (Flatten n r) trs = Inr fs" for trs fs
    using vias_set [OF that] Suc.IH by blast
  note k = Suc.prems [unfolded Flatten.simps Flatten_body_def]
  have i32: "''i32'' \<in> set core_kinds" by (simp add: core_kinds_def)
  show ?case
  proof (cases t)
    case (VariantDesc cs)
    then obtain fs where "vias r (Flatten n r) (List.map_filter snd cs) = Inr fs" "ks = ''i32'' # join_slots fs (foldl max 0 (map length fs))"
      using k flattenVariant_slots [of r "Flatten n r" cs ks] by auto
    then show ?thesis using slots_kinds [OF vs] i32 by simp
  next
    case (ResultDesc ok er)
    then obtain a b where ab: "ks = ''i32'' # join_slots [a, b] (foldl max 0 (map length [a, b]))"
      "case ok of None \<Rightarrow> a = [] | Some tr \<Rightarrow> via r (Flatten n r) (Some tr) = Inr a"
      "case er of None \<Rightarrow> b = [] | Some tr \<Rightarrow> via r (Flatten n r) (Some tr) = Inr b"
      using k flattenResult_slots [of r "Flatten n r" ok er ks] by auto
    have "\<forall>f \<in> set [a, b]. set f \<subseteq> set core_kinds" using ab(2,3) ch by (auto split: option.splits)
    from slots_kinds [OF this] show ?thesis using ab(1) i32 by simp
  next
    case (OptionDesc e)
    then obtain f where f: "via r (Flatten n r) (Some e) = Inr f" "ks = ''i32'' # f" using k by (auto simp: flattenOption_def)
    show ?thesis using ch [OF f(1)] f(2) i32 by simp
  next
    case (FixedListDesc e m)
    then obtain f where f: "via r (Flatten n r) (Some e) = Inr f" "ks = concat (replicate (fixedListCopies (length f) m) f)"
      using k by (auto simp: flattenFixedList_def Let_def)
    then show ?thesis using ch [OF f(1)] by auto
  next
    case (RecordDesc fs)
    then show ?thesis using k vs by (fastforce simp: flattenRecord_def append_flats_concat)
  next
    case (TupleDesc es)
    then show ?thesis using k vs by (fastforce simp: flattenTuple_def append_flats_concat)
  next
    case (PrimitiveDesc p)
    then show ?thesis using k flattenPrimitive_kinds by simp
  qed (use k in \<open>auto simp: flattenList_def flattenFlagsNumLabels_def flattenEnum_def flatKinds_defs core_kinds_def split: if_splits\<close>)
qed simp

section \<open>Lowering gives the flattened kinds\<close>

lemma kinds_okD:
  "kinds_ok fl lo \<Longrightarrow> lo v t flat st = Inr (cvs, st') \<Longrightarrow> fl t = Inr ks \<Longrightarrow> length ks \<le> 16 \<Longrightarrow> flat = None \<or> flat = Some ks \<Longrightarrow> list_all2 typed_cv ks cvs"
  unfolding kinds_ok_def by blast

lemma lowerPrimitiveCore_kinds:
  assumes "lowerPrimitiveCore v p = Inr cv" "flattenPrimitive p = Inr ks" "p \<noteq> ''string''"
  shows "list_all2 typed_cv ks [cv]"
  using flattenPrimitive_prims [OF assms(2)] assms unfolding list.set
  by (elim insertE emptyE) (auto simp: lowerPrimitiveCore_def flattenPrimitive_def flatKinds_defs lowerChar_def split: val.splits)

lemma ptr_len_kinds: "ptr_len res = Inr (cvs, st') \<Longrightarrow> list_all2 typed_cv [''i32'', ''i32''] cvs"
  by (auto simp: ptr_len_def split: prod.splits)

lemma lower_fields_kinds:
  assumes c: "kinds_ok fl lo" and fs: "vias r fl trs = Inr fs" "length (concat fs) \<le> 16"
    and s: "lower_fields r lo trs vs st = Inr (cvs, st')" "length vs = length trs"
  shows "list_all2 typed_cv (concat fs) cvs"
  using fs s
proof (induction trs arbitrary: vs fs cvs st)
  case (Cons tr trs)
  obtain v vs' where v: "vs = v # vs'" using Cons.prems(4) by (cases vs) auto
  obtain u f fs' where u: "resolveType r (Some tr) = Inr u" "fl u = Inr f" "vias r fl trs = Inr fs'" "fs = f # fs'"
    using Cons.prems(1) by (auto simp: via_def)
  obtain a st1 b where l: "lo v u None st = Inr (a, st1)" "lower_fields r lo trs vs' st1 = Inr (b, st')" "cvs = a @ b"
    using Cons.prems(3) v u(1) by (auto simp: abiE_def split: prod.splits)
  have "list_all2 typed_cv f a" by (rule kinds_okD [OF c l(1) u(2)]) (use Cons.prems(2) u(4) in auto)
  moreover have "list_all2 typed_cv (concat fs') b" by (rule Cons.IH [OF u(3) _ l(2)]) (use Cons.prems v u(4) in auto)
  ultimately show ?case using u(4) l(3) by (simp add: list_all2_appendI)
qed simp

lemma lower_payload_kinds:
  assumes c: "kinds_ok fl lo" and f: "\<And>tr u f. ref = Some tr \<Longrightarrow> resolveType r (Some tr) = Inr u \<Longrightarrow> fl u = Inr f \<Longrightarrow>
      length f \<le> length js \<and> list_all2 joins_to f (take (length f) js)"
    and js: "set js \<subseteq> set core_kinds" "length js \<le> 16"
    and s: "lower_payload r fl lo ref v js st = Inr (cvs, st')"
  shows "list_all2 typed_cv js cvs"
proof (cases ref)
  case None
  then show ?thesis using s pad_typed [of "[]" js] js(1) by (auto simp: lower_payload_def)
next
  case (Some tr)
  then obtain u f a xs where u: "resolveType r (Some tr) = Inr u" "fl u = Inr f" "lo v u (Some f) st = Inr (a, st')"
    "coerce_all a f js = Inr xs" "pad js xs = Inr cvs"
    using s by (auto simp: lower_payload_def abiE_def split: prod.splits sum.splits)
  note j = f [OF Some u(1,2)]
  have t: "list_all2 typed_cv f a" by (rule kinds_okD [OF c u(3,2)]) (use j js in auto)
  have "list_all2 typed_cv (take (length f) js) xs" "length xs = length f"
    using coerce_all_typed [OF t conjunct1 [OF j] conjunct2 [OF j]] u(4) list_all2_lengthD [OF t] by auto
  then show ?thesis using pad_typed [of xs js] js(1) j u(5) by auto
qed

lemma variant_payload_joins:
  assumes "flattenVariant r fl cs = Inr ks" "\<And>u f. fl u = Inr f \<Longrightarrow> set f \<subseteq> set core_kinds" "joined_flat ks = Inr js"
    "i < length cs" "snd (cs ! i) = Some tr" "resolveType r (Some tr) = Inr u" "fl u = Inr f"
  shows "length f \<le> length js \<and> list_all2 joins_to f (take (length f) js)"
proof -
  obtain fs where fs: "vias r fl (List.map_filter snd cs) = Inr fs" "ks = ''i32'' # join_slots fs (foldl max 0 (map length fs))"
    using flattenVariant_slots [OF assms(1)] .
  have "tr \<in> set (List.map_filter snd cs)" using assms(4,5) by (force simp: List.map_filter_def in_set_conv_nth)
  then have "f \<in> set fs" by (rule vias_in [OF fs(1) _ assms(6,7)])
  moreover have "\<forall>f \<in> set fs. set f \<subseteq> set core_kinds" using vias_set [OF fs(1)] assms(2) by blast
  ultimately show ?thesis using slots_join [of f fs] assms(3) fs(2) by (auto simp: joined_flat_def simp del: length_join_slots)
qed

lemma result_payload_joins:
  assumes "flattenResult r fl ok er = Inr ks" "\<And>u f. fl u = Inr f \<Longrightarrow> set f \<subseteq> set core_kinds" "joined_flat ks = Inr js"
    "(if b then er else ok) = Some tr" "resolveType r (Some tr) = Inr u" "fl u = Inr f"
  shows "length f \<le> length js \<and> list_all2 joins_to f (take (length f) js)"
proof -
  obtain x y where xy: "ks = ''i32'' # join_slots [x, y] (foldl max 0 (map length [x, y]))"
    "case ok of None \<Rightarrow> x = [] | Some tr \<Rightarrow> via r fl (Some tr) = Inr x" "case er of None \<Rightarrow> y = [] | Some tr \<Rightarrow> via r fl (Some tr) = Inr y"
    using flattenResult_slots [OF assms(1)] .
  have "f \<in> set [x, y]" using xy(2,3) assms(4-6) by (auto simp: via_def split: if_splits)
  moreover have "\<forall>f \<in> set [x, y]. set f \<subseteq> set core_kinds" using xy(2,3) assms(2) by (auto simp: via_def split: option.splits)
  ultimately show ?thesis using slots_join [of f "[x, y]"] assms(3) xy(1) by (auto simp: joined_flat_def simp del: length_join_slots)
qed

lemma copies_exact:
  assumes "length (concat (replicate (fixedListCopies (length f) n) f)) \<le> 16"
  shows "concat (replicate (fixedListCopies (length f) n) f) = concat (replicate (unat n) f)"
proof (cases "length f = 0")
  case False
  have "fixedListCopies (length f) n = unat n"
  proof (rule ccontr)
    assume "fixedListCopies (length f) n \<noteq> unat n"
    then have c: "fixedListCopies (length f) n = 16 div length f + 1" using False by (auto simp: fixedListCopies_def MaxFlatParams_def split: if_splits)
    have "16 < length f * (16 div length f + 1)" using False dividend_less_times_div [of "length f" 16] by simp
    then show False using assms c by simp
  qed
  then show ?thesis by simp
qed simp

lemma lower_elems_kinds:
  assumes c: "kinds_ok fl lo" and f: "fl t = Inr f" "length (concat (replicate (length vs) f)) \<le> 16"
    and s: "lower_elems lo t vs st = Inr (cvs, st')"
  shows "list_all2 typed_cv (concat (replicate (length vs) f)) cvs"
  using f(2) s
proof (induction vs arbitrary: st cvs)
  case (Cons v vs)
  then obtain a st1 b where l: "lo v t None st = Inr (a, st1)" "lower_elems lo t vs st1 = Inr (b, st')" "cvs = a @ b"
    by (auto split: prod.splits)
  have "list_all2 typed_cv f a" by (rule kinds_okD [OF c l(1) f(1)]) (use Cons.prems in auto)
  moreover have "list_all2 typed_cv (concat (replicate (length vs) f)) b" by (rule Cons.IH [OF _ l(2)]) (use Cons.prems in auto)
  ultimately show ?case using l(3) by (simp add: list_all2_appendI)
qed simp

lemma concat_replicate_single: "concat (replicate n [k]) = replicate n k"
  by (induction n) auto

lemma lowerFixed_kinds:
  assumes "lowerFixed xs n lower = Inr cvs" "\<And>x cv. lower x = Inr cv \<Longrightarrow> typed_cv k cv"
  shows "list_all2 typed_cv (concat (replicate (unat n) [k])) cvs"
proof -
  have m: "length xs = unat n" "mapE lower xs = Inr cvs" using assms(1) by (auto simp: lowerFixed_def split: if_splits)
  have "list_all2 typed_cv (replicate (length xs) k) cvs"
    using m(2) by (induction xs arbitrary: cvs) (auto simp: assms(2))
  then show ?thesis using m(1) by (simp add: concat_replicate_single)
qed

lemma lowerFixedScalars_kinds:
  assumes "lowerFixedScalars v p n = Some (Inr cvs)" "flattenPrimitive p = Inr f"
  shows "list_all2 typed_cv (concat (replicate (unat n) f)) cvs"
  using flattenPrimitive_prims [OF assms(2)] assms unfolding list.set
  by (elim insertE emptyE) (auto simp: lowerFixedScalars_def flattenPrimitive_def flatKinds_defs split: val.splits
      elim!: lowerFixed_kinds, auto simp: lowerChar_def)

lemma lower_body_kinds:
  assumes c: "kinds_ok fl lo" and k: "\<And>u f. fl u = Inr f \<Longrightarrow> set f \<subseteq> set core_kinds"
    and own: "\<And>ks. Flatten_body r fw fl t = Inr ks \<Longrightarrow> set ks \<subseteq> set core_kinds"
    and prim: "\<And>p ks. fl (PrimitiveDesc p) = Inr ks \<Longrightarrow> flattenPrimitive p = Inr ks"
    and f: "Flatten_body r fw fl t = Inr ks" "length ks \<le> 16" and flat: "flat = None \<or> flat = Some ks"
    and s: "lower_body r R fw fl al sz sto lo v t flat st = Inr (cvs, st')"
  shows "list_all2 typed_cv ks cvs"
proof -
  have of: "own_flat r fw fl t flat = Inr ks" using f(1) flat by (auto simp: own_flat_def abiE_def)
  show ?thesis
  proof (cases t)
    case (PrimitiveDesc p)
    show ?thesis
    proof (cases "p = ''string''")
      case True
      then show ?thesis using PrimitiveDesc f(1) s
        by (auto simp: Flatten_body_def lower_body_def lowerFlatPrimitive_def lowerFlatString_def flattenPrimitive_def flatKinds_defs
            dest: ptr_len_kinds split: val.splits)
    next
      case False
      then obtain cv where "lowerPrimitiveCore v p = Inr cv" "cvs = [cv]" "flattenPrimitive p = Inr ks" using PrimitiveDesc f(1) s
        by (auto simp: Flatten_body_def lower_body_def lowerFlatPrimitive_def)
      then show ?thesis using lowerPrimitiveCore_kinds False by auto
    qed
  next
    case (ListDesc e)
    then show ?thesis using f(1) s
      by (auto simp: Flatten_body_def flattenList_def flatKinds_defs lower_body_def lowerFlatList_def dest: ptr_len_kinds)
  next
    case (MapDesc key val)
    then show ?thesis using f(1) s
      by (auto simp: Flatten_body_def flattenList_def flatKinds_defs lower_body_def lowerFlatList_def dest: ptr_len_kinds)
  next
    case (FixedListDesc e n)
    then obtain u g where u: "resolveType r (Some e) = Inr u" "fl u = Inr g" "ks = concat (replicate (fixedListCopies (length g) n) g)"
      using f(1) by (auto simp: Flatten_body_def flattenFixedList_def via_def Let_def)
    then have ks: "ks = concat (replicate (unat n) g)" using f(2) copies_exact [of g n] by simp
    have l: "lowerFlatFixedList lo v n u st = Inr (cvs, st')" using s FixedListDesc u(1) by (simp add: lower_body_def abiE_def)
    show ?thesis
    proof (cases "Option.bind (scalarPrim u) (\<lambda>prim. lowerFixedScalars v prim n)")
      case None
      then obtain vs where "length vs = unat n" "lower_elems lo u vs st = Inr (cvs, st')"
        using l by (auto simp: lowerFlatFixedList_def split: val.splits if_splits)
      then show ?thesis using lower_elems_kinds [OF c u(2), of vs st cvs st'] ks f(2) by simp
    next
      case (Some res)
      then obtain p where "u = PrimitiveDesc p" "lowerFixedScalars v p n = Some (Inr cvs)"
        using l by (auto simp: lowerFlatFixedList_def scalarPrim_def bind_eq_Some_conv split: type_desc.splits)
      then show ?thesis using lowerFixedScalars_kinds [of v p n cvs g] prim [of p g] u(2) ks by simp
    qed
  next
    case (RecordDesc fs)
    then obtain gs where "vias r fl (map snd fs) = Inr gs" "ks = concat gs"
      using f(1) by (auto simp: Flatten_body_def flattenRecord_def append_flats_concat)
    then show ?thesis using lower_fields_kinds [OF c] s RecordDesc f(2)
      by (auto simp: lower_body_def lowerFlatRecord_def split: val.splits if_splits)
  next
    case (TupleDesc es)
    then obtain gs where "vias r fl es = Inr gs" "ks = concat gs"
      using f(1) by (auto simp: Flatten_body_def flattenTuple_def append_flats_concat)
    then show ?thesis using lower_fields_kinds [OF c] s TupleDesc f(2)
      by (auto simp: lower_body_def lowerFlatTuple_def split: val.splits if_splits)
  next
    case (VariantDesc cs)
    then obtain i x where v: "v = VVariant i x" "unat i < length cs" using s by (auto simp: lower_body_def lowerFlatVariant_def split: val.splits if_splits)
    obtain js a where j: "joined_flat ks = Inr js" "lower_payload r fl lo (snd (cs ! unat i)) x js st = Inr (a, st')" "cvs = NewCoreValueI32 i # a"
      using s v VariantDesc of by (auto simp: lower_body_def lowerFlatVariant_def split: prod.splits)
    have fv: "flattenVariant r fl cs = Inr ks" using f(1) VariantDesc by (simp add: Flatten_body_def)
    have ks: "ks = ''i32'' # js" using j(1) by (auto simp: joined_flat_def split: list.splits if_splits)
    have "list_all2 typed_cv js a"
      by (rule lower_payload_kinds [OF c _ _ _ j(2)]) (use variant_payload_joins [OF fv k j(1) v(2)] own [OF f(1)] ks f(2) in auto)
    then show ?thesis using ks j(3) by simp
  next
    case (ResultDesc ok er)
    then obtain b x where v: "v = VResult b x" using s by (auto simp: lower_body_def lowerFlatResult_def split: val.splits)
    obtain js a where j: "joined_flat ks = Inr js" "lower_payload r fl lo (if b then er else ok) x js st = Inr (a, st')" "cvs = NewCoreValueI32 (if b then 1 else 0) # a"
      using s v ResultDesc of by (auto simp: lower_body_def lowerFlatResult_def split: prod.splits)
    have fv: "flattenResult r fl ok er = Inr ks" using f(1) ResultDesc by (simp add: Flatten_body_def)
    have ks: "ks = ''i32'' # js" using j(1) by (auto simp: joined_flat_def split: list.splits if_splits)
    have "list_all2 typed_cv js a"
      by (rule lower_payload_kinds [OF c _ _ _ j(2)]) (use result_payload_joins [OF fv k j(1), where b = b] own [OF f(1)] ks f(2) in auto)
    then show ?thesis using ks j(3) by simp
  next
    case (OptionDesc e)
    then obtain u g where u: "resolveType r (Some e) = Inr u" "fl u = Inr g" "ks = ''i32'' # g"
      using f(1) by (auto simp: Flatten_body_def flattenOption_def via_def)
    obtain ef where ef: "tail_flat flat = Inr ef" "ef = None \<or> ef = Some g" using flat u(3) by (auto simp: tail_flat_def)
    have l: "lowerFlatOption fl lo v u ef st = Inr (cvs, st')" using s OptionDesc u(1) ef(1) by (simp add: lower_body_def abiE_def)
    show ?thesis
    proof (cases "v = VNil")
      case True
      then obtain zs where "mapE zeroCoreValueForKind g = Inr zs" "cvs = NewCoreValueI32 0 # zs"
        using l ef(2) u(2) by (auto simp: lowerFlatOption_def abiE_def split: option.splits)
      then show ?thesis using zeros_typed [OF k [OF u(2)]] u(3) by auto
    next
      case False
      then obtain a where "lo v u ef st = Inr (a, st')" "cvs = NewCoreValueI32 1 # a" using l by (auto simp: lowerFlatOption_def split: prod.splits)
      then show ?thesis using kinds_okD [OF c _ u(2)] ef(2) u(3) f(2) by auto
    qed
  qed (use f(1) s in \<open>auto simp: Flatten_body_def lower_body_def lower_handle_def lowerFlatFlags_def lowerFlatEnum_def flattenFlagsNumLabels_def
      flattenEnum_def flatKinds_defs split: val.splits if_splits\<close>)
qed

lemma Flatten_prim: "Flatten n r (PrimitiveDesc p) = Inr ks \<Longrightarrow> flattenPrimitive p = Inr ks"
  by (cases n) (auto simp: Flatten_body_def)

lemma lowerFlatImpl_kinds: "kinds_ok (Flatten n r) (lowerFlatImpl n r R)"
proof (induction n)
  case (Suc n)
  show ?case unfolding kinds_ok_def
  proof (intro allI impI)
    fix v t flat st cvs st' ks
    assume l: "lowerFlatImpl (Suc n) r R v t flat st = Inr (cvs, st')" and f: "Flatten (Suc n) r t = Inr ks" "length ks \<le> 16" and fl: "flat = None \<or> flat = Some ks"
    show "list_all2 typed_cv ks cvs"
      by (rule lower_body_kinds [OF Suc.IH Flatten_kinds _ Flatten_prim f(1) [unfolded Flatten.simps] f(2) fl l [unfolded lowerFlatImpl.simps]])
        (use Flatten_kinds [of "Suc n" r t] in auto)
  qed
qed (simp add: kinds_ok_def)

end
