(* ===== verification/Abi_Ownership.thy ===== *)
theory Abi_Ownership
  imports Abi_Store
begin

text \<open>
  What a store does to memory, and why a later load finds it. The host owns a set of addresses; the guest's
  allocator adds a block to it with every call and leaves what is in it alone (\<open>allocator_ok\<close>). \<open>stored own A st st' Q\<close>
  says that a store changed of the owned addresses only those of \<open>A\<close> and that every memory which keeps
  \<open>A\<close> and the new blocks satisfies \<open>Q\<close>; stores in a row compose by \<open>stored_seq\<close>, a store into a fresh block is
  \<open>stored_fresh\<close>. The primitives, strings and typed lists are shown to be stored in this sense.
\<close>

unbundle bit_operations_syntax

section \<open>Specification vocabulary\<close>

definition span :: "u32 \<Rightarrow> nat \<Rightarrow> nat set" where
  "span p k = {unat p..<unat p + k}"

text \<open>\<open>m'\<close> keeps what \<open>m\<close> has at the addresses \<open>A\<close>.\<close>

definition agree_on :: "nat set \<Rightarrow> bytes \<Rightarrow> bytes \<Rightarrow> bool" where
  "agree_on A m m' \<longleftrightarrow> length m \<le> length m' \<and> (\<forall>a \<in> A. a < length m \<longrightarrow> m' ! a = m ! a)"

text \<open>
  What \<^verbatim>\<open>cabi_realloc\<close> promises for a fresh allocation: the block is aligned and is no part of what
  the caller already owns, which the call does not change, and the memory does not shrink or
  leave the 32-bit range. \<open>own\<close> is the set of addresses in use by the host.
\<close>

definition allocator_ok :: "('s \<Rightarrow> nat set) \<Rightarrow> 's Realloc \<Rightarrow> bool" where
  "allocator_ok own R \<longleftrightarrow> (\<forall>f s m al k p m' s'. Call R = Some f \<longrightarrow> length m < 2 ^ 32 \<longrightarrow>
     f s m 0 0 al k = (Inr p, m', s') \<longrightarrow>
       length m' < 2 ^ 32 \<and> agree_on (own s) m m' \<and> own s' = own s \<union> span p (unat k) \<and> own s \<inter> span p (unat k) = {} \<and>
       (al \<in> {1, 2, 4, 8} \<longrightarrow> unat al dvd unat p))"

text \<open>
  A store from \<open>st\<close> to \<open>st'\<close> changes, of what was owned before, only the addresses \<open>A\<close>; and every
  memory that keeps \<open>A\<close> and the blocks allocated meanwhile satisfies \<open>Q\<close>.
\<close>

definition stored :: "('s \<Rightarrow> nat set) \<Rightarrow> nat set \<Rightarrow> 's store \<Rightarrow> 's store \<Rightarrow> (bytes \<Rightarrow> bool) \<Rightarrow> bool" where
  "stored own A st st' Q \<longleftrightarrow> own (snd st) \<subseteq> own (snd st') \<and> length (fst st') < 2 ^ 32 \<and>
     agree_on (own (snd st) - A) (fst st) (fst st') \<and>
     (\<forall>m. length m < 2 ^ 32 \<longrightarrow> agree_on ((own (snd st') - own (snd st)) \<union> A) (fst st') m \<longrightarrow> Q m)"

text \<open>The bytes \<open>bs\<close> lie at \<open>p\<close>.\<close>

definition has :: "bytes \<Rightarrow> u32 \<Rightarrow> bytes \<Rightarrow> bool" where
  "has m p bs \<longleftrightarrow> unat p + length bs \<le> length m \<and> bslice (unat p) (unat p + length bs) m = bs"

text \<open>The number that \<^verbatim>\<open>storeInt\<close> writes.\<close>

definition int_of :: "val \<Rightarrow> u64 option" where
  "int_of v = (case v of VU32 u \<Rightarrow> Some (ucast u) | VS32 u \<Rightarrow> Some (ucast u) | VU64 u \<Rightarrow> Some u | VS64 u \<Rightarrow> Some u | _ \<Rightarrow> None)"

text \<open>Values of a primitive type, as \<^verbatim>\<open>Load\<close> produces them.\<close>

definition prim_typed :: "string \<Rightarrow> val \<Rightarrow> bool" where
  "prim_typed p v \<longleftrightarrow> (case v of
     VBool b \<Rightarrow> p = ''bool''
   | VU32 u \<Rightarrow> p = ''u8'' \<and> u < 256 \<or> p = ''u16'' \<and> u < 65536 \<or> p = ''u32'' \<or> p = ''error-context''
   | VS32 i \<Rightarrow> p = ''s8'' \<and> -128 \<le> sint i \<and> sint i < 128 \<or> p = ''s16'' \<and> -32768 \<le> sint i \<and> sint i < 32768 \<or> p = ''s32'' \<or> p = ''char''
   | VU64 u \<Rightarrow> p = ''u64''
   | VS64 i \<Rightarrow> p = ''s64''
   | VF32 f \<Rightarrow> p = ''f32''
   | VF64 f \<Rightarrow> p = ''f64''
   | VString s \<Rightarrow> p = ''string'' \<and> utf8_valid s
   | _ \<Rightarrow> False)"

text \<open>An encoder of \<open>k\<close> bytes and its decoder.\<close>

definition codec :: "('a \<Rightarrow> mem_error + bytes) \<Rightarrow> (bytes \<Rightarrow> mem_error + 'a) \<Rightarrow> nat \<Rightarrow> bool" where
  "codec enc dec k \<longleftrightarrow> (\<forall>x bs rest. enc x = Inr bs \<longrightarrow> length bs = k \<and> dec (bs @ rest) = Inr x)"

text \<open>The length of a typed slice.\<close>

definition slice_len :: "val \<Rightarrow> nat option" where
  "slice_len v = (case v of VBytes xs \<Rightarrow> Some (length xs) | VInt8s xs \<Rightarrow> Some (length xs) | VBools xs \<Rightarrow> Some (length xs)
     | VUint16s xs \<Rightarrow> Some (length xs) | VInt16s xs \<Rightarrow> Some (length xs) | VUint32s xs \<Rightarrow> Some (length xs) | VInt32s xs \<Rightarrow> Some (length xs)
     | VUint64s xs \<Rightarrow> Some (length xs) | VInt64s xs \<Rightarrow> Some (length xs) | VFloat32s xs \<Rightarrow> Some (length xs) | VFloat64s xs \<Rightarrow> Some (length xs)
     | _ \<Rightarrow> None)"

definition scalar_width :: "string \<Rightarrow> u32" where
  "scalar_width prim =
     (if prim \<in> {''u8'', ''s8'', ''bool''} then 1 else if prim \<in> {''u16'', ''s16''} then 2
      else if prim \<in> {''u64'', ''s64'', ''f64''} then 8 else 4)"

section \<open>Ownership of memory\<close>

lemma agree_on_trans: "agree_on A a b \<Longrightarrow> agree_on B b c \<Longrightarrow> C \<subseteq> A \<Longrightarrow> C \<subseteq> B \<Longrightarrow> agree_on C a c"
  unfolding agree_on_def by (metis (no_types, lifting) order.strict_trans2 order_trans subsetD)

lemma agree_on_refl [simp]: "agree_on A m m"
  by (simp add: agree_on_def)

lemma agree_on_mono: "agree_on A a b \<Longrightarrow> B \<subseteq> A \<Longrightarrow> agree_on B a b"
  by (auto simp: agree_on_def)

lemma stored_refl: "length (fst st) < 2 ^ 32 \<Longrightarrow> stored own {} st st (\<lambda>_. True)"
  by (simp add: stored_def)

lemma stored_mono:
  assumes "stored own A st st' Q" "A \<subseteq> B" "\<And>m. length m < 2 ^ 32 \<Longrightarrow> Q m \<Longrightarrow> Q' m"
  shows "stored own B st st' Q'"
proof -
  have "Q' m" if "length m < 2 ^ 32" "agree_on ((own (snd st') - own (snd st)) \<union> B) (fst st') m" for m
    using assms that agree_on_mono [OF that(2), of "(own (snd st') - own (snd st)) \<union> A"] by (auto simp: stored_def)
  moreover have "agree_on (own (snd st) - B) (fst st) (fst st')"
    using assms(1,2) by (auto simp: stored_def intro: agree_on_mono)
  ultimately show ?thesis using assms(1) by (simp add: stored_def)
qed

lemma stored_seq:
  assumes 1: "stored own A st st1 P" and 2: "stored own B st1 st2 Q"
    and own: "A \<subseteq> own (snd st)" "B \<subseteq> own (snd st)" "A \<inter> B = {}"
  shows "stored own (A \<union> B) st st2 (\<lambda>m. P m \<and> Q m)"
proof -
  have s1: "own (snd st) \<subseteq> own (snd st1)" "agree_on (own (snd st) - A) (fst st) (fst st1)"
    and s2: "own (snd st1) \<subseteq> own (snd st2)" "length (fst st2) < 2 ^ 32" "agree_on (own (snd st1) - B) (fst st1) (fst st2)"
    using 1 2 by (simp_all add: stored_def)
  have "agree_on (own (snd st) - (A \<union> B)) (fst st) (fst st2)"
    by (rule agree_on_trans [OF s1(2) s2(3)]) (use s1 in auto)
  moreover have "P m \<and> Q m" if m: "length m < 2 ^ 32" "agree_on ((own (snd st2) - own (snd st)) \<union> (A \<union> B)) (fst st2) m" for m
  proof
    have "agree_on ((own (snd st1) - own (snd st)) \<union> A) (fst st1) m"
      by (rule agree_on_trans [OF s2(3) m(2)]) (use s1 s2 own in auto)
    then show "P m" using 1 m(1) by (simp add: stored_def)
    have "agree_on ((own (snd st2) - own (snd st1)) \<union> B) (fst st2) m"
      by (rule agree_on_mono [OF m(2)]) (use s1 s2 own in auto)
    then show "Q m" using 2 m(1) by (simp add: stored_def)
  qed
  ultimately show ?thesis using s1 s2 by (auto simp: stored_def)
qed

text \<open>Storing into a block that was just allocated.\<close>

lemma stored_fresh:
  assumes al: "agree_on (own (snd st)) (fst st) (fst st1)" "own (snd st1) = own (snd st) \<union> B" "own (snd st) \<inter> B = {}"
    and 2: "stored own B st1 st2 Q"
  shows "stored own {} st st2 Q"
proof -
  have s2: "own (snd st1) \<subseteq> own (snd st2)" "length (fst st2) < 2 ^ 32" "agree_on (own (snd st1) - B) (fst st1) (fst st2)"
    using 2 by (simp_all add: stored_def)
  have "agree_on (own (snd st)) (fst st) (fst st2)" by (rule agree_on_trans [OF al(1) s2(3)]) (use al in auto)
  moreover have "Q m" if m: "length m < 2 ^ 32" "agree_on (own (snd st2) - own (snd st)) (fst st2) m" for m
  proof -
    have "agree_on ((own (snd st2) - own (snd st1)) \<union> B) (fst st2) m"
      by (rule agree_on_mono [OF m(2)]) (use al s2 in auto)
    then show ?thesis using 2 m(1) by (simp add: stored_def)
  qed
  ultimately show ?thesis using al s2 by (auto simp: stored_def)
qed

lemma bslice_agree:
  assumes "agree_on (span p k) m m'" "unat p + k \<le> length m"
  shows "bslice (unat p) (unat p + k) m' = bslice (unat p) (unat p + k) m"
  using assms by (intro nth_equalityI) (auto simp: nth_bslice agree_on_def span_def)

lemma stored_write:
  assumes fit: "unat p + length bs \<le> length (fst st)" and len: "length (fst st) < 2 ^ 32"
  shows "stored own (span p (length bs)) st (write_at (fst st) (unat p) bs, snd st) (\<lambda>m. has m p bs)"
proof -
  have "agree_on (own (snd st) - span p (length bs)) (fst st) (write_at (fst st) (unat p) bs)"
    using fit by (auto simp: agree_on_def span_def nth_write_at)
  moreover have "has m p bs" if "agree_on (span p (length bs)) (write_at (fst st) (unat p) bs) m" for m
    using bslice_agree [OF that] that fit by (simp add: has_def agree_on_def)
  ultimately show ?thesis using fit len by (simp add: stored_def)
qed

section \<open>Integers\<close>

lemma unat_mem_len [simp]: "length m < 2 ^ 32 \<Longrightarrow> unat (mem_len m) = length m"
  by (simp add: mem_len_def unat_of_nat)

lemma unat_add_fits: "unat a + unat b < 2 ^ 32 \<Longrightarrow> unat (a + b) = unat a + unat b" for a b :: u32
  by (simp add: unat_word_ariths)

lemma slice_has:
  assumes "has m p bs" "length m < 2 ^ 32" "length bs = unat k"
  shows "slice m p (p + k) = Inr bs"
proof -
  have u: "unat (p + k) = unat p + unat k" using assms by (intro unat_add_fits) (simp add: has_def)
  then show ?thesis using assms by (simp add: slice_def has_def word_less_nat_alt)
qed

lemma in_bounds:
  assumes "unat p + unat k \<le> length m" "length m < 2 ^ 32"
  shows "\<not> mem_len m < p + k" "\<not> p + k < p"
proof -
  have "unat (p + k) = unat p + unat k" using assms by (intro unat_add_fits) simp
  then show "\<not> mem_len m < p + k" "\<not> p + k < p" using assms by (simp_all add: word_less_nat_alt)
qed

lemma has_in_bounds: "has m p bs \<Longrightarrow> length bs = unat k \<Longrightarrow> length m < 2 ^ 32 \<Longrightarrow> \<not> mem_len m < p + k \<and> \<not> p + k < p"
  using in_bounds [of p k m] by (simp add: has_def)

lemma checked_bounds:
  assumes "\<not> (p + k < p \<or> mem_len m < p + k)" "length m < 2 ^ 32"
  shows "unat p + unat k \<le> length m"
proof -
  have "unat (p + k) = unat p + unat k" using assms(1) no_olen_add_nat [of p k] by (auto simp: word_le_nat_alt word_less_nat_alt unat_word_ariths)
  then show ?thesis using assms by (simp add: word_less_nat_alt)
qed

lemma get_le_bytes [simp]:
  "getU16 (le_bytes 2 (unat w16) @ rest) = w16" "getU32 (le_bytes 4 (unat w32) @ rest) = w32" "getU64 (le_bytes 8 (unat w64) @ rest) = w64"
proof -
  have "le_nat (le_bytes 2 (unat w16)) = unat w16" using unsigned_less [of w16, where ?'a = nat] by (simp add: le_nat_le_bytes)
  then show "getU16 (le_bytes 2 (unat w16) @ rest) = w16" by (simp add: getU16_def)
  have "le_nat (le_bytes 4 (unat w32)) = unat w32" using unsigned_less [of w32, where ?'a = nat] by (simp add: le_nat_le_bytes)
  then show "getU32 (le_bytes 4 (unat w32) @ rest) = w32" by (simp add: getU32_def)
  have "le_nat (le_bytes 8 (unat w64)) = unat w64" using unsigned_less [of w64, where ?'a = nat] by (simp add: le_nat_le_bytes)
  then show "getU64 (le_bytes 8 (unat w64) @ rest) = w64" by (simp add: getU64_def)
qed

text \<open>Reading back an integer of \<open>k\<close> bytes.\<close>

lemma loadInt_has:
  assumes h: "has m p (le_bytes (unat k) x)" and len: "length m < 2 ^ 32" and k: "k \<in> {1, 2, 4, 8}"
  shows "loadInt m p k sg =
    (if k = 1 then Inr (if sg then VS32 (scast (of_nat x :: u8)) else VU32 (ucast (of_nat x :: u8)))
     else if k = 2 then Inr (if sg then VS32 (scast (of_nat x :: 16 word)) else VU32 (ucast (of_nat x :: 16 word)))
     else if k = 4 then Inr (if sg then VS32 (of_nat x) else VU32 (of_nat x))
     else Inr (if sg then VS64 (of_nat x) else VU64 (of_nat x)))"
proof -
  have s: "slice m p (p + k) = Inr (le_bytes (unat k) x)" by (rule slice_has [OF h len]) simp
  have b: "\<not> mem_len m < p + k" using has_in_bounds [OF h, of k] len by simp
  have 2: "getU16 (le_bytes 2 x) = of_nat x" using get_le_bytes(1) [of "of_nat x" "[]"]
    by (simp add: getU16_def le_nat_le_bytes unsigned_of_nat take_bit_eq_mod word_of_nat_eq_iff)
  have 4: "getU32 (le_bytes 4 x) = of_nat x" by (simp add: getU32_def le_nat_le_bytes take_bit_eq_mod word_of_nat_eq_iff)
  have 8: "getU64 (le_bytes 8 x) = of_nat x" by (simp add: getU64_def le_nat_le_bytes take_bit_eq_mod word_of_nat_eq_iff)
  have 1: "hd (le_bytes (Suc 0) x) = of_nat x" by simp
  show ?thesis using k b s 1 2 4 8 by (auto simp: loadInt_def)
qed

lemma storeInt_stored:
  assumes st: "storeInt (fst st) p v k = Inr m'" and len: "length (fst st) < 2 ^ 32"
  shows "\<exists>x. int_of v = Some x \<and> k \<in> {1, 2, 4, 8} \<and> unat p + unat k \<le> length (fst st) \<and>
    stored own (span p (unat k)) st (m', snd st) (\<lambda>m. has m p (le_bytes (unat k) (unat x)))"
proof -
  have nb: "\<not> (p + k < p \<or> mem_len (fst st) < p + k)" using st by (auto simp: storeInt_def split: if_splits)
  note fit = checked_bounds [OF this len]
  obtain x where x: "int_of v = Some x" "k \<in> {1, 2, 4, 8}" "m' = write_at (fst st) (unat p) (le_bytes (unat k) (unat x))"
    using st nb by (cases v) (auto simp: storeInt_def int_of_def simp del: insert_iff split: if_splits)
  show ?thesis using x fit stored_write [of p "le_bytes (unat k) (unat x)" st own] len by auto
qed

lemma up_down [simp]: "(ucast (ucast (u :: u32) :: u64) :: u8) = ucast u" "(ucast (ucast u :: u64) :: 16 word) = ucast u" "ucast (ucast u :: u64) = u"
  by (rule bit_word_eqI, simp add: bit_simps)+

lemma small_bits: "unat u < 2 ^ k \<Longrightarrow> bit u n \<Longrightarrow> n < k" for u :: "'a::len word"
proof -
  assume u: "unat u < 2 ^ k" and b: "bit u n"
  have "take_bit k (unat u) = unat u" using u by (simp add: take_bit_nat_eq_self)
  moreover have "bit (unat u) n" using b by (simp add: bit_unsigned_iff bit_imp_le_length)
  ultimately show "n < k" by (metis bit_take_bit_iff)
qed

lemma narrow_u8: "u < 256 \<Longrightarrow> ucast (ucast u :: u8) = (u :: u32)"
proof (rule bit_word_eqI)
  fix n assume "u < 256" "n < LENGTH(32)"
  then have "unat u < 2 ^ 8" by (simp add: word_less_nat_alt)
  then show "bit (ucast (ucast u :: u8) :: u32) n = bit u n"
    using small_bits [of u 8 n] \<open>n < LENGTH(32)\<close> by (auto simp: bit_simps)
qed

lemma narrow_u16: "u < 65536 \<Longrightarrow> ucast (ucast u :: 16 word) = (u :: u32)"
proof (rule bit_word_eqI)
  fix n assume "u < 65536" "n < LENGTH(32)"
  then have "unat u < 2 ^ 16" by (simp add: word_less_nat_alt)
  then show "bit (ucast (ucast u :: 16 word) :: u32) n = bit u n"
    using small_bits [of u 16 n] \<open>n < LENGTH(32)\<close> by (auto simp: bit_simps)
qed

lemma sign_bits:
  fixes i :: u32
  assumes "- (2 ^ k) \<le> sint i" "sint i < 2 ^ k" "n < 32"
  shows "bit i n = bit i (min n k)"
proof -
  have e: "signed_take_bit k (sint i) = sint i" using assms by (simp add: signed_take_bit_int_eq_self)
  have "bit (signed_take_bit k (sint i)) n = bit (sint i) (min k n)" by (simp add: bit_signed_take_bit_iff)
  then have "bit (sint i) n = bit (sint i) (min k n)" unfolding e .
  then show ?thesis using assms(3) by (auto simp: bit_sint_iff min.commute)
qed

lemma narrow_s8: "-128 \<le> sint i \<Longrightarrow> sint i < 128 \<Longrightarrow> scast (ucast i :: u8) = (i :: u32)"
proof (rule bit_word_eqI)
  fix n assume "-128 \<le> sint i" "sint i < 128" "n < LENGTH(32)"
  then show "bit (scast (ucast i :: u8) :: u32) n = bit i n"
    using sign_bits [of 7 i n] by (auto simp: bit_simps min.commute)
qed

lemma narrow_s16: "-32768 \<le> sint i \<Longrightarrow> sint i < 32768 \<Longrightarrow> scast (ucast i :: 16 word) = (i :: u32)"
proof (rule bit_word_eqI)
  fix n assume "-32768 \<le> sint i" "sint i < 32768" "n < LENGTH(32)"
  then show "bit (scast (ucast i :: 16 word) :: u32) n = bit i n"
    using sign_bits [of 15 i n] by (auto simp: bit_simps min.commute)
qed

section \<open>Primitives\<close>

lemma put_stored:
  assumes p: "put p k st v = Inr st'" and len: "length (fst st) < 2 ^ 32"
  shows "\<exists>x. int_of v = Some x \<and> k \<in> {1, 2, 4, 8} \<and> unat p + unat k \<le> length (fst st) \<and>
    stored own (span p (unat k)) st st' (\<lambda>m. has m p (le_bytes (unat k) (unat x)) \<and> length m < 2 ^ 32)"
proof -
  obtain m' where m': "storeInt (fst st) p v k = Inr m'" "st' = (m', snd st)" using p by (auto simp: put_def)
  then show ?thesis using storeInt_stored [OF m'(1) len, of own] stored_mono [of own "span p (unat k)" st "(m', snd st)"] by (auto simp: m'(2) simp del: insert_iff)
qed

lemma put_has:
  assumes p: "put p k st v = Inr st'" and len: "length (fst st) < 2 ^ 32" and x: "int_of v = Some x"
  shows "stored own (span p (unat k)) st st' (\<lambda>m. has m p (le_bytes (unat k) (unat x)))" "k \<in> {1, 2, 4, 8}"
  using put_stored [OF p len, of own] x by (auto simp del: insert_iff elim: stored_mono)

lemma put_1:
  assumes "put p 1 st (VU32 u) = Inr st'" "length (fst st) < 2 ^ 32"
  shows "stored own (span p 1) st st' (\<lambda>m. loadInt m p 1 False = Inr (VU32 (ucast (ucast u :: u8))) \<and>
    loadInt m p 1 True = Inr (VS32 (scast (ucast u :: u8))))"
proof (rule stored_mono)
  show "stored own (span p (unat (1 :: u32))) st st' (\<lambda>m. has m p (le_bytes (unat (1 :: u32)) (unat (ucast u :: u64))))"
    by (rule put_has(1) [OF assms]) (simp add: int_of_def)
  show "span p (unat (1 :: u32)) \<subseteq> span p 1" by simp
qed (simp_all add: loadInt_has del: le_bytes.simps One_nat_def unsigned_1 unsigned_numeral)

lemma put_2:
  assumes "put p 2 st (VU32 u) = Inr st'" "length (fst st) < 2 ^ 32"
  shows "stored own (span p 2) st st' (\<lambda>m. loadInt m p 2 False = Inr (VU32 (ucast (ucast u :: 16 word))) \<and>
    loadInt m p 2 True = Inr (VS32 (scast (ucast u :: 16 word))))"
proof (rule stored_mono)
  show "stored own (span p (unat (2 :: u32))) st st' (\<lambda>m. has m p (le_bytes (unat (2 :: u32)) (unat (ucast u :: u64))))"
    by (rule put_has(1) [OF assms]) (simp add: int_of_def)
qed (simp_all add: loadInt_has del: le_bytes.simps One_nat_def unsigned_1 unsigned_numeral)

lemma put_4:
  assumes "put p 4 st (VU32 u) = Inr st'" "length (fst st) < 2 ^ 32"
  shows "stored own (span p 4) st st' (\<lambda>m. loadInt m p 4 False = Inr (VU32 u) \<and> loadInt m p 4 True = Inr (VS32 u))"
proof (rule stored_mono)
  show "stored own (span p (unat (4 :: u32))) st st' (\<lambda>m. has m p (le_bytes (unat (4 :: u32)) (unat (ucast u :: u64))))"
    by (rule put_has(1) [OF assms]) (simp add: int_of_def)
qed (simp_all add: loadInt_has del: le_bytes.simps One_nat_def unsigned_1 unsigned_numeral)

lemma put_8:
  assumes "put p 8 st (VU64 u) = Inr st'" "length (fst st) < 2 ^ 32"
  shows "stored own (span p 8) st st' (\<lambda>m. loadInt m p 8 False = Inr (VU64 u) \<and> loadInt m p 8 True = Inr (VS64 u))"
proof (rule stored_mono)
  show "stored own (span p (unat (8 :: u32))) st st' (\<lambda>m. has m p (le_bytes (unat (8 :: u32)) (unat (u :: u64))))"
    by (rule put_has(1) [OF assms]) (simp add: int_of_def)
qed (simp_all add: loadInt_has del: le_bytes.simps One_nat_def unsigned_1 unsigned_numeral)

lemma GrowMem_ok:
  assumes ok: "allocator_ok own R" and g: "GrowMem R 0 0 al k st = Inr (p, st1)" and len: "length (fst st) < 2 ^ 32"
  shows "length (fst st1) < 2 ^ 32" "agree_on (own (snd st)) (fst st) (fst st1)" "own (snd st1) = own (snd st) \<union> span p (unat k)"
    "own (snd st) \<inter> span p (unat k) = {}" "al \<in> {1, 2, 4, 8} \<Longrightarrow> unat al dvd unat p"
proof -
  obtain f m' s' where f: "Call R = Some f" "f (snd st) (fst st) 0 0 al k = (Inr p, m', s')" "st1 = (m', s')"
    using g by (auto simp: GrowMem_def split: option.splits prod.splits sum.splits)
  note h = ok [unfolded allocator_ok_def, rule_format, OF f(1) len f(2)]
  show "length (fst st1) < 2 ^ 32" "agree_on (own (snd st)) (fst st) (fst st1)" "own (snd st1) = own (snd st) \<union> span p (unat k)"
    "own (snd st) \<inter> span p (unat k) = {}" "al \<in> {1, 2, 4, 8} \<Longrightarrow> unat al dvd unat p"
    using h f(3) by simp_all
qed

text \<open>Bytes copied into a block that was just allocated for them.\<close>

lemma fresh_write:
  assumes ok: "allocator_ok own R" and g: "GrowMem R 0 0 al k st = Inr (p, st1)" and len: "length (fst st) < 2 ^ 32"
    and c: "checkAllocated (fst st1) p k = Inr ()" and bs: "length bs = unat k"
  shows "stored own {} st (write_at (fst st1) (unat p) bs, snd st1) (\<lambda>m. has m p bs)"
proof (rule stored_fresh [OF GrowMem_ok(2-4) [OF ok g len]])
  have "unat p + unat k \<le> length (fst st1)"
    by (rule checked_bounds) (use c GrowMem_ok(1) [OF ok g len] in \<open>auto simp: checkAllocated_def split: if_splits\<close>)
  then show "stored own (span p (unat k)) st1 (write_at (fst st1) (unat p) bs, snd st1) (\<lambda>m. has m p bs)"
    using stored_write [of p bs st1 own] GrowMem_ok(1) [OF ok g len] bs by simp
qed

lemma allocStoreBytes_stored:
  assumes ok: "allocator_ok own R" and a: "allocStoreBytes R b st = Inr (p, k, st1)" and len: "length (fst st) < 2 ^ 32"
  shows "unat k = length b \<and> stored own {} st st1 (\<lambda>m. has m p b)"
proof -
  let ?n = "of_nat (length b) :: u32"
  have l: "length b < 2 ^ 32" using a by (auto simp: allocStoreBytes_def split: if_splits)
  then have n: "unat ?n = length b" by (simp add: unat_of_nat)
  obtain st0 where g: "GrowMem R 0 0 1 ?n st = Inr (p, st0)" "checkAllocated (fst st0) p ?n = Inr ()" "k = ?n"
    "st1 = (write_at (fst st0) (unat p) b, snd st0)"
    using a l by (auto simp: allocStoreBytes_def Let_def split: if_splits prod.splits)
  show ?thesis using fresh_write [OF ok g(1) len g(2), of b] n g by simp
qed

text \<open>The pointer and length of a block at the place of a string or list.\<close>

lemma store_pair_stored:
  assumes p: "store_pair p (q, k, st) = Inr st'" and len: "length (fst st) < 2 ^ 32" and own: "span p 8 \<subseteq> own (snd st)"
    and fit: "unat p + 8 \<le> length (fst st)"
  shows "stored own (span p 8) st st' (\<lambda>m. loadInt m p 4 False = Inr (VU32 q) \<and> loadInt m (p + 4) 4 False = Inr (VU32 k))"
proof -
  obtain m1 m2 where m: "storeInt (fst st) p (VU32 q) 4 = Inr m1" "storeInt m1 (p + 4) (VU32 k) 4 = Inr m2" "st' = (m2, snd st)"
    using p by (cases st) (auto simp: store_pair_def)
  have 4: "unat (p + 4) = unat p + 4" using fit len by (simp add: unat_add_fits)
  have 1: "stored own (span p 4) st (m1, snd st) (\<lambda>m. loadInt m p 4 False = Inr (VU32 q) \<and> loadInt m p 4 True = Inr (VS32 q))"
    using put_4 [of p st q "(m1, snd st)" own] m(1) len by (simp add: put_def)
  have l1: "length m1 < 2 ^ 32" using 1 by (simp add: stored_def)
  have 2: "stored own (span (p + 4) 4) (m1, snd st) (m2, snd st) (\<lambda>m. loadInt m (p + 4) 4 False = Inr (VU32 k) \<and> loadInt m (p + 4) 4 True = Inr (VS32 k))"
    using put_4 [of "p + 4" "(m1, snd st)" k "(m2, snd st)" own] m(2) l1 by (simp add: put_def)
  have u: "span p 4 \<union> span (p + 4) 4 = span p 8" "span p 4 \<inter> span (p + 4) 4 = {}" by (auto simp: span_def 4)
  have "stored own (span p 4 \<union> span (p + 4) 4) st (m2, snd st) (\<lambda>m. (loadInt m p 4 False = Inr (VU32 q) \<and> loadInt m p 4 True = Inr (VS32 q)) \<and>
      loadInt m (p + 4) 4 False = Inr (VU32 k) \<and> loadInt m (p + 4) 4 True = Inr (VS32 k))"
    by (rule stored_seq [OF 1 2]) (use own u in auto)
  then show ?thesis unfolding u m(3) by (rule stored_mono) auto
qed

lemma readU32LE_int: "loadInt m p 4 False = Inr (VU32 q) \<Longrightarrow> readU32LE m p = Inr q"
  by (auto simp: readU32LE_def loadInt_def split: if_splits)

text \<open>A block and then its pointer and length.\<close>

lemma block_stored:
  assumes b: "stored own {} st st1 Q" and p: "store_pair p (q, k, st1) = Inr st'"
    and own: "span p 8 \<subseteq> own (snd st)" and fit: "unat p + 8 \<le> length (fst st)"
  shows "stored own (span p 8) st st' (\<lambda>m. Q m \<and> loadInt m p 4 False = Inr (VU32 q) \<and> loadInt m (p + 4) 4 False = Inr (VU32 k))"
proof -
  have s: "own (snd st) \<subseteq> own (snd st1)" "length (fst st1) < 2 ^ 32" "length (fst st) \<le> length (fst st1)"
    using b by (simp_all add: stored_def agree_on_def)
  have "stored own ({} \<union> span p 8) st st' (\<lambda>m. Q m \<and> loadInt m p 4 False = Inr (VU32 q) \<and> loadInt m (p + 4) 4 False = Inr (VU32 k))"
    by (rule stored_seq [OF b store_pair_stored [OF p s(2)]]) (use own s fit in auto)
  then show ?thesis by simp
qed

lemma storeString_stored:
  assumes ok: "allocator_ok own R" and s: "storeString R p b st = Inr st'" and len: "length (fst st) < 2 ^ 32"
    and own: "span p 8 \<subseteq> own (snd st)" and fit: "unat p + 8 \<le> length (fst st)" and utf8: "utf8_valid b"
  shows "stored own (span p 8) st st' (\<lambda>m. loadString m p = Inr (VString b))"
proof -
  obtain q k st1 where a: "allocStoreBytes R b st = Inr (q, k, st1)" "store_pair p (q, k, st1) = Inr st'"
    using s by (auto simp: storeString_def allocStoreString_def)
  note b = allocStoreBytes_stored [OF ok a(1) len]
  have r: "stored own (span p 8) st st' (\<lambda>m. has m q b \<and> loadInt m p 4 False = Inr (VU32 q) \<and> loadInt m (p + 4) 4 False = Inr (VU32 k))"
    by (rule block_stored [OF conjunct2 [OF b] a(2) own fit])
  show ?thesis
  proof (rule stored_mono [OF r])
    fix m :: bytes
    assume len: "length m < 2 ^ 32" and m: "has m q b \<and> loadInt m p 4 False = Inr (VU32 q) \<and> loadInt m (p + 4) 4 False = Inr (VU32 k)"
    have "loadStringFromRange m q k = Inr b"
      using slice_has [of m q b k] has_in_bounds [of m q b k] m len b utf8 by (simp add: loadStringFromRange_def)
    then show "loadString m p = Inr (VString b)" using m by (simp add: loadString_def readU32LE_int)
  qed simp
qed

lemma check_rune_char: "check_rune c = Inr c' \<Longrightarrow> c' = c \<and> check_char c = Inr c"
proof -
  assume c: "check_rune c = Inr c'"
  then have b: "0 \<le> sint c" "sint c < 0x110000" "\<not> (0xD800 \<le> sint c \<and> sint c \<le> 0xDFFF)" "c' = c"
    by (auto simp: check_rune_def split: if_splits)
  have "uint c = sint c" using b(1,2) by (simp add: uint_sint take_bit_int_eq_self)
  then show ?thesis using b(2-4) by (auto simp: check_char_def word_le_def)
qed

lemma storePrimitive_stored:
  assumes ok: "allocator_ok own R" and s: "storePrimitive R p prim v st = Inr st'" and ty: "prim_typed prim v"
    and len: "length (fst st) < 2 ^ 32" and S: "spec_prim prim = Some (S, A)"
    and own: "span p S \<subseteq> own (snd st)" and fit: "unat p + S \<le> length (fst st)"
  shows "stored own (span p S) st st' (\<lambda>m. loadPrimitive m p prim = Inr v)"
proof (cases v)
  case (VBool b)
  then show ?thesis using ty s S put_1 [of p st "if b then 1 else 0" st' own] len
    by (auto simp: prim_typed_def storePrimitive_def spec_prim_def loadPrimitive_def as_u32_def elim!: stored_mono)
next
  case (VU32 u)
  then consider "prim = ''u8''" "u < 256" | "prim = ''u16''" "u < 65536" | "prim \<in> {''u32'', ''error-context''}" using ty by (auto simp: prim_typed_def)
  then show ?thesis
  proof cases
    case 1
    then show ?thesis using VU32 s S put_1 [of p st u st' own] len
      by (auto simp: storePrimitive_def intByteSize_def spec_prim_def loadPrimitive_def narrow_u8 elim!: stored_mono)
  next
    case 2
    then show ?thesis using VU32 s S put_2 [of p st u st' own] len
      by (auto simp: storePrimitive_def intByteSize_def spec_prim_def loadPrimitive_def narrow_u16 elim!: stored_mono)
  next
    case 3
    then show ?thesis using VU32 s S put_4 [of p st u st' own] len
      by (auto simp: storePrimitive_def intByteSize_def spec_prim_def loadPrimitive_def elim!: stored_mono)
  qed
next
  case (VS32 i)
  then consider "prim = ''s8''" "-128 \<le> sint i" "sint i < 128" | "prim = ''s16''" "-32768 \<le> sint i" "sint i < 32768" | "prim = ''s32''" | "prim = ''char''"
    using ty by (auto simp: prim_typed_def)
  then show ?thesis
  proof cases
    case 1
    then show ?thesis using VS32 s S put_1 [of p st i st' own] len
      by (auto simp: storePrimitive_def intByteSize_def spec_prim_def loadPrimitive_def narrow_s8 elim!: stored_mono)
  next
    case 2
    then show ?thesis using VS32 s S put_2 [of p st i st' own] len
      by (auto simp: storePrimitive_def intByteSize_def spec_prim_def loadPrimitive_def narrow_s16 elim!: stored_mono)
  next
    case 3
    then show ?thesis using VS32 s S put_4 [of p st i st' own] len
      by (auto simp: storePrimitive_def intByteSize_def spec_prim_def loadPrimitive_def elim!: stored_mono)
  next
    case 4
    then have "check_char i = Inr i" "put p 4 st (VU32 i) = Inr st'" using VS32 s check_rune_char [of i] by (auto simp: storePrimitive_def)
    then show ?thesis using VS32 4 S put_4 [of p st i st' own] len
      by (auto simp: spec_prim_def loadPrimitive_def as_u32_def elim!: stored_mono)
  qed
next
  case (VString b)
  then show ?thesis using ty s S storeString_stored [OF ok, of p b st st'] len own fit
    by (auto simp: prim_typed_def storePrimitive_def spec_prim_def loadPrimitive_def)
next
  case (VU64 u)
  then show ?thesis using ty s S put_8 [of p st u st' own] len
    by (auto simp: prim_typed_def storePrimitive_def intByteSize_def spec_prim_def loadPrimitive_def elim!: stored_mono)
next
  case (VS64 i)
  then show ?thesis using ty s S put_8 [of p st i st' own] len
    by (auto simp: prim_typed_def storePrimitive_def intByteSize_def spec_prim_def loadPrimitive_def elim!: stored_mono)
next
  case (VF32 u)
  then show ?thesis using ty s S put_4 [of p st u st' own] len
    by (auto simp: prim_typed_def storePrimitive_def spec_prim_def loadPrimitive_def as_u32_def elim!: stored_mono)
next
  case (VF64 u)
  then show ?thesis using ty s S put_8 [of p st u st' own] len
    by (auto simp: prim_typed_def storePrimitive_def spec_prim_def loadPrimitive_def as_u64_def elim!: stored_mono)
qed (use ty in \<open>auto simp: prim_typed_def\<close>)

section \<open>Typed lists\<close>

lemma mapE_nth:
  "length ys = length xs \<Longrightarrow> (\<And>i. i < length xs \<Longrightarrow> f (xs ! i) = Inr (ys ! i)) \<Longrightarrow> mapE f xs = Inr ys"
proof (induction xs arbitrary: ys)
  case (Cons x xs)
  then obtain y zs where ys: "ys = y # zs" by (cases ys) auto
  have "mapE f xs = Inr zs" using Cons.prems(1) Cons.prems(2) [of "Suc _"] ys by (intro Cons.IH) auto
  then show ?case using Cons.prems(2) [of 0] ys by simp
qed simp

lemma mapE_nth_Inr: "mapE f xs = Inr ys \<Longrightarrow> i < length xs \<Longrightarrow> f (xs ! i) = Inr (ys ! i)"
  by (induction xs arbitrary: ys i) (auto simp: nth_Cons split: nat.splits)

lemma drop_concat_equal:
  "(\<And>b. b \<in> set bss \<Longrightarrow> length b = k) \<Longrightarrow> i < length bss \<Longrightarrow> drop (i * k) (concat bss) = bss ! i @ concat (drop (Suc i) bss)"
proof (induction bss arbitrary: i)
  case (Cons b bss)
  then show ?case by (cases i) simp_all
qed simp

lemma length_concat_equal: "(\<And>b. b \<in> set bss \<Longrightarrow> length b = k) \<Longrightarrow> length (concat bss) = length bss * k"
  by (induction bss) simp_all

lemma codecs:
  "codec putS8 (\<lambda>b. Inr (hd b)) (unat (1 :: u32))" "codec putBool (\<lambda>b. Inr (hd b \<noteq> 0)) (unat (1 :: u32))" "codec putU16 (\<lambda>b. Inr (getU16 b)) (unat (2 :: u32))"
  "codec putU32 (\<lambda>b. Inr (getU32 b)) (unat (4 :: u32))" "codec putU64 (\<lambda>b. Inr (getU64 b)) (unat (8 :: u32))" "codec putChar (\<lambda>b. check_char (getU32 b)) (unat (4 :: u32))"
  by (auto simp: codec_def putS8_def putBool_def putU16_def putU32_def putU64_def putChar_def dest!: check_rune_char)

lemma encoded:
  assumes c: "codec enc dec k" and e: "mapE enc xs = Inr bss"
  shows "length (concat bss) = length xs * k" "mapE (\<lambda>i. dec (drop (i * k) (concat bss))) [0..<length xs] = Inr xs"
proof -
  have l: "length bss = length xs" using e by (rule mapE_length)
  have k: "length b = k" if "b \<in> set bss" for b
    using that mapE_nth_Inr [OF e] c l by (auto simp: codec_def in_set_conv_nth)
  show "length (concat bss) = length xs * k" using length_concat_equal [of bss k] k l by simp
  show "mapE (\<lambda>i. dec (drop (i * k) (concat bss))) [0..<length xs] = Inr xs"
  proof (rule mapE_nth)
    fix i assume "i < length [0..<length xs]"
    then have i: "i < length xs" by simp
    then show "dec (drop ([0..<length xs] ! i * k) (concat bss)) = Inr (xs ! i)"
      using drop_concat_equal [of bss k i] k l mapE_nth_Inr [OF e i] c by (simp add: codec_def)
  qed simp
qed

lemma scalarListSpan_has:
  assumes h: "has m p bs" and n: "length bs = unat n * unat es" and len: "length m < 2 ^ 32"
  shows "scalarListSpan m p n es = Inr bs"
proof -
  have lt: "unat n * unat es < 2 ^ 32" using h n len by (simp add: has_def)
  then have u: "unat (n * es) = unat n * unat es" by (simp add: unat_word_ariths)
  have "\<not> (es \<noteq> 0 \<and> 0xFFFFFFFF div es < n)"
  proof (cases "es = 0")
    case False
    then have "unat n \<le> 0xFFFFFFFF div unat es" using lt by (simp add: less_eq_div_iff_mult_less_eq unat_gt_0)
    then show ?thesis by (simp add: word_less_nat_alt unat_div)
  qed simp
  moreover have "\<not> (p + n * es < p \<or> mem_len m < p + n * es)" using has_in_bounds [OF h, of "n * es"] n u len by auto
  ultimately show ?thesis using slice_has [OF h len, of "n * es"] n u by (simp add: scalarListSpan_def Let_def)
qed

lemma decode_has:
  assumes h: "has m p (concat bss)" and e: "mapE enc xs = Inr bss" and c: "codec enc dec (unat es)" and n: "unat n = length xs"
    and len: "length m < 2 ^ 32"
  shows "decodeScalarList m p n es dec = Inr xs"
  using scalarListSpan_has [OF h, of n es] encoded [OF c e] n len by (simp add: decodeScalarList_def)

lemma unat_of_nat_small: "k < 2 ^ 32 \<Longrightarrow> unat (of_nat k :: u32) = k"
  by (simp add: unat_of_nat)

lemma no_product_overflow:
  assumes "\<not> (es \<noteq> 0 \<and> 0xFFFFFFFF div es < n)"
  shows "unat (n * es) = unat n * unat (es :: u32)"
proof (cases "es = 0")
  case False
  then have "unat n \<le> 0xFFFFFFFF div unat es" using assms by (simp add: word_less_nat_alt unat_div not_less)
  then have "unat n * unat es \<le> 0xFFFFFFFF" using False by (simp add: less_eq_div_iff_mult_less_eq unat_gt_0)
  then show ?thesis by (simp add: unat_word_ariths)
qed simp

lemma encodeScalarList_stored:
  assumes ok: "allocator_ok own R" and a: "encodeScalarList R xs es al enc st = Inr (p, n, st1)" and len: "length (fst st) < 2 ^ 32"
    and xs: "length xs < 2 ^ 32" and c: "codec enc dec (unat es)"
  shows "stored own {} st st1 (\<lambda>m. decodeScalarList m p n es dec = Inr xs)"
proof -
  let ?n = "of_nat (length xs) :: u32"
  have n: "unat ?n = length xs" using xs by (rule unat_of_nat_small)
  have nov: "\<not> (es \<noteq> 0 \<and> 0xFFFFFFFF div es < ?n)" using a by (auto simp: encodeScalarList_def Let_def split: if_splits)
  obtain st0 bss where g: "GrowMem R 0 0 al (?n * es) st = Inr (p, st0)" "checkAllocated (fst st0) p (?n * es) = Inr ()" "n = ?n"
    "mapE enc xs = Inr bss" "st1 = (write_at (fst st0) (unat p) (concat bss), snd st0)"
    using a nov by (auto simp: encodeScalarList_def Let_def split: if_splits prod.splits)
  have "length (concat bss) = unat (?n * es)" using encoded(1) [OF c g(4)] no_product_overflow [OF nov] n by simp
  then have "stored own {} st st1 (\<lambda>m. has m p (concat bss))" using fresh_write [OF ok g(1) len g(2)] g(5) by simp
  then show ?thesis by (rule stored_mono) (use decode_has [OF _ g(4) c] n g(3) in simp_all)
qed

lemma storeScalarList_stored:
  assumes ok: "allocator_ok own R" and s: "storeScalarList R v prim st = Some (Inr (p, n, st1))" and len: "length (fst st) < 2 ^ 32"
    and l: "\<And>k. slice_len v = Some k \<Longrightarrow> k < 2 ^ 32"
  shows "stored own {} st st1 (\<lambda>m. liftScalarList m p n prim = Some (Inr v))"
proof (cases v)
  case (VBytes b)
  then have p: "prim = ''u8''" "allocStoreBytes R b st = Inr (p, n, st1)" using s by (auto simp: storeScalarList_def split: if_splits)
  note b = allocStoreBytes_stored [OF ok p(2) len]
  show ?thesis by (rule stored_mono [OF conjunct2 [OF b]]) (use scalarListSpan_has [of _ p b n 1] b p VBytes in \<open>simp_all add: liftScalarList_def\<close>)
next
  case (VInt8s xs)
  then obtain al where e: "encodeScalarList R xs 1 al putS8 st = Inr (p, n, st1)" using s by (auto simp: storeScalarList_def split: if_splits)
  show ?thesis by (rule stored_mono [OF encodeScalarList_stored [OF ok e len _ codecs(1)]])
      (use s l VInt8s in \<open>auto simp: storeScalarList_def liftScalarList_def slice_len_def split: if_splits\<close>)
next
  case (VBools xs)
  then obtain al where e: "encodeScalarList R xs 1 al putBool st = Inr (p, n, st1)" using s by (auto simp: storeScalarList_def split: if_splits)
  show ?thesis by (rule stored_mono [OF encodeScalarList_stored [OF ok e len _ codecs(2)]])
      (use s l VBools in \<open>auto simp: storeScalarList_def liftScalarList_def slice_len_def split: if_splits\<close>)
next
  case (VUint16s xs)
  then obtain al where e: "encodeScalarList R xs 2 al putU16 st = Inr (p, n, st1)" using s by (auto simp: storeScalarList_def split: if_splits)
  show ?thesis by (rule stored_mono [OF encodeScalarList_stored [OF ok e len _ codecs(3)]])
      (use s l VUint16s in \<open>auto simp: storeScalarList_def liftScalarList_def slice_len_def split: if_splits\<close>)
next
  case (VInt16s xs)
  then obtain al where e: "encodeScalarList R xs 2 al putU16 st = Inr (p, n, st1)" using s by (auto simp: storeScalarList_def split: if_splits)
  show ?thesis by (rule stored_mono [OF encodeScalarList_stored [OF ok e len _ codecs(3)]])
      (use s l VInt16s in \<open>auto simp: storeScalarList_def liftScalarList_def slice_len_def split: if_splits\<close>)
next
  case (VUint32s xs)
  then obtain al where e: "encodeScalarList R xs 4 al putU32 st = Inr (p, n, st1)" using s by (auto simp: storeScalarList_def split: if_splits)
  show ?thesis by (rule stored_mono [OF encodeScalarList_stored [OF ok e len _ codecs(4)]])
      (use s l VUint32s in \<open>auto simp: storeScalarList_def liftScalarList_def slice_len_def split: if_splits\<close>)
next
  case (VUint64s xs)
  then obtain al where e: "encodeScalarList R xs 8 al putU64 st = Inr (p, n, st1)" using s by (auto simp: storeScalarList_def split: if_splits)
  show ?thesis by (rule stored_mono [OF encodeScalarList_stored [OF ok e len _ codecs(5)]])
      (use s l VUint64s in \<open>auto simp: storeScalarList_def liftScalarList_def slice_len_def split: if_splits\<close>)
next
  case (VInt64s xs)
  then obtain al where e: "encodeScalarList R xs 8 al putU64 st = Inr (p, n, st1)" using s by (auto simp: storeScalarList_def split: if_splits)
  show ?thesis by (rule stored_mono [OF encodeScalarList_stored [OF ok e len _ codecs(5)]])
      (use s l VInt64s in \<open>auto simp: storeScalarList_def liftScalarList_def slice_len_def split: if_splits\<close>)
next
  case (VFloat32s xs)
  then obtain al where e: "encodeScalarList R xs 4 al putU32 st = Inr (p, n, st1)" using s by (auto simp: storeScalarList_def split: if_splits)
  show ?thesis by (rule stored_mono [OF encodeScalarList_stored [OF ok e len _ codecs(4)]])
      (use s l VFloat32s in \<open>auto simp: storeScalarList_def liftScalarList_def slice_len_def split: if_splits\<close>)
next
  case (VFloat64s xs)
  then obtain al where e: "encodeScalarList R xs 8 al putU64 st = Inr (p, n, st1)" using s by (auto simp: storeScalarList_def split: if_splits)
  show ?thesis by (rule stored_mono [OF encodeScalarList_stored [OF ok e len _ codecs(5)]])
      (use s l VFloat64s in \<open>auto simp: storeScalarList_def liftScalarList_def slice_len_def split: if_splits\<close>)
next
  case (VInt32s xs)
  then consider (s32) "prim = ''s32''" | (char) "prim = ''char''" using s by (auto simp: storeScalarList_def split: if_splits)
  then show ?thesis
  proof cases
    case s32
    then have e: "encodeScalarList R xs 4 4 putU32 st = Inr (p, n, st1)" using s VInt32s by (simp add: storeScalarList_def)
    show ?thesis by (rule stored_mono [OF encodeScalarList_stored [OF ok e len _ codecs(4)]])
        (use s32 l VInt32s in \<open>auto simp: liftScalarList_def slice_len_def\<close>)
  next
    case char
    then have e: "encodeScalarList R xs 4 4 putChar st = Inr (p, n, st1)" using s VInt32s by (simp add: storeScalarList_def)
    show ?thesis by (rule stored_mono [OF encodeScalarList_stored [OF ok e len _ codecs(6)]])
        (use char l VInt32s in \<open>auto simp: liftScalarList_def slice_len_def\<close>)
  qed
qed (use s in \<open>auto simp: storeScalarList_def split: if_splits\<close>)

lemma stored_grown: "stored own A st st' Q \<Longrightarrow> stored own A st st' (\<lambda>m. Q m \<and> length (fst st) \<le> length m)"
  by (auto simp: stored_def agree_on_def)

lemma storedD:
  assumes "stored own A st st' Q"
  shows "own (snd st) \<subseteq> own (snd st')" "length (fst st') < 2 ^ 32" "length (fst st) \<le> length (fst st')"
  using assms by (auto simp: stored_def agree_on_def)

section \<open>Typed slices in a fixed-length list\<close>

lemma codec_u8: "codec putS8 (\<lambda>b. Inr (hd b)) (unat (1 :: u32))"
  by (rule codecs(1))

lemma putFixed_stored:
  assumes p: "putFixed (fst st) p xs n es enc = Inr m'" and c: "codec enc dec (unat es)" and len: "length (fst st) < 2 ^ 32"
  shows "stored own (span p (unat n * unat es)) st (m', snd st) (\<lambda>m. decodeScalarList m p n es dec = Inr xs)"
proof -
  obtain bss where b: "length xs = unat n" "unat p + unat n * unat es \<le> length (fst st)" "mapE enc xs = Inr bss"
    "m' = write_at (fst st) (unat p) (concat bss)"
    using p by (auto simp: putFixed_def fixedSpan_def split: if_splits)
  have l: "length (concat bss) = unat n * unat es" using encoded(1) [OF c b(3)] b(1) by simp
  have "stored own (span p (length (concat bss))) st (m', snd st) (\<lambda>m. has m p (concat bss))"
    unfolding b(4) by (rule stored_write) (use l b(2) len in auto)
  then show ?thesis unfolding l by (rule stored_mono) (use decode_has [OF _ b(3) c] b(1) in simp_all)
qed

lemma decode_u8_span:
  assumes "decodeScalarList m p n 1 (\<lambda>b. Inr (hd b)) = Inr xs"
  shows "scalarListSpan m p n 1 = Inr xs"
proof -
  obtain s where s: "scalarListSpan m p n 1 = Inr s" "mapE (\<lambda>i. Inr (hd (drop i s))) [0..<unat n] = (Inr xs :: mem_error + u8 list)"
    using assms by (auto simp: decodeScalarList_def)
  have "unat (p + n) = unat p + unat n"
    using s(1) no_olen_add_nat [of p n] by (auto simp: scalarListSpan_def Let_def word_le_nat_alt word_less_nat_alt unat_word_ariths not_less split: if_splits)
  then have l: "length s = unat n" using s(1) by (auto simp: scalarListSpan_def Let_def slice_def word_less_nat_alt split: if_splits)
  have "s = xs"
  proof (rule nth_equalityI)
    show "length s = length xs" using mapE_length [OF s(2)] l by simp
    fix i assume "i < length s"
    then show "s ! i = xs ! i" using mapE_nth_Inr [OF s(2), of i] l by (simp add: hd_drop_conv_nth)
  qed
  then show ?thesis using s(1) by simp
qed

lemma storeFixedScalars_stored:
  assumes s: "storeFixedScalars (fst st) p v prim n (scalar_width prim) = Some (Inr m')" and len: "length (fst st) < 2 ^ 32"
  shows "stored own (span p (unat n * unat (scalar_width prim))) st (m', snd st) (\<lambda>m. liftScalarList m p n prim = Some (Inr v))"
proof -
  note pf = putFixed_stored [OF _ _ len, where p = p and n = n and own = own]
  show ?thesis
  proof (cases v)
    case (VBytes b)
    then have e: "putFixed (fst st) p b n 1 putS8 = Inr m'" "prim = ''u8''" using s by (auto simp: storeFixedScalars_def scalar_width_def split: if_splits)
    show ?thesis using stored_mono [OF pf [OF e(1) codecs(1)] subset_refl, of "\<lambda>m. liftScalarList m p n prim = Some (Inr v)"] e(2) VBytes
      by (auto simp: liftScalarList_def scalar_width_def decode_u8_span)
  next
    case (VInt32s xs)
    then consider (s32) "prim = ''s32''" | (char) "prim = ''char''" using s by (auto simp: storeFixedScalars_def split: if_splits)
    then show ?thesis
    proof cases
      case s32
      then have e: "putFixed (fst st) p xs n 4 putU32 = Inr m'" using s VInt32s by (simp add: storeFixedScalars_def scalar_width_def)
      show ?thesis using stored_mono [OF pf [OF e codecs(4)] subset_refl, of "\<lambda>m. liftScalarList m p n prim = Some (Inr v)"] s32 VInt32s
        by (simp add: liftScalarList_def scalar_width_def)
    next
      case char
      then have e: "putFixed (fst st) p xs n 4 putChar = Inr m'" using s VInt32s by (simp add: storeFixedScalars_def scalar_width_def)
      show ?thesis using stored_mono [OF pf [OF e codecs(6)] subset_refl, of "\<lambda>m. liftScalarList m p n prim = Some (Inr v)"] char VInt32s
        by (simp add: liftScalarList_def scalar_width_def)
    qed
  next
    case (VInt8s xs)
    then have e: "putFixed (fst st) p xs n 1 putS8 = Inr m'" "prim = ''s8''" using s by (auto simp: storeFixedScalars_def scalar_width_def split: if_splits)
    show ?thesis using stored_mono [OF pf [OF e(1) codecs(1)] subset_refl, of "\<lambda>m. liftScalarList m p n prim = Some (Inr v)"] e(2) VInt8s
      by (simp add: liftScalarList_def scalar_width_def)
  next
    case (VBools xs)
    then have e: "putFixed (fst st) p xs n 1 putBool = Inr m'" "prim = ''bool''" using s by (auto simp: storeFixedScalars_def scalar_width_def split: if_splits)
    show ?thesis using stored_mono [OF pf [OF e(1) codecs(2)] subset_refl, of "\<lambda>m. liftScalarList m p n prim = Some (Inr v)"] e(2) VBools
      by (simp add: liftScalarList_def scalar_width_def)
  next
    case (VUint16s xs)
    then have e: "putFixed (fst st) p xs n 2 putU16 = Inr m'" "prim = ''u16''" using s by (auto simp: storeFixedScalars_def scalar_width_def split: if_splits)
    show ?thesis using stored_mono [OF pf [OF e(1) codecs(3)] subset_refl, of "\<lambda>m. liftScalarList m p n prim = Some (Inr v)"] e(2) VUint16s
      by (simp add: liftScalarList_def scalar_width_def)
  next
    case (VInt16s xs)
    then have e: "putFixed (fst st) p xs n 2 putU16 = Inr m'" "prim = ''s16''" using s by (auto simp: storeFixedScalars_def scalar_width_def split: if_splits)
    show ?thesis using stored_mono [OF pf [OF e(1) codecs(3)] subset_refl, of "\<lambda>m. liftScalarList m p n prim = Some (Inr v)"] e(2) VInt16s
      by (simp add: liftScalarList_def scalar_width_def)
  next
    case (VUint32s xs)
    then have e: "putFixed (fst st) p xs n 4 putU32 = Inr m'" "prim = ''u32''" using s by (auto simp: storeFixedScalars_def scalar_width_def split: if_splits)
    show ?thesis using stored_mono [OF pf [OF e(1) codecs(4)] subset_refl, of "\<lambda>m. liftScalarList m p n prim = Some (Inr v)"] e(2) VUint32s
      by (simp add: liftScalarList_def scalar_width_def)
  next
    case (VUint64s xs)
    then have e: "putFixed (fst st) p xs n 8 putU64 = Inr m'" "prim = ''u64''" using s by (auto simp: storeFixedScalars_def scalar_width_def split: if_splits)
    show ?thesis using stored_mono [OF pf [OF e(1) codecs(5)] subset_refl, of "\<lambda>m. liftScalarList m p n prim = Some (Inr v)"] e(2) VUint64s
      by (simp add: liftScalarList_def scalar_width_def)
  next
    case (VInt64s xs)
    then have e: "putFixed (fst st) p xs n 8 putU64 = Inr m'" "prim = ''s64''" using s by (auto simp: storeFixedScalars_def scalar_width_def split: if_splits)
    show ?thesis using stored_mono [OF pf [OF e(1) codecs(5)] subset_refl, of "\<lambda>m. liftScalarList m p n prim = Some (Inr v)"] e(2) VInt64s
      by (simp add: liftScalarList_def scalar_width_def)
  next
    case (VFloat32s xs)
    then have e: "putFixed (fst st) p xs n 4 putU32 = Inr m'" "prim = ''f32''" using s by (auto simp: storeFixedScalars_def scalar_width_def split: if_splits)
    show ?thesis using stored_mono [OF pf [OF e(1) codecs(4)] subset_refl, of "\<lambda>m. liftScalarList m p n prim = Some (Inr v)"] e(2) VFloat32s
      by (simp add: liftScalarList_def scalar_width_def)
  next
    case (VFloat64s xs)
    then have e: "putFixed (fst st) p xs n 8 putU64 = Inr m'" "prim = ''f64''" using s by (auto simp: storeFixedScalars_def scalar_width_def split: if_splits)
    show ?thesis using stored_mono [OF pf [OF e(1) codecs(5)] subset_refl, of "\<lambda>m. liftScalarList m p n prim = Some (Inr v)"] e(2) VFloat64s
      by (simp add: liftScalarList_def scalar_width_def)
  qed (use s in \<open>auto simp: storeFixedScalars_def split: if_splits\<close>)
qed

section \<open>Placement\<close>

lemma align_to_shift:
  assumes "a dvd P" "0 < a"
  shows "align_to (P + w) a = P + align_to w a"
proof -
  obtain k where k: "P = k * a" using assms(1) by (auto simp: dvd_def mult.commute)
  have "(k * a + w + a - 1) div a = k + (w + a - 1) div a"
    using assms(2) div_mult_self3 [of a k "w + a - 1"] by (simp add: add.assoc)
  then show ?thesis by (simp add: align_to_def k algebra_simps)
qed

lemma Align_at:
  assumes a: "pow2_align a" and P: "unat a dvd P" and off: "unat off = P + w" and lt: "P + align_to w (unat a) < 2 ^ 32"
  shows "unat (Align off a) = P + align_to w (unat a)"
proof -
  have pos: "0 < a" "0 < unat a" using a by (auto simp: word_gt_0)
  have d: "unat a dvd P + align_to w (unat a)" using P align_to_props(1) [OF pos(2)] by simp
  have "unat a dvd 2 ^ 32 - (P + align_to w (unat a))" using pow2_dvd_wrap [OF a] d by (rule dvd_diff_nat)
  then have "unat a \<le> 2 ^ 32 - (P + align_to w (unat a))" using lt by (intro dvd_imp_le) auto
  moreover have "w \<le> align_to w (unat a)" using pos(2) by (rule align_to_props)
  ultimately have "unat off + unat a \<le> 2 ^ 32" using off lt by linarith
  then show ?thesis using unat_Align [OF pos(1)] off align_to_shift [OF P pos(2)] by simp
qed

lemma pow2_dvd_mono: "a \<in> {1, 2, 4, 8} \<Longrightarrow> b \<in> {1, 2, 4, 8} \<Longrightarrow> a \<le> b \<Longrightarrow> a dvd (b :: nat)"
  by auto

end
