(* ===== verification/Abi_Roundtrip.thy ===== *)
theory Abi_Roundtrip
  imports Abi_Ownership
begin

text \<open>
  Values of every type are stored so that they can be loaded again. \<open>child_ok\<close> is the contract between a parent
  and its children: the loops over list elements and record fields and the payloads of variants
  are proved against it, and \<open>storeValue_stored\<close> closes the induction over the nesting. Offsets are related to the
  specified layout of the layout theory, the place of a payload to both ways the code computes it.
  The second half shows that what a load returns is well typed.
\<close>

unbundle bit_operations_syntax

section \<open>Specification vocabulary\<close>

text \<open>
  What the store of a child gives its parent: at an aligned place that the host owns, the value of
  a type that the layout places is stored within its size, and is there for every later load.
\<close>

definition child_ok ::
  "('s \<Rightarrow> nat set) \<Rightarrow> (type_desc \<Rightarrow> (nat \<times> nat) option) \<Rightarrow> (type_desc \<Rightarrow> val \<Rightarrow> bool) \<Rightarrow>
   (bytes \<Rightarrow> u32 \<Rightarrow> type_desc \<Rightarrow> mem_error + val) \<Rightarrow> 's child \<Rightarrow> bool" where
  "child_ok own f wt ld sto \<longleftrightarrow> (\<forall>t v p al st st' S A. f t = Some (S, A) \<longrightarrow> fits S \<longrightarrow> wt t v \<longrightarrow> (al = 0 \<or> unat al = A) \<longrightarrow>
     A dvd unat p \<longrightarrow> unat p + S \<le> length (fst st) \<longrightarrow> length (fst st) < 2 ^ 32 \<longrightarrow> span p S \<subseteq> own (snd st) \<longrightarrow>
     sto p t v al st = Inr st' \<longrightarrow> stored own (span p S) st st' (\<lambda>m. ld m p t = Inr v))"

text \<open>What the layout walks give.\<close>

definition walks ::
  "(type_desc \<Rightarrow> (nat \<times> nat) option) \<Rightarrow> (type_desc \<Rightarrow> abi_error + u32) \<Rightarrow> (type_desc \<Rightarrow> abi_error + u32) \<Rightarrow> bool" where
  "walks f al sz \<longleftrightarrow> (\<forall>t S A. f t = Some (S, A) \<longrightarrow> laid_out al sz t (S, A) \<and> (fits S \<longrightarrow> A dvd S))"

text \<open>A reference to a type, and a value of that type.\<close>

definition typed_ref :: "resolver \<Rightarrow> (type_desc \<Rightarrow> val \<Rightarrow> bool) \<Rightarrow> type_ref \<Rightarrow> val \<Rightarrow> bool" where
  "typed_ref r wt tr v = (case resolveType r (Some tr) of Inl _ \<Rightarrow> False | Inr u \<Rightarrow> wt u v)"

definition scalar_prims :: "string list" where
  "scalar_prims = [''u8'', ''s8'', ''bool'', ''u16'', ''s16'', ''u32'', ''s32'', ''u64'', ''s64'', ''f32'', ''f64'', ''char'']"

definition is_scalar :: "type_desc \<Rightarrow> bool" where
  "is_scalar t = (case t of PrimitiveDesc p \<Rightarrow> p \<in> set scalar_prims | _ \<Rightarrow> False)"

text \<open>A list that \<^verbatim>\<open>Load\<close> produces for an element type: a typed slice for the fixed-width primitives.\<close>

definition typed_list :: "(type_desc \<Rightarrow> (nat \<times> nat) option) \<Rightarrow> (type_desc \<Rightarrow> val \<Rightarrow> bool) \<Rightarrow> type_desc \<Rightarrow> val \<Rightarrow> bool" where
  "typed_list f wt t v =
     (if is_scalar t then (case slice_len v of Some k \<Rightarrow> k < 2 ^ 32 | None \<Rightarrow> False)
      else (case v of VList vs \<Rightarrow> length vs < 2 ^ 32 \<and> list_all (wt t) vs | _ \<Rightarrow> False) \<and>
        (case f t of Some x \<Rightarrow> fits (fst x) | None \<Rightarrow> False))"

definition typed_node ::
  "resolver \<Rightarrow> (type_desc \<Rightarrow> (nat \<times> nat) option) \<Rightarrow> (type_desc \<Rightarrow> val \<Rightarrow> bool) \<Rightarrow> type_desc \<Rightarrow> val \<Rightarrow> bool" where
  "typed_node r f wt t v =
     (case t of
        PrimitiveDesc p \<Rightarrow> prim_typed p v
      | ListDesc e \<Rightarrow> typed_ref r (typed_list f wt) e v
      | MapDesc key val \<Rightarrow> typed_list f wt (mapElemType key val) v
      | FixedListDesc e n \<Rightarrow> typed_ref r (typed_list f wt) e v
      | RecordDesc fs \<Rightarrow> (case v of VList vs \<Rightarrow> list_all2 (typed_ref r wt) (map snd fs) vs | _ \<Rightarrow> False)
      | TupleDesc es \<Rightarrow> (case v of VList vs \<Rightarrow> list_all2 (typed_ref r wt) es vs | _ \<Rightarrow> False)
      | VariantDesc cs \<Rightarrow> (case v of
            VVariant i x \<Rightarrow> unat i < length cs \<and> (case snd (cs ! unat i) of None \<Rightarrow> x = VNil | Some tr \<Rightarrow> typed_ref r wt tr x)
          | _ \<Rightarrow> False)
      | FlagsDesc ns \<Rightarrow> (case v of VU32 u \<Rightarrow> u AND flagsBitMask (length ns) = u | _ \<Rightarrow> False)
      | EnumDesc cs \<Rightarrow> (case v of VU32 i \<Rightarrow> unat i < length cs | _ \<Rightarrow> False)
      | OptionDesc e \<Rightarrow> v = VNil \<or> typed_ref r wt e v
      | ResultDesc ok er \<Rightarrow> (case v of
            VResult b x \<Rightarrow> (case (if b then er else ok) of None \<Rightarrow> x = VNil | Some tr \<Rightarrow> typed_ref r wt tr x)
          | _ \<Rightarrow> False)
      | OwnDesc _ \<Rightarrow> (case v of VU32 h \<Rightarrow> True | _ \<Rightarrow> False) | BorrowDesc _ \<Rightarrow> (case v of VU32 h \<Rightarrow> True | _ \<Rightarrow> False)
      | StreamDesc _ \<Rightarrow> (case v of VU32 h \<Rightarrow> True | _ \<Rightarrow> False) | FutureDesc _ \<Rightarrow> (case v of VU32 h \<Rightarrow> True | _ \<Rightarrow> False)
      | _ \<Rightarrow> False)"

fun well_typed :: "nat \<Rightarrow> resolver \<Rightarrow> type_desc \<Rightarrow> val \<Rightarrow> bool" where
  "well_typed 0 r t v = False"
| "well_typed (Suc n) r t v = typed_node r (spec_layout n r) (well_typed n r) t v"

definition value_children :: "resolver \<Rightarrow> type_desc \<Rightarrow> type_desc list" where
  "value_children r t =
     (case t of
        ListDesc e \<Rightarrow> (case resolveType r (Some e) of Inl _ \<Rightarrow> [] | Inr u \<Rightarrow> [u])
      | MapDesc key val \<Rightarrow> [mapElemType key val]
      | _ \<Rightarrow> layout_children r t)"

text \<open>Every type below \<open>t\<close>, the elements of lists included, has a canonical layout of less than \<open>2 ^ 28\<close> bytes.\<close>

fun sized :: "nat \<Rightarrow> resolver \<Rightarrow> type_desc \<Rightarrow> bool" where
  "sized 0 r t = False"
| "sized (Suc n) r t = list_all (\<lambda>u. sized n r u \<and> (case spec_layout n r u of Some x \<Rightarrow> fits (fst x) | None \<Rightarrow> False)) (value_children r t)"

text \<open>A bump allocator over the blocks it has handed out, as a guest that satisfies \<^verbatim>\<open>cabi_realloc\<close>'s contract.\<close>

definition bump_next :: "(nat \<times> nat) list \<Rightarrow> nat" where
  "bump_next s = foldl max 0 (map (\<lambda>(a, k). a + k) s)"

definition bump :: "(nat \<times> nat) list call" where
  "bump s m orig_ptr orig_size al k =
     (let p = align_to (bump_next s) (max 1 (unat al)); e = p + unat k in
      if 2 ^ 20 < e then (Inl ''out of memory'', m, s)
      else (Inr (of_nat p), m @ replicate (e - length m) 0, (p, unat k) # s))"

definition bump_own :: "(nat \<times> nat) list \<Rightarrow> nat set" where
  "bump_own s = (\<Union>(a, k) \<in> set s. {a..<a + k})"

definition bump_realloc :: "(nat \<times> nat) list Realloc" where
  "bump_realloc = \<lparr>Call = Some bump\<rparr>"

definition sample_value :: val where
  "sample_value = VList [VString [104, 105], VU32 7, VResult True (VU64 5)]"

definition sample_store :: "(nat \<times> nat) list store" where
  "sample_store = (replicate 40 0, [(0, 40)])"

definition nested_resolver :: resolver where
  "nested_resolver = Some (\<lambda>i. if i = 0 then Some (OptionDesc (prim_ref ''u8'')) else None)"

definition nested_cases :: "(string \<times> type_ref option) list" where
  "nested_cases = [(''maybe'', Some (index_ref 0))]"

definition sample_result :: "(nat \<times> nat) list store" where
  "sample_result = ([40, 0, 0, 0, 2, 0, 0, 0, 7, 0, 0, 0, 0, 0, 0, 0, 1, 0, 0, 0, 0, 0, 0, 0, 1, 0, 0, 0, 0, 0, 0, 0,
     5, 0, 0, 0, 0, 0, 0, 0, 104, 105], [(40, 2), (0, 40)])"

section \<open>Children\<close>

lemma child_okD:
  assumes "child_ok own f wt ld sto" "f t = Some (S, A)" "fits S" "wt t v" "al = 0 \<or> unat al = A" "A dvd unat p"
    "unat p + S \<le> length (fst st)" "length (fst st) < 2 ^ 32" "span p S \<subseteq> own (snd st)" "sto p t v al st = Inr st'"
  shows "stored own (span p S) st st' (\<lambda>m. ld m p t = Inr v)"
  using assms unfolding child_ok_def by blast

lemma walksD:
  assumes "walks f al sz" "f t = Some (S, A)"
  obtains a where "al t = Inr a" "unat a = A" "A \<in> {1, 2, 4, 8}" "pow2_align a" "fits S \<Longrightarrow> \<exists>s. sz t = Inr s \<and> unat s = S" "fits S \<Longrightarrow> A dvd S"
proof -
  obtain a where a: "al t = Inr a" "unat a = A" "A \<in> {1, 2, 4, 8}" "fits S \<Longrightarrow> \<exists>s. sz t = Inr s \<and> unat s = S" "fits S \<Longrightarrow> A dvd S"
    using assms unfolding walks_def laid_out_def by fastforce
  have "a = word_of_nat A" using a(2) by auto
  then have "pow2_align a" using a(3) by auto
  then show thesis using a that by blast
qed

lemma walks_layout: "walks (spec_layout n r) (Alignment n r) (Size n r)"
proof -
  have "laid_out (Alignment n r) (Size n r) t (S, A) \<and> (fits S \<longrightarrow> A dvd S)" if f: "spec_layout n r t = Some (S, A)" for t S A
  proof -
    obtain a where a: "Alignment n r t = Inr a" "unat a = A" using Alignment_spec [OF f] by auto
    have "A dvd S" if "fits S" using Size_spec [OF f that] Size_dvd [of n r t] a by auto
    then show ?thesis using a spec_layout_align [OF f] Size_spec [OF f] by (auto simp: laid_out_def)
  qed
  then show ?thesis by (simp add: walks_def)
qed

section \<open>The loops\<close>

lemma elem_place:
  fixes p es :: u32
  assumes "unat p + Suc i * S < 2 ^ 32" "unat es = S" "S = 0 \<or> i < 2 ^ 32"
  shows "unat (p + of_nat i * es) = unat p + i * S"
proof (cases "S = 0")
  case True
  then have "es = 0" using assms(2) by (simp add: unat_eq_0)
  then show ?thesis by (simp add: True)
next
  case False
  then have i: "unat (of_nat i :: u32) = i" using assms(3) by (simp add: unat_of_nat)
  have lt: "i * S < 2 ^ 32" "unat p + i * S < 2 ^ 32" using assms(1) by auto
  then have "unat (of_nat i * es) = i * S" using i assms(2) by (simp add: unat_word_ariths)
  then show ?thesis using lt by (simp add: unat_add_fits)
qed

lemma store_elems_stored:
  assumes c: "child_ok own f wt ld sto" and f: "f t = Some (S, A)" "fits S" "A dvd S" and es: "unat es = S" "unat ea = A"
    and p: "A dvd unat p" "unat p + (i + length vs) * S \<le> length (fst st)" "length (fst st) < 2 ^ 32" "i + length vs \<le> 2 ^ 32"
    and wt: "\<forall>v \<in> set vs. wt t v" and own: "{unat p + i * S..<unat p + (i + length vs) * S} \<subseteq> own (snd st)"
    and s: "store_elems sto p es ea t i vs st = Inr st'"
  shows "stored own {unat p + i * S..<unat p + (i + length vs) * S} st st'
    (\<lambda>m. load_elems (\<lambda>q. ld m q t) p es i (length vs) = Inr vs)"
  using p(2-4) wt own s
proof (induction vs arbitrary: i st)
  case Nil
  then show ?case using stored_refl [of st own] by simp
next
  case (Cons v vs)
  let ?q = "p + of_nat i * es"
  let ?A = "{unat p + i * S..<unat p + Suc i * S}" and ?B = "{unat p + Suc i * S..<unat p + (Suc i + length vs) * S}"
  have le: "Suc i * S \<le> (i + length (v # vs)) * S" by (rule mult_le_mono1) simp
  have le1: "unat p + Suc i * S \<le> length (fst st)" using Cons.prems(1) le by linarith
  have q: "unat ?q = unat p + i * S"
    by (rule elem_place) (use le1 Cons.prems es in auto)
  obtain st1 where s1: "sto ?q t v ea st = Inr st1" "store_elems sto p es ea t (Suc i) vs st1 = Inr st'" using Cons.prems(6) by auto
  have span: "span ?q S = ?A" by (auto simp: span_def q)
  have sub: "?A \<union> ?B = {unat p + i * S..<unat p + (i + length (v # vs)) * S}" using ivl_disj_un_two(3) [of "unat p + i * S" "unat p + Suc i * S" "unat p + (i + length (v # vs)) * S"] le by simp
  have "stored own (span ?q S) st st1 (\<lambda>m. ld m ?q t = Inr v)"
    by (rule child_okD [OF c f(1,2) _ _ _ _ Cons.prems(2) _ s1(1)]) (use Cons.prems q p(1) f(3) es span sub le1 in auto)
  then have 1: "stored own ?A st st1 (\<lambda>m. ld m ?q t = Inr v)" unfolding span .
  note d = storedD [OF 1]
  have 2: "stored own ?B st1 st' (\<lambda>m. load_elems (\<lambda>q. ld m q t) p es (Suc i) (length vs) = Inr vs)"
    by (rule Cons.IH) (use Cons.prems sub d s1 in \<open>auto simp: algebra_simps\<close>)
  have "stored own (?A \<union> ?B) st st' (\<lambda>m. ld m ?q t = Inr v \<and> load_elems (\<lambda>q. ld m q t) p es (Suc i) (length vs) = Inr vs)"
    by (rule stored_seq [OF 1 2]) (use Cons.prems(5) sub in auto)
  then show ?case unfolding sub by (rule stored_mono) auto
qed

lemma store_fields_stored:
  assumes c: "child_ok own f wt ld sto" and w: "walks f al sz"
    and ls: "spec_refs r f trs = Some ls" and P: "\<forall>x \<in> set ls. snd x dvd P" and fit: "fits (place o0 ls)"
    and off: "unat offset = P + o0" "P + place o0 ls \<le> length (fst st)" "length (fst st) < 2 ^ 32"
    and wt: "list_all2 (typed_ref r wt) trs vs" and own: "{P + o0..<P + place o0 ls} \<subseteq> own (snd st)"
    and s: "store_fields r al sz sto offset trs vs st = Inr st'"
  shows "stored own {P + o0..<P + place o0 ls} st st' (\<lambda>m. load_fields r al sz (ld m) offset trs = Inr vs)"
  using ls P fit off wt own s
proof (induction trs arbitrary: ls o0 offset vs st)
  case Nil
  then show ?case using stored_refl [of st own] by simp
next
  case (Cons tr trs)
  obtain u S A ls' where u: "resolveType r (Some tr) = Inr u" "f u = Some (S, A)" "ls = (S, A) # ls'" "spec_refs r f trs = Some ls'"
    using Cons.prems(1) by (auto simp: bind_eq_Some_conv split: sum.splits)
  obtain v vs' where v: "vs = v # vs'" "wt u v" "list_all2 (typed_ref r wt) trs vs'"
    using Cons.prems(7) u(1) by (auto simp: list_all2_Cons1 typed_ref_def [of r wt tr])
  obtain a where a: "al u = Inr a" "unat a = A" "pow2_align a" "A \<in> {1, 2, 4, 8}" using walksD [OF w u(2)] by metis
  have Apos: "0 < A" using a(4) by auto
  let ?o = "align_to o0 A" and ?e = "place o0 ls"
  have pos: "\<forall>x \<in> set ls'. 0 < snd x"
    using spec_refs_all [OF u(4)] w by (induction rule: list_all2_induct) (auto simp: walks_def laid_out_def, fastforce)
  have o1: "o0 \<le> ?o" using Apos by (rule align_to_ge)
  have o2: "?o + S \<le> ?e" using place_ge [OF pos, of "?o + S"] u(3) by simp
  have "fits S" using Cons.prems(3) o2 by (simp add: fits_def)
  then obtain s where sz: "sz u = Inr s" "unat s = S" using walksD [OF w u(2)] by metis
  have q: "unat (Align offset a) = P + ?o"
    using Align_at [OF a(3), of P offset o0] a(2) Cons.prems(2,4,5,6) u(3) o2 by simp
  have qs: "unat (Align offset a + s) = P + (?o + S)"
    using q sz o2 Cons.prems(5,6) by (subst unat_add_fits) auto
  obtain st1 where s1: "sto (Align offset a) u v a st = Inr st1" "store_fields r al sz sto (Align offset a + s) trs vs' st1 = Inr st'"
    using Cons.prems(9) v(1) u(1) a(1) sz(1) by (auto simp: abiE_def Let_def)
  have span: "span (Align offset a) S = {P + ?o..<P + (?o + S)}" by (auto simp: span_def q)
  have "stored own (span (Align offset a) S) st st1 (\<lambda>m. ld m (Align offset a) u = Inr v)"
    by (rule child_okD [OF c u(2) \<open>fits S\<close> v(2) _ _ _ Cons.prems(6) _ s1(1)])
      (use Cons.prems(2,5,8) q a(2) u(3) o1 o2 span Apos align_to_props(1) [of A o0] in auto)
  then have 1: "stored own {P + ?o..<P + (?o + S)} st st1 (\<lambda>m. ld m (Align offset a) u = Inr v)" unfolding span .
  note d = storedD [OF 1]
  have "{P + (?o + S)..<P + place (?o + S) ls'} \<subseteq> {P + o0..<P + place o0 ls}" using o1 u(3) by auto
  then have sub: "{P + (?o + S)..<P + place (?o + S) ls'} \<subseteq> own (snd st1)" using Cons.prems(8) d(1) by blast
  have 2: "stored own {P + (?o + S)..<P + place (?o + S) ls'} st1 st' (\<lambda>m. load_fields r al sz (ld m) (Align offset a + s) trs = Inr vs')"
    by (rule Cons.IH) (use u(3,4) Cons.prems(2,3,5) qs d v(3) s1(2) sub in auto)
  have "stored own ({P + ?o..<P + (?o + S)} \<union> {P + (?o + S)..<P + place (?o + S) ls'}) st st'
      (\<lambda>m. ld m (Align offset a) u = Inr v \<and> load_fields r al sz (ld m) (Align offset a + s) trs = Inr vs')"
    by (rule stored_seq [OF 1 2]) (use Cons.prems(8) u(3) o1 o2 in auto)
  then show ?case by (rule stored_mono) (use u v(1) a(1) sz(1) o1 o2 in \<open>auto simp: abiE_def Let_def\<close>)
qed

section \<open>Lists\<close>

lemma not_scalar:
  assumes "prim \<notin> set scalar_prims"
  shows "liftScalarList m p n prim = None" "storeScalarList R v prim st = None" "storeFixedScalars mem p v prim n es = None"
  using assms by (simp_all add: scalar_prims_def liftScalarList_def storeScalarList_def storeFixedScalars_def)

lemma not_scalar_type:
  assumes "\<not> is_scalar t"
  shows "Option.bind (scalarPrim t) (liftScalarList m q n) = None" "Option.bind (scalarPrim t) (\<lambda>prim. storeScalarList R v prim st) = None"
    "Option.bind (scalarPrim t) (\<lambda>prim. storeFixedScalars mem q v prim n es) = None"
proof -
  have "p \<notin> set scalar_prims" if "scalarPrim t = Some p" for p
    using assms that by (auto simp: is_scalar_def scalarPrim_def split: type_desc.splits)
  note p = not_scalar [OF this]
  show "Option.bind (scalarPrim t) (liftScalarList m q n) = None" by (cases "scalarPrim t") (simp_all add: p(1))
  show "Option.bind (scalarPrim t) (\<lambda>prim. storeScalarList R v prim st) = None" by (cases "scalarPrim t") (simp_all add: p(2))
  show "Option.bind (scalarPrim t) (\<lambda>prim. storeFixedScalars mem q v prim n es) = None" by (cases "scalarPrim t") (simp_all add: p(3))
qed

lemma typed_list_elems:
  assumes "typed_list f wt t v" "\<not> is_scalar t"
  obtains vs S A where "v = VList vs" "length vs < 2 ^ 32" "list_all (wt t) vs" "f t = Some (S, A)" "fits S"
  using assms by (cases v) (auto simp: typed_list_def split: option.splits)

lemma typed_list_slice:
  assumes "typed_list f wt t v" "is_scalar t"
  obtains p k where "t = PrimitiveDesc p" "p \<in> set scalar_prims" "scalarPrim t = Some p" "slice_len v = Some k" "k < 2 ^ 32"
  using assms by (cases t) (auto simp: typed_list_def is_scalar_def scalarPrim_def split: option.splits)

lemma allocStoreList_stored:
  assumes ok: "allocator_ok own R" and c: "child_ok own f wt ld sto" and w: "walks f al sz"
    and f: "f t = Some (S, A)" "fits S" and wt: "list_all (wt t) vs" "length vs < 2 ^ 32" and len: "length (fst st) < 2 ^ 32"
    and s: "allocStoreList R al sz sto vs t st = Inr (q, k, st1)"
  shows "stored own {} st st1 (\<lambda>m. loadListFromRange al sz (ld m) m q k t = Inr vs)"
proof -
  obtain a es where a: "al t = Inr a" "unat a = A" "pow2_align a" "sz t = Inr es" "unat es = S" "A dvd S"
    using walksD [OF w f(1)] f(2) by metis
  let ?n = "of_nat (length vs) :: u32"
  have n: "unat ?n = length vs" using wt(2) by (rule unat_of_nat_small)
  obtain st0 where g: "\<not> (es \<noteq> 0 \<and> 0xFFFFFFFF div es < ?n)" "GrowMem R 0 0 a (?n * es) st = Inr (q, st0)"
    "checkAllocated (fst st0) q (?n * es) = Inr ()" "store_elems sto q es a t 0 vs st0 = Inr st1" "k = ?n"
    using s a by (auto simp: allocStoreList_def abiE_def Let_def split: if_splits prod.splits)
  note G = GrowMem_ok [OF ok g(2) len]
  have b: "unat (?n * es) = length vs * S" using no_product_overflow [OF g(1)] n a(5) by simp
  have fit: "unat q + length vs * S \<le> length (fst st0)"
    using checked_bounds [of q "?n * es" "fst st0"] g(3) G(1) b by (auto simp: checkAllocated_def split: if_splits)
  have q: "unat a dvd unat q" by (rule G(5)) (rule a(3))
  have "stored own {unat q + 0 * S..<unat q + (0 + length vs) * S} st0 st1 (\<lambda>m. load_elems (\<lambda>x. ld m x t) q es 0 (length vs) = Inr vs)"
    by (rule store_elems_stored [OF c f a(6) a(5,2)]) (use q a wt fit G g(4) b in \<open>auto simp: list_all_iff span_def\<close>)
  then have "stored own (span q (length vs * S)) st0 st1 (\<lambda>m. load_elems (\<lambda>x. ld m x t) q es 0 (length vs) = Inr vs)"
    by (simp add: span_def)
  from stored_fresh [OF G(2) _ _ stored_grown [OF this]] G b
  have r: "stored own {} st st1 (\<lambda>m. load_elems (\<lambda>x. ld m x t) q es 0 (length vs) = Inr vs \<and> length (fst st0) \<le> length m)" by simp
  show ?thesis
  proof (rule stored_mono [OF r])
    fix m :: bytes
    assume m: "length m < 2 ^ 32" "load_elems (\<lambda>x. ld m x t) q es 0 (length vs) = Inr vs \<and> length (fst st0) \<le> length m"
    have "\<not> mem_len m < q + ?n * es" by (rule in_bounds(1)) (use fit m b in auto)
    moreover have "q = Align q a" using iffD2 [OF Align_fix [OF a(3)] q] by (rule sym)
    ultimately show "loadListFromRange al sz (ld m) m q k t = Inr vs" using m a n g(5) by (simp add: loadListFromRange_def abiE_def Let_def)
  qed simp
qed

lemma allocStoreAnyList_stored:
  assumes ok: "allocator_ok own R" and c: "child_ok own f wt ld sto" and w: "walks f al sz" and wt: "typed_list f wt t v"
    and len: "length (fst st) < 2 ^ 32" and s: "allocStoreAnyList R al sz sto v t st = Inr (q, k, st1)"
  shows "stored own {} st st1 (\<lambda>m. loadAnyListFromRange al sz (ld m) m q k t = Inr v)"
proof (cases "is_scalar t")
  case True
  obtain pr n where pr: "scalarPrim t = Some pr" "slice_len v = Some n" "n < 2 ^ 32" using typed_list_slice [OF wt True] .
  have "v \<noteq> VList vs" for vs using pr(2) by (auto simp: slice_len_def)
  then have "storeScalarList R v pr st = Some (Inr (q, k, st1))"
    using s pr(1) by (auto simp: allocStoreAnyList_def split: option.splits val.splits)
  from storeScalarList_stored [OF ok this len] pr
  have "stored own {} st st1 (\<lambda>m. liftScalarList m q k pr = Some (Inr v))" by simp
  then show ?thesis by (rule stored_mono) (auto simp: loadAnyListFromRange_def pr)
next
  case False
  obtain vs S A where v: "v = VList vs" "length vs < 2 ^ 32" "list_all (wt t) vs" "f t = Some (S, A)" "fits S"
    using typed_list_elems [OF wt False] .
  have "allocStoreList R al sz sto vs t st = Inr (q, k, st1)" using s v(1) False by (simp add: allocStoreAnyList_def not_scalar_type)
  from allocStoreList_stored [OF ok c w v(4,5,3,2) len this] show ?thesis
    by (rule stored_mono) (auto simp: loadAnyListFromRange_def not_scalar_type False v(1))
qed

lemma storeList_stored:
  assumes ok: "allocator_ok own R" and c: "child_ok own f wt ld sto" and w: "walks f al sz" and wt: "typed_list f wt t v"
    and len: "length (fst st) < 2 ^ 32" and own: "span p 8 \<subseteq> own (snd st)" and fit: "unat p + 8 \<le> length (fst st)"
    and s: "storeList R al sz sto p v t st = Inr st'"
  shows "stored own (span p 8) st st' (\<lambda>m. loadList al sz (ld m) m p t = Inr v)"
proof -
  obtain q k st1 where s1: "allocStoreAnyList R al sz sto v t st = Inr (q, k, st1)" "store_pair p (q, k, st1) = Inr st'"
    using s by (auto simp: storeList_def)
  from block_stored [OF allocStoreAnyList_stored [OF ok c w wt len s1(1)] s1(2) own fit] show ?thesis
    by (rule stored_mono) (auto simp: loadList_def as_u32_def)
qed

lemma scalar_sizes:
  "p \<in> set scalar_prims \<Longrightarrow> spec_prim p = Some (unat (scalar_width p), unat (scalar_width p))"
  by (auto simp: scalar_prims_def spec_prim_def scalar_width_def)

lemma storeFixedList_stored:
  assumes c: "child_ok own f wt ld sto" and w: "walks f al sz" and wt: "typed_list f wt t v"
    and f: "f t = Some (S, A)" "fits S" "\<And>p. t = PrimitiveDesc p \<Longrightarrow> spec_prim p = Some (S, A)"
    and p: "A dvd unat p" "unat p + unat n * S \<le> length (fst st)" "length (fst st) < 2 ^ 32"
    and own: "span p (unat n * S) \<subseteq> own (snd st)" and s: "storeFixedList al sz sto p v n t st = Inr st'"
  shows "stored own (span p (unat n * S)) st st' (\<lambda>m. loadAnyListFromRange al sz (ld m) m p n t = Inr v)"
proof -
  obtain a es where a: "al t = Inr a" "unat a = A" "pow2_align a" "sz t = Inr es" "unat es = S" "A dvd S"
    using walksD [OF w f(1)] f(2) by metis
  show ?thesis
  proof (cases "is_scalar t")
    case True
    obtain pr k where pr: "t = PrimitiveDesc pr" "pr \<in> set scalar_prims" "scalarPrim t = Some pr" "slice_len v = Some k"
      using typed_list_slice [OF wt True] .
    have S: "S = unat (scalar_width pr)" using scalar_sizes [OF pr(2)] f(3) [OF pr(1)] by simp
    then have es: "es = scalar_width pr" using a(5) by (simp add: unsigned_word_eqI)
    have "v \<noteq> VList vs" for vs using pr(4) by (auto simp: slice_len_def)
    then obtain m' where m': "storeFixedScalars (fst st) p v pr n es = Some (Inr m')" "st' = (m', snd st)"
      using s pr(3) a by (auto simp: storeFixedList_def abiE_def split: option.splits val.splits)
    have "stored own (span p (unat n * unat (scalar_width pr))) st (m', snd st) (\<lambda>m. liftScalarList m p n pr = Some (Inr v))"
      by (rule storeFixedScalars_stored) (use m' es p in auto)
    then show ?thesis unfolding S m'(2) by (rule stored_mono) (auto simp: loadAnyListFromRange_def pr(3))
  next
    case False
    obtain vs where v: "v = VList vs" "length vs < 2 ^ 32" "list_all (wt t) vs" using typed_list_elems [OF wt False] .
    have e: "length vs = unat n" "store_elems sto p es a t 0 vs st = Inr st'"
      using s a v(1) False by (auto simp: storeFixedList_def not_scalar_type abiE_def split: if_splits)
    have "stored own {unat p + 0 * S..<unat p + (0 + length vs) * S} st st' (\<lambda>m. load_elems (\<lambda>x. ld m x t) p es 0 (length vs) = Inr vs)"
      by (rule store_elems_stored [OF c f(1,2) a(6) a(5,2)]) (use p v e own in \<open>auto simp: list_all_iff span_def\<close>)
    then have r: "stored own (span p (unat n * S)) st st' (\<lambda>m. load_elems (\<lambda>x. ld m x t) p es 0 (length vs) = Inr vs)"
      using e(1) by (simp add: span_def)
    show ?thesis
    proof (rule stored_mono [OF stored_grown [OF r]])
      fix m :: bytes
      assume m: "length m < 2 ^ 32" "load_elems (\<lambda>x. ld m x t) p es 0 (length vs) = Inr vs \<and> length (fst st) \<le> length m"
      have "unat n * S < 2 ^ 32" using p by linarith
      then have "unat (n * es) = unat n * S" using a(5) by (simp add: unat_word_ariths)
      then have "\<not> mem_len m < p + n * es" by (intro in_bounds(1)) (use p m in auto)
      moreover have "p = Align p a" using iffD2 [OF Align_fix [OF a(3)]] p(1) a(2) by metis
      ultimately show "loadAnyListFromRange al sz (ld m) m p n t = Inr v"
        using m a e(1) by (simp add: loadAnyListFromRange_def not_scalar_type False loadListFromRange_def abiE_def Let_def v(1))
    qed simp
  qed
qed

section \<open>Discriminants and payloads\<close>

lemma word_cases:
  fixes w :: u32
  assumes "unat w \<in> {1, 2, 4, 8}"
  shows "w = 1 \<and> unat w = 1 \<or> w = 2 \<and> unat w = 2 \<or> w = 4 \<and> unat w = 4 \<or> w = 8 \<and> unat w = 8"
proof -
  obtain k where k: "unat w = k" "k \<in> {1, 2, 4, 8}" using assms by blast
  have "w = word_of_nat k" using k(1) by auto
  then show ?thesis using k(2) by auto
qed

lemma put_fits:
  assumes p: "put p w st (VU32 u) = Inr st'" and len: "length (fst st) < 2 ^ 32" and w: "unat w \<in> {1, 2, 4}" and u: "unat u < 2 ^ (8 * unat w)"
  shows "stored own (span p (unat w)) st st' (\<lambda>m. loadInt m p w False = Inr (VU32 u))"
proof -
  consider "w = 1" | "w = 2" | "w = 4" using word_cases [of w] w by fastforce
  then show ?thesis
  proof cases
    case 1
    then have "ucast (ucast u :: u8) = u" using u by (intro narrow_u8) (simp add: word_less_nat_alt)
    then show ?thesis using 1 put_1 [of p st u st' own] p len by (auto elim!: stored_mono)
  next
    case 2
    then have "ucast (ucast u :: 16 word) = u" using u by (intro narrow_u16) (simp add: word_less_nat_alt)
    then show ?thesis using 2 put_2 [of p st u st' own] p len by (auto elim!: stored_mono)
  next
    case 3
    then show ?thesis using put_4 [of p st u st' own] p len by (auto elim!: stored_mono)
  qed
qed

lemma disc_fits: "spec_discriminant n = Some d \<Longrightarrow> i < n \<Longrightarrow> i < 2 ^ (8 * d)"
  by (auto simp: spec_discriminant_def split: if_splits)

lemma variant_layout:
  assumes w: "walks f al sz" and v: "spec_node r f (VariantDesc cs) = Some (S, A)"
  obtains d M ls ds mx where "spec_discriminant (length cs) = Some d" "spec_refs r f (List.map_filter snd cs) = Some ls" "M = max_align ls"
    "A = max d M" "S = align_to (align_to d M + max_size ls) A" "sizePrimitive (DiscriminantType (length cs)) = Inr ds" "unat ds = d"
    "d \<in> {1, 2, 4}" "MaxCaseAlignment r al cs = Inr mx" "unat mx = M" "M \<in> {1, 2, 4, 8}"
proof -
  obtain d ls where d: "spec_discriminant (length cs) = Some d" "spec_refs r f (List.map_filter snd cs) = Some ls" "A = max d (max_align ls)"
    "S = align_to (align_to d (max_align ls) + max_size ls) A"
    using v by (auto simp: spec_node_def bind_eq_Some_conv Let_def)
  have "aligns f al" using w by (fastforce simp: aligns_def walks_def laid_out_def)
  then obtain mx where mx: "MaxCaseAlignment r al cs = Inr mx" "unat mx = max_align ls" using MaxCaseAlignment_spec [OF _ d(2)] by auto
  obtain ds where ds: "sizePrimitive (DiscriminantType (length cs)) = Inr ds" "unat ds = d"
    using discriminant_prim(2) [of "length cs"] d(1) by auto
  have "set (map snd ls) \<subseteq> {1, 2, 4, 8}"
    using spec_refs_all [OF d(2)] w by (induction rule: list_all2_induct) (auto simp: walks_def laid_out_def, fastforce)
  then have "max_align ls \<in> {1, 2, 4, 8}" by (rule max_align_in)
  then show thesis using that [OF d(1,2) refl d(3,4) ds spec_discriminant_pos [OF d(1)] mx] by simp
qed

lemma align_to_self: "a dvd x \<Longrightarrow> 0 < a \<Longrightarrow> align_to x a = x"
  using align_to_shift [of a x 0] by (simp add: align_to_def)

lemma align_disc:
  assumes "d \<in> {1, 2, 4 :: nat}" "M \<in> {1, 2, 4, 8}"
  shows "align_to d (max d M) = align_to d M"
proof (cases "d \<le> M")
  case False
  then have "M dvd d" "0 < M" "0 < d" using pow2_dvd_mono [of M d] assms by auto
  then show ?thesis using False by (simp add: align_to_self)
qed (simp add: max_absorb2)

text \<open>Both ways to compute the place of a payload give the canonical offset.\<close>

lemma payload_place:
  assumes d: "d \<in> {1, 2, 4}" and M: "M \<in> {1, 2, 4, 8}" and a: "unat a \<in> {M, max d M}" and p: "max d M dvd unat p"
    and lt: "unat p + align_to d M < 2 ^ 32" and ds: "unat ds = d"
  shows "unat (Align (p + ds) a) = unat p + align_to d M"
proof -
  have A: "max d M \<in> {1, 2, 4, 8}" using d M by (auto simp: max_def)
  have "unat a \<in> {1, 2, 4, 8}" using a M A by auto
  then have a2: "pow2_align a" using word_cases [of a] by blast
  have "unat a dvd max d M" using a M A by (intro pow2_dvd_mono) auto
  then have "unat a dvd unat p" using p by (rule dvd_trans)
  moreover have "d \<le> align_to d M" using M by (intro align_to_ge) auto
  then have "unat (p + ds) = unat p + d" using ds lt by (subst unat_add_fits) auto
  moreover have "align_to d (unat a) = align_to d M" using a align_disc [OF d M] by auto
  ultimately show ?thesis using Align_at [OF a2, of "unat p" "p + ds" d] lt by simp
qed

lemma case_layout:
  assumes ls: "spec_refs r f trs = Some ls" and tr: "tr \<in> set trs" "resolveType r (Some tr) = Inr u"
  obtains S A where "f u = Some (S, A)" "S \<le> max_size ls" "A \<le> max_align ls" "(S, A) \<in> set ls"
proof -
  obtain x where x: "x \<in> set ls" "f u = Some x"
    using spec_refs_all [OF ls] tr by (induction rule: list_all2_induct) auto
  have "fst x \<le> max_size ls" "snd x \<le> max_align ls"
    using x(1) foldl_max_ge [of 0 "map fst ls"] foldl_max_ge [of 1 "map snd ls"] by (auto simp: max_size_def max_align_def)
  then show thesis using that [of "fst x" "snd x"] x by simp
qed

lemma payload_stored:
  assumes c: "child_ok own f wt ld sto" and w: "walks f al sz" and v: "spec_node r f (VariantDesc cs) = Some (S, A)" and S: "fits S"
    and p: "A dvd unat p" "unat p + S \<le> length (fst st)" "length (fst st) < 2 ^ 32" "span p S \<subseteq> own (snd st)"
    and d: "spec_discriminant (length cs) = Some d" and mx: "MaxCaseAlignment r al cs = Inr mx"
    and 1: "stored own (span p d) st st1 Q"
    and tr: "tr \<in> set (List.map_filter snd cs)" "resolveType r (Some tr) = Inr u" "wt u x"
    and q: "unat q = unat p + align_to d (unat mx)" and ea: "ea = 0 \<or> (\<exists>s. f u = Some (s, unat ea))"
    and s: "sto q u x ea st1 = Inr st'"
  shows "stored own (span p S) st st' (\<lambda>m. Q m \<and> ld m q u = Inr x)"
proof -
  obtain d' M ls ds mx' where V: "spec_discriminant (length cs) = Some d'" "spec_refs r f (List.map_filter snd cs) = Some ls" "M = max_align ls"
    "A = max d' M" "S = align_to (align_to d' M + max_size ls) A" "d' \<in> {1, 2, 4}" "MaxCaseAlignment r al cs = Inr mx'" "unat mx' = M" "M \<in> {1, 2, 4, 8}"
    using variant_layout [OF w v] by metis
  have eq: "d' = d" "unat mx = M" using V d mx by auto
  obtain s' a' where u: "f u = Some (s', a')" "s' \<le> max_size ls" "a' \<le> M" using case_layout [OF V(2) tr(1,2)] V(3) by metis
  have a': "a' \<in> {1, 2, 4, 8}" using walksD [OF w u(1)] by metis
  have A: "A \<in> {1, 2, 4, 8}" "M \<le> A" using V by (auto simp: max_def)
  let ?o = "align_to d M"
  have o: "M dvd ?o" "d \<le> ?o" using align_to_props(1,2) [of M d] V(9) by auto
  have lim: "?o + s' \<le> S" using align_to_ge [of A "align_to d M + max_size ls"] A u(2) V(5) eq by auto
  have "a' dvd A" "a' dvd M" using pow2_dvd_mono [OF a' A(1)] pow2_dvd_mono [OF a' V(9) u(3)] u(3) A(2) by auto
  then have "a' dvd unat p" "a' dvd ?o" using p(1) o(1) by (blast intro: dvd_trans)+
  then have "a' dvd unat q" using q eq by simp
  moreover have "fits s'" using S lim by (simp add: fits_def)
  note D = storedD [OF 1]
  have spans: "span p d \<union> span q s' \<subseteq> span p S" "span p d \<inter> span q s' = {}" using q eq lim o(2) by (auto simp: span_def)
  ultimately have 2: "stored own (span q s') st1 st' (\<lambda>m. ld m q u = Inr x)"
    by (intro child_okD [OF c u(1) _ tr(3) _ _ _ D(2) _ s]) (use ea u(1) D p q eq lim spans in \<open>auto simp: \<open>fits s'\<close>\<close>)
  have "stored own (span p d \<union> span q s') st st' (\<lambda>m. Q m \<and> ld m q u = Inr x)"
    by (rule stored_seq [OF 1 2]) (use spans p(4) in auto)
  then show ?thesis by (rule stored_mono) (use spans in auto)
qed

lemma same_word: "unat a = n \<Longrightarrow> unat b = n \<Longrightarrow> a = b" for a b :: u32
  by (simp add: word_unat_eq_iff)

lemma storeVariant_stored:
  assumes c: "child_ok own f wt ld sto" and w: "walks f al sz" and v: "spec_node r f (VariantDesc cs) = Some (S, A)" and S: "fits S"
    and p: "A dvd unat p" "unat p + S \<le> length (fst st)" "length (fst st) < 2 ^ 32" "span p S \<subseteq> own (snd st)"
    and al: "align = 0 \<or> unat align = A"
    and wt: "case snd (cs ! unat i) of None \<Rightarrow> x = VNil | Some tr \<Rightarrow> typed_ref r wt tr x"
    and s: "storeVariant r al sto p (VVariant i x) cs align st = Inr st'"
  shows "stored own (span p S) st st' (\<lambda>m. loadVariant r al (ld m) m p cs = Inr (VVariant i x))"
proof -
  obtain d M ls ds mx where V: "spec_discriminant (length cs) = Some d" "spec_refs r f (List.map_filter snd cs) = Some ls" "M = max_align ls"
    "A = max d M" "S = align_to (align_to d M + max_size ls) A" "sizePrimitive (DiscriminantType (length cs)) = Inr ds" "unat ds = d"
    "d \<in> {1, 2, 4}" "MaxCaseAlignment r al cs = Inr mx" "unat mx = M" "M \<in> {1, 2, 4, 8}"
    using variant_layout [OF w v] by metis
  have i: "unat i < length cs" using s by (auto simp: storeVariant_def split: if_splits)
  obtain st1 where s1: "put p ds st (VU32 i) = Inr st1" using s i V(6) by (auto simp: storeVariant_def abiE_def split: if_splits)
  have "unat i < 2 ^ (8 * unat ds)" using disc_fits [OF V(1) i] V(7) by simp
  then have 1: "stored own (span p d) st st1 (\<lambda>m. loadInt m p ds False = Inr (VU32 i))"
    using put_fits [OF s1 p(3)] V(7,8) by simp
  have o: "d \<le> align_to d M" "align_to d M \<le> S"
    using align_to_ge [of M d] align_to_ge [of A "align_to d M + max_size ls"] V by auto
  show ?thesis
  proof (cases "snd (cs ! unat i)")
    case None
    then have "st' = st1" "x = VNil" using s i V s1 wt al by (auto simp: storeVariant_def abiE_def Let_def split: if_splits)
    then show ?thesis using stored_mono [OF 1, of "span p S"] o V(6,9) i None
      by (auto simp: span_def loadVariant_def as_u32_def abiE_def elim!: stored_mono)
  next
    case (Some tr)
    then obtain u where u: "resolveType r (Some tr) = Inr u" "wt u x" using wt by (auto simp: typed_ref_def split: sum.splits)
    define a where "a = (if align = 0 then mx else align)"
    have q: "unat (Align (p + ds) a) = unat p + align_to d M"
      by (rule payload_place [OF V(8,11)]) (use a_def V al p o in auto)
    have "unat (Align (p + ds) mx) = unat p + align_to d M"
      by (rule payload_place [OF V(8,11)]) (use V p o in auto)
    then have eq: "Align (p + ds) a = Align (p + ds) mx" using q by (rule same_word [rotated])
    have s2: "sto (Align (p + ds) a) u x 0 st1 = Inr st'"
      using s i V(6,9) s1 Some u(1) by (auto simp: storeVariant_def abiE_def Let_def a_def split: if_splits)
    have "tr \<in> set (List.map_filter snd cs)" using Some i by (force simp: List.map_filter_def in_set_conv_nth)
    from payload_stored [OF c w v S p V(1,9) 1 this u _ _ s2] q V(10)
    have "stored own (span p S) st st' (\<lambda>m. loadInt m p ds False = Inr (VU32 i) \<and> ld m (Align (p + ds) a) u = Inr x)" by simp
    then show ?thesis by (rule stored_mono) (use V(6,9) i Some u(1) eq in \<open>auto simp: loadVariant_def as_u32_def abiE_def\<close>)
  qed
qed

text \<open>Options and results are variants of two cases, with a discriminant of one byte.\<close>

lemma two_cases: "spec_discriminant (Suc (Suc 0)) = Some (Suc 0)"
  by (simp add: spec_discriminant_def)

lemma storeOption_stored:
  assumes c: "child_ok own f wt ld sto" and w: "walks f al sz" and v: "spec_node r f (VariantDesc [(''none'', None), (''some'', Some e)]) = Some (S, A)"
    and S: "fits S" and p: "A dvd unat p" "unat p + S \<le> length (fst st)" "length (fst st) < 2 ^ 32" "span p S \<subseteq> own (snd st)"
    and al: "align = 0 \<or> unat align = A" and t: "resolveType r (Some e) = Inr t" and wt: "x = VNil \<or> wt t x"
    and s: "storeOption al sto p x align t st = Inr st'"
  shows "stored own (span p S) st st' (\<lambda>m. loadOption al (ld m) m p t = Inr x)"
proof -
  let ?cs = "[(''none'', None), (''some'', Some e)]"
  obtain d M ls ds mx where V: "spec_discriminant (length ?cs) = Some d" "spec_refs r f (List.map_filter snd ?cs) = Some ls" "M = max_align ls"
    "A = max d M" "S = align_to (align_to d M + max_size ls) A" "sizePrimitive (DiscriminantType (length ?cs)) = Inr ds" "unat ds = d"
    "d \<in> {1, 2, 4}" "MaxCaseAlignment r al ?cs = Inr mx" "unat mx = M" "M \<in> {1, 2, 4, 8}"
    using variant_layout [OF w v] by metis
  have d: "d = 1" using V(1) by (simp add: two_cases)
  obtain s' a' where f: "f t = Some (s', a')" "ls = [(s', a')]" using V(2) t by (auto simp: List.map_filter_simps bind_eq_Some_conv)
  obtain ea where ea: "al t = Inr ea" "unat ea = a'" "a' \<in> {1, 2, 4, 8}" using walksD [OF w f(1)] by metis
  have M: "M = a'" "A = a'" using V(3,4) f(2) d ea(3) by (auto simp: max_align_def)
  have o: "1 \<le> align_to 1 M" "align_to 1 M \<le> S"
    using align_to_ge [of M 1] align_to_ge [of A "align_to d M + max_size ls"] V d by auto
  define a where "a = (if align = 0 then ea else align)"
  have a: "unat a = M" using a_def al ea M by auto
  then have aeq: "a = ea" using ea(2) M by (auto intro: same_word)
  obtain st1 where s1: "put p 1 st (VU32 (if x = VNil then 0 else 1)) = Inr st1" using s by (auto simp: storeOption_def)
  have 1: "stored own (span p d) st st1 (\<lambda>m. loadInt m p 1 False = Inr (VU32 (if x = VNil then 0 else 1)))"
    using put_fits [OF s1 p(3)] d by simp
  show ?thesis
  proof (cases "x = VNil")
    case True
    then have "st' = st1" using s s1 ea(1) by (auto simp: storeOption_def abiE_def split: if_splits)
    then show ?thesis using stored_mono [OF 1, of "span p S"] o d True ea(1)
      by (auto simp: span_def loadOption_def as_u32_def abiE_def elim!: stored_mono)
  next
    case False
    have q: "unat (Align (p + 1) a) = unat p + align_to d (unat mx)"
      using payload_place [OF V(8,11), of a p 1] a V(4,10) p o d by auto
    have s2: "sto (Align (p + 1) a) t x a st1 = Inr st'" using s s1 False ea(1) by (auto simp: storeOption_def abiE_def a_def split: if_splits)
    have "stored own (span p S) st st' (\<lambda>m. loadInt m p 1 False = Inr (VU32 1) \<and> ld m (Align (p + 1) a) t = Inr x)"
      using payload_stored [OF c w v S p V(1,9) 1 _ t _ q _ s2] wt False f(1) a M by (simp add: List.map_filter_simps)
    then show ?thesis by (rule stored_mono) (use ea(1) aeq in \<open>auto simp: loadOption_def as_u32_def abiE_def\<close>)
  qed
qed

lemma result_arms:
  "bindE (arm_align r al ok 1) (\<lambda>m. bindE (arm_align r al er m) k) =
   bindE (abiE (MaxCaseAlignment r al [(''ok'', ok), (''error'', er)])) k"
  by (auto simp: arm_align_def MaxCaseAlignment_def via_def abiE_def bindE_def split: option.splits sum.splits)

lemma alignmentResult_max:
  assumes "MaxCaseAlignment r al [(''ok'', ok), (''error'', er)] = Inr mx" "1 \<le> unat mx"
  shows "alignmentResult r al ok er = Inr mx"
  unfolding alignmentResult_variant using assms
  by (auto simp: alignmentVariant_def disc_two alignmentPrimitive_def word_less_nat_alt split: if_splits intro: same_word)

lemma storeResult_stored:
  assumes c: "child_ok own f wt ld sto" and w: "walks f al sz" and v: "spec_node r f (VariantDesc [(''ok'', ok), (''error'', er)]) = Some (S, A)"
    and S: "fits S" and p: "A dvd unat p" "unat p + S \<le> length (fst st)" "length (fst st) < 2 ^ 32" "span p S \<subseteq> own (snd st)"
    and al: "align = 0 \<or> unat align = A"
    and wt: "case (if b then er else ok) of None \<Rightarrow> x = VNil | Some tr \<Rightarrow> typed_ref r wt tr x"
    and s: "storeResult r al sto p (VResult b x) ok er align st = Inr st'"
  shows "stored own (span p S) st st' (\<lambda>m. loadResult r al (ld m) m p ok er = Inr (VResult b x))"
proof -
  let ?cs = "[(''ok'', ok), (''error'', er)]"
  obtain d M ls ds mx where V: "spec_discriminant (length ?cs) = Some d" "spec_refs r f (List.map_filter snd ?cs) = Some ls" "M = max_align ls"
    "A = max d M" "S = align_to (align_to d M + max_size ls) A" "sizePrimitive (DiscriminantType (length ?cs)) = Inr ds" "unat ds = d"
    "d \<in> {1, 2, 4}" "MaxCaseAlignment r al ?cs = Inr mx" "unat mx = M" "M \<in> {1, 2, 4, 8}"
    using variant_layout [OF w v] by metis
  have d: "d = 1" using V(1) by (simp add: two_cases)
  have M: "A = M" "1 \<le> unat mx" using V(4,10,11) d by auto
  have ar: "alignmentResult r al ok er = Inr mx" by (rule alignmentResult_max [OF V(9) M(2)])
  have o: "1 \<le> align_to 1 M" "align_to 1 M \<le> S"
    using align_to_ge [of M 1] align_to_ge [of A "align_to d M + max_size ls"] V d by auto
  have "(if align = 0 then abiE (alignmentResult r al ok er) else Inr align) = Inr mx"
    using al ar M V(10) by (auto simp: abiE_def intro: same_word)
  note aeq = this
  obtain st1 where s1: "put p 1 st (VU32 (if b then 1 else 0)) = Inr st1" using s by (auto simp: storeResult_def)
  have 1: "stored own (span p d) st st1 (\<lambda>m. loadInt m p 1 False = Inr (VU32 (if b then 1 else 0)))"
    using put_fits [OF s1 p(3)] d by simp
  let ?q = "Align (p + 1) mx"
  have "stored own (span p S) st st' (\<lambda>m. loadInt m p 1 False = Inr (VU32 (if b then 1 else 0)) \<and> load_arm r (ld m) ?q (if b then er else ok) = Inr x)"
  proof (cases "if b then er else ok")
    case None
    then have "st' = st1" "x = VNil" using s s1 aeq wt by (auto simp: storeResult_def simp del: split_paired_All)
    then show ?thesis using stored_mono [OF 1, of "span p S"] o d None by (auto simp: span_def load_arm_def elim!: stored_mono)
  next
    case (Some tr)
    then obtain u where u: "resolveType r (Some tr) = Inr u" "wt u x" using wt by (auto simp: typed_ref_def split: sum.splits)
    have q: "unat ?q = unat p + align_to d (unat mx)" using payload_place [OF V(8,11), of mx p 1] V(4,10) p o d by auto
    have s2: "sto ?q u x 0 st1 = Inr st'" using s s1 aeq Some u(1) by (auto simp: storeResult_def abiE_def)
    have "tr \<in> set (List.map_filter snd ?cs)" using Some by (auto simp: List.map_filter_simps split: if_splits option.splits)
    from payload_stored [OF c w v S p V(1,9) 1 this u q _ s2]
    show ?thesis by (rule stored_mono) (use Some u(1) in \<open>auto simp: load_arm_def abiE_def\<close>)
  qed
  then show ?thesis by (rule stored_mono) (use V(9) in \<open>auto simp: loadResult_def as_u32_def result_arms abiE_def split: if_splits\<close>)
qed

section \<open>Well-typed values\<close>

lemma mask_fits: "u AND flagsBitMask n = u \<Longrightarrow> n \<le> 32 \<Longrightarrow> unat u < 2 ^ n"
proof -
  assume u: "u AND flagsBitMask n = u" and n: "n \<le> 32"
  have "take_bit n u = u"
  proof (rule bit_word_eqI)
    fix i assume i: "i < LENGTH(32)"
    have "bit (u AND flagsBitMask n) i \<longleftrightarrow> bit u i \<and> i < n"
      using i n by (auto simp: flagsBitMask_def bit_and_iff bit_drop_bit_eq bit_minus_1_iff bit_mask_iff)
    then show "bit (take_bit n u) i = bit u i" unfolding u by (auto simp: bit_take_bit_iff)
  qed
  then have "unat u = take_bit n (unat u)" by (metis unsigned_take_bit_eq)
  then show ?thesis by (metis take_bit_nat_less_exp)
qed

lemma storeFlags_stored:
  assumes s: "storeFlags p (VU32 u) ns st = Inr st'" and len: "length (fst st) < 2 ^ 32" and S: "spec_flags (length ns) = Some S"
    and wt: "u AND flagsBitMask (length ns) = u"
  shows "stored own (span p S) st st' (\<lambda>m. loadFlags m p ns = Inr (VU32 u))"
proof -
  obtain w where w: "sizeFlagsNumLabels (length ns) = Inr w" "unat w = S" using flags_spec(2) [of "length ns"] S by auto
  have n: "length ns \<le> 8 * S" "S \<in> {1, 2, 4}" "length ns \<le> 32" using S by (auto simp: spec_flags_def split: if_splits)
  have "unat u < 2 ^ length ns" by (rule mask_fits [OF wt n(3)])
  also have "\<dots> \<le> 2 ^ (8 * unat w)" using n(1) w(2) by (intro power_increasing) auto
  finally have "stored own (span p (unat w)) st st' (\<lambda>m. loadInt m p w False = Inr (VU32 u))"
    using s w len n(2) by (intro put_fits) (auto simp: storeFlags_def abiE_def)
  then show ?thesis unfolding w(2) by (rule stored_mono) (use w(1) wt in \<open>auto simp: loadFlags_def abiE_def as_u32_def\<close>)
qed

lemma enum_layout:
  "sizeEnumNumCases n = sizePrimitive (DiscriminantType n) \<or> spec_discriminant n = None"
  by (auto simp: sizeEnumNumCases_def discriminant_prim(3))

lemma storeEnum_stored:
  assumes s: "storeEnum p (VU32 i) cs st = Inr st'" and len: "length (fst st) < 2 ^ 32" and S: "spec_discriminant (length cs) = Some S"
    and i: "unat i < length cs"
  shows "stored own (span p S) st st' (\<lambda>m. loadEnum m p cs = Inr (VU32 i))"
proof -
  obtain w where w: "sizeEnumNumCases (length cs) = Inr w" "unat w = S"
    using discriminant_prim(2) [of "length cs"] enum_layout [of "length cs"] S by auto
  have "stored own (span p (unat w)) st st' (\<lambda>m. loadInt m p w False = Inr (VU32 i))"
    using s w len i disc_fits [OF S i] spec_discriminant_pos [OF S] by (intro put_fits) (auto simp: storeEnum_def abiE_def)
  then show ?thesis unfolding w(2) by (rule stored_mono) (use w(1) i in \<open>auto simp: loadEnum_def abiE_def as_u32_def\<close>)
qed

lemma store_handle_stored:
  assumes "store_handle p (VU32 h) st = Inr st'" "length (fst st) < 2 ^ 32"
  shows "stored own (span p 4) st st' (\<lambda>m. loadInt m p 4 False = Inr (VU32 h))"
  using put_4 [of p st h st' own] assms by (auto simp: store_handle_def elim!: stored_mono)

lemma record_stored:
  assumes c: "child_ok own f wt ld sto" and w: "walks f al sz" and v: "spec_refs r f trs = Some ls" and S: "fits (align_to (place 0 ls) (max_align ls))"
    and p: "max_align ls dvd unat p" "unat p + align_to (place 0 ls) (max_align ls) \<le> length (fst st)" "length (fst st) < 2 ^ 32"
      "span p (align_to (place 0 ls) (max_align ls)) \<subseteq> own (snd st)"
    and wt: "list_all2 (typed_ref r wt) trs vs" and s: "store_fields r al sz sto p trs vs st = Inr st'"
  shows "stored own (span p (align_to (place 0 ls) (max_align ls))) st st' (\<lambda>m. load_fields r al sz (ld m) p trs = Inr vs)"
proof -
  have aligns: "set (map snd ls) \<subseteq> {1, 2, 4, 8}"
    using spec_refs_all [OF v] w by (induction rule: list_all2_induct) (auto simp: walks_def laid_out_def, fastforce)
  then have M: "max_align ls \<in> {1, 2, 4, 8}" by (rule max_align_in)
  have P: "\<forall>x \<in> set ls. snd x dvd unat p"
  proof
    fix x assume x: "x \<in> set ls"
    then have "snd x \<le> max_align ls" using foldl_max_ge [of 1 "map snd ls"] by (auto simp: max_align_def)
    then have "snd x dvd max_align ls" using x aligns M by (intro pow2_dvd_mono) auto
    then show "snd x dvd unat p" using p(1) by (rule dvd_trans)
  qed
  have ge: "place 0 ls \<le> align_to (place 0 ls) (max_align ls)" using M by (intro align_to_ge) auto
  have "stored own {unat p + 0..<unat p + place 0 ls} st st' (\<lambda>m. load_fields r al sz (ld m) p trs = Inr vs)"
    by (rule store_fields_stored [OF c w v P _ _ _ p(3) wt _ s]) (use S ge p in \<open>auto simp: fits_def span_def\<close>)
  then show ?thesis by (rule stored_mono) (use ge in \<open>auto simp: span_def\<close>)
qed

lemma layout_prim: "spec_layout n r (PrimitiveDesc p) = Some x \<Longrightarrow> spec_prim p = Some x"
  by (cases n) (auto simp: spec_node_def despecialize_def)

lemma typed_ref_resolved: "typed_ref r wt e v \<Longrightarrow> \<exists>u. resolveType r (Some e) = Inr u \<and> wt u v"
  by (auto simp: typed_ref_def split: sum.splits)

lemma store_body_stored:
  assumes ok: "allocator_ok own R" and c: "child_ok own f wt ld sto" and w: "walks f al sz"
    and prim: "\<And>p x. f (PrimitiveDesc p) = Some x \<Longrightarrow> spec_prim p = Some x"
    and f: "spec_node r f (despecialize t) = Some (S, A)" and S: "fits S" and wt: "typed_node r f wt t v" and a: "align = 0 \<or> unat align = A"
    and p: "A dvd unat p" "unat p + S \<le> length (fst st)" and len: "length (fst st) < 2 ^ 32" and own: "span p S \<subseteq> own (snd st)"
    and s: "store_body r R al sz sto p t v align st = Inr st'"
  shows "stored own (span p S) st st' (\<lambda>m. load_body r al sz (ld m) m p t = Inr v)"
proof (cases t)
  case (PrimitiveDesc q)
  have "stored own (span p S) st st' (\<lambda>m. loadPrimitive m p q = Inr v)"
    by (rule storePrimitive_stored [OF ok]) (use PrimitiveDesc f wt p len own s in \<open>auto simp: spec_node_def despecialize_def typed_node_def store_body_def\<close>)
  then show ?thesis by (simp add: PrimitiveDesc load_body_def)
next
  case (ListDesc e)
  then obtain u where u: "resolveType r (Some e) = Inr u" "typed_list f wt u v" using wt by (auto simp: typed_node_def dest: typed_ref_resolved)
  have S: "S = 8" using f ListDesc by (simp add: spec_node_def despecialize_def)
  have "stored own (span p 8) st st' (\<lambda>m. loadList al sz (ld m) m p u = Inr v)"
    by (rule storeList_stored [OF ok c w u(2) len]) (use p own s ListDesc u(1) S in \<open>auto simp: store_body_def abiE_def\<close>)
  then show ?thesis by (simp add: ListDesc load_body_def u(1) abiE_def S)
next
  case (MapDesc key val)
  have S: "S = 8" using f MapDesc by (simp add: spec_node_def despecialize_def)
  have "stored own (span p 8) st st' (\<lambda>m. loadList al sz (ld m) m p (mapElemType key val) = Inr v)"
    by (rule storeList_stored [OF ok c w _ len]) (use p own s MapDesc wt S in \<open>auto simp: store_body_def typed_node_def\<close>)
  then show ?thesis by (simp add: MapDesc load_body_def S)
next
  case (FixedListDesc e n)
  then obtain u where u: "resolveType r (Some e) = Inr u" "typed_list f wt u v" using wt by (auto simp: typed_node_def dest: typed_ref_resolved)
  obtain S' where S': "f u = Some (S', A)" "S = unat n * S'" "n \<noteq> 0"
    using f FixedListDesc u(1) by (auto simp: spec_node_def despecialize_def bind_eq_Some_conv split: if_splits)
  then have "S' \<le> S" by (simp add: unat_gt_0 Suc_leI)
  then have fits: "fits S'" using S by (simp add: fits_def)
  have "stored own (span p (unat n * S')) st st' (\<lambda>m. loadAnyListFromRange al sz (ld m) m p n u = Inr v)"
    by (rule storeFixedList_stored [OF c w u(2) S'(1) fits _ p(1) _ len])
      (use S' prim p own s FixedListDesc u(1) in \<open>auto simp: store_body_def abiE_def\<close>)
  then show ?thesis by (simp add: FixedListDesc load_body_def u(1) abiE_def S'(2))
next
  case (RecordDesc fs)
  obtain ls where ls: "spec_refs r f (map snd fs) = Some ls" "S = align_to (place 0 ls) (max_align ls)" "A = max_align ls"
    using f RecordDesc by (auto simp: spec_node_def despecialize_def bind_eq_Some_conv)
  obtain vs where v: "v = VList vs" "list_all2 (typed_ref r wt) (map snd fs) vs" using wt RecordDesc by (cases v) (auto simp: typed_node_def)
  have "stored own (span p S) st st' (\<lambda>m. load_fields r al sz (ld m) p (map snd fs) = Inr vs)"
    unfolding ls(2) by (rule record_stored [OF c w ls(1) _ _ _ len _ v(2)])
      (use ls S p own s RecordDesc v(1) in \<open>auto simp: store_body_def storeRecord_def split: if_splits\<close>)
  then show ?thesis by (rule stored_mono) (auto simp: RecordDesc load_body_def loadRecord_def v(1))
next
  case (TupleDesc es)
  obtain ls where ls: "spec_refs r f es = Some ls" "S = align_to (place 0 ls) (max_align ls)" "A = max_align ls"
    using f TupleDesc by (auto simp: spec_node_def despecialize_def bind_eq_Some_conv comp_def)
  obtain vs where v: "v = VList vs" "list_all2 (typed_ref r wt) es vs" using wt TupleDesc by (cases v) (auto simp: typed_node_def)
  have "stored own (span p S) st st' (\<lambda>m. load_fields r al sz (ld m) p es = Inr vs)"
    unfolding ls(2) by (rule record_stored [OF c w ls(1) _ _ _ len _ v(2)])
      (use ls S p own s TupleDesc v(1) in \<open>auto simp: store_body_def storeTuple_def split: if_splits\<close>)
  then show ?thesis by (rule stored_mono) (auto simp: TupleDesc load_body_def loadTuple_def v(1))
next
  case (VariantDesc cs)
  obtain i x where v: "v = VVariant i x" "case snd (cs ! unat i) of None \<Rightarrow> x = VNil | Some tr \<Rightarrow> typed_ref r wt tr x"
    using wt VariantDesc by (cases v) (auto simp: typed_node_def)
  show ?thesis using storeVariant_stored [OF c w _ S p len own a v(2), of st'] f s VariantDesc v(1)
    by (simp add: despecialize_def store_body_def load_body_def)
next
  case (FlagsDesc ns)
  obtain u where v: "v = VU32 u" "u AND flagsBitMask (length ns) = u" using wt FlagsDesc by (cases v) (auto simp: typed_node_def)
  show ?thesis using storeFlags_stored [OF _ len _ v(2), of p st' S own] f s FlagsDesc v(1)
    by (auto simp: despecialize_def spec_node_def store_body_def load_body_def)
next
  case (EnumDesc cs)
  obtain i where v: "v = VU32 i" "unat i < length cs" using wt EnumDesc by (cases v) (auto simp: typed_node_def)
  obtain d where d: "spec_discriminant (length cs) = Some d" "S = align_to (align_to d 1) (max d 1)"
    using f EnumDesc by (auto simp: despecialize_def spec_node_def no_payloads max_align_def max_size_def bind_eq_Some_conv Let_def)
  have "S = d" using d(2) spec_discriminant_pos [OF d(1)] by (auto simp: align_to_self max_def)
  then show ?thesis using storeEnum_stored [OF _ len d(1) v(2), of p st' own] s EnumDesc v(1) by (simp add: store_body_def load_body_def)
next
  case (OptionDesc e)
  have n: "spec_node r f (VariantDesc [(''none'', None), (''some'', Some e)]) = Some (S, A)" using f OptionDesc by (simp add: despecialize_def)
  obtain u where u: "resolveType r (Some e) = Inr u" using s OptionDesc by (auto simp: store_body_def abiE_def split: sum.splits)
  have "v = VNil \<or> wt u v" using wt OptionDesc u by (auto simp: typed_node_def typed_ref_def)
  from storeOption_stored [OF c w n S p len own a u this] s OptionDesc u show ?thesis
    by (simp add: store_body_def load_body_def abiE_def)
next
  case (ResultDesc ok' er)
  have n: "spec_node r f (VariantDesc [(''ok'', ok'), (''error'', er)]) = Some (S, A)" using f ResultDesc by (simp add: despecialize_def)
  obtain b x where v: "v = VResult b x" "case (if b then er else ok') of None \<Rightarrow> x = VNil | Some tr \<Rightarrow> typed_ref r wt tr x"
    using wt ResultDesc by (cases v) (auto simp: typed_node_def)
  from storeResult_stored [OF c w n S p len own a v(2), of st'] s ResultDesc v(1) show ?thesis by (simp add: store_body_def load_body_def)
qed (use f wt s len in \<open>cases v; auto simp: despecialize_def spec_node_def typed_node_def store_body_def load_body_def intro: store_handle_stored\<close>)+

lemma storeValue_stored: "allocator_ok own R \<Longrightarrow> child_ok own (spec_layout n r) (well_typed n r) (loadValue n r) (storeValue n r R)"
proof (induction n)
  case (Suc n)
  note c = Suc.IH [OF Suc.prems]
  show ?case unfolding child_ok_def
    by (intro allI impI, unfold storeValue.simps loadValue.simps, rule store_body_stored [OF Suc.prems c walks_layout layout_prim]) auto
qed (simp add: child_ok_def)

section \<open>What a load returns\<close>

lemma abiE_Inr [simp]: "abiE x = Inr a \<longleftrightarrow> x = Inr a"
  by (auto simp: abiE_def split: sum.splits)

lemma loadInt_typed:
  assumes "loadInt m p k sg = Inr v"
  shows "(\<exists>u. v = VU32 u \<and> \<not> sg \<and> unat u < 2 ^ (8 * unat k) \<and> k \<in> {1, 2, 4}) \<or>
    (\<exists>i. v = VS32 i \<and> sg \<and> - (2 ^ (8 * unat k - 1)) \<le> sint i \<and> sint i < 2 ^ (8 * unat k - 1) \<and> k \<in> {1, 2, 4}) \<or>
    (\<exists>u. v = VU64 u \<and> \<not> sg \<and> k = 8) \<or> (\<exists>u. v = VS64 u \<and> sg \<and> k = 8)"
proof -
  have up: "unat (ucast b :: u32) \<le> unat b" for b :: "'a::len word"
    by (simp add: unsigned_ucast_eq take_bit_nat_less_eq_self)
  have 8: "unat (ucast b :: u32) < 256" "-128 \<le> sint (scast b :: u32) \<and> sint (scast b :: u32) < 128" for b :: u8
    using le_less_trans [OF up unsigned_less [of b, where ?'a = nat]] sint_lt [of b] sint_ge [of b]
    by (auto simp: signed_scast_eq signed_take_bit_int_eq_self)
  have 16: "unat (ucast b :: u32) < 65536" "-32768 \<le> sint (scast b :: u32) \<and> sint (scast b :: u32) < 32768" for b :: "16 word"
    using le_less_trans [OF up unsigned_less [of b, where ?'a = nat]] sint_lt [of b] sint_ge [of b]
    by (auto simp: signed_scast_eq signed_take_bit_int_eq_self)
  have 32: "unat b < 4294967296" "-2147483648 \<le> sint b \<and> sint b < 2147483648" for b :: u32
    using unsigned_less [of b, where ?'a = nat] sint_lt [of b] sint_ge [of b] by auto
  show ?thesis using assms 8 16 32 by (auto simp: loadInt_def split: if_splits)
qed

lemma loadPrimitive_typed:
  assumes "loadPrimitive m p prim = Inr v"
  shows "prim_typed prim v"
  using assms unfolding loadPrimitive_def
  by (auto split: if_splits dest!: loadInt_typed
      simp: prim_typed_def as_u32_def as_u64_def loadString_def loadStringFromRange_def word_less_nat_alt simp del: insert_iff)

lemma scalarListSpan_length: "scalarListSpan m p n 1 = Inr b \<Longrightarrow> length b = unat n"
proof -
  assume s: "scalarListSpan m p n 1 = Inr b"
  have "unat (p + n) = unat p + unat n"
    using s no_olen_add_nat [of p n] by (auto simp: scalarListSpan_def Let_def word_le_nat_alt word_less_nat_alt unat_word_ariths not_less split: if_splits)
  then show ?thesis using s by (auto simp: scalarListSpan_def Let_def slice_def word_less_nat_alt split: if_splits)
qed

lemma decodeScalarList_length: "decodeScalarList m p n es dec = Inr xs \<Longrightarrow> length xs = unat n"
  by (auto simp: decodeScalarList_def dest: mapE_length)

lemma liftScalarList_typed:
  assumes "liftScalarList m p n prim = Some (Inr v)"
  shows "slice_len v = Some (unat n)"
  using assms by (auto simp: liftScalarList_def slice_len_def scalarListSpan_length dest: decodeScalarList_length split: if_splits)

lemma scalar_lifts: "prim \<in> set scalar_prims \<Longrightarrow> liftScalarList m p n prim \<noteq> None"
  by (auto simp: scalar_prims_def liftScalarList_def)

lemma load_elems_all: "load_elems ld p es i k = Inr vs \<Longrightarrow> length vs = k \<and> (\<forall>v \<in> set vs. \<exists>q. ld q = Inr v)"
  by (induction ld p es i k arbitrary: vs rule: load_elems.induct) auto

lemma loadAnyListFromRange_typed:
  assumes l: "loadAnyListFromRange al sz ld m p n t = Inr v" and ch: "\<And>q x. ld q t = Inr x \<Longrightarrow> wt t x"
    and f: "case f t of Some x \<Rightarrow> fits (fst x) | None \<Rightarrow> False"
  shows "typed_list f wt t v"
proof -
  have n: "unat n < 2 ^ 32" using unsigned_less [of n, where ?'a = nat] by simp
  show ?thesis
  proof (cases "is_scalar t")
    case True
    then obtain pr where pr: "t = PrimitiveDesc pr" "pr \<in> set scalar_prims" by (cases t) (auto simp: is_scalar_def)
    obtain x where x: "liftScalarList m p n pr = Some x" using scalar_lifts [OF pr(2)] by blast
    then have "slice_len v = Some (unat n)" using l pr(1) liftScalarList_typed by (simp add: loadAnyListFromRange_def scalarPrim_def)
    then show ?thesis using True n by (simp add: typed_list_def)
  next
    case False
    then obtain vs where v: "v = VList vs" "loadListFromRange al sz ld m p n t = Inr vs"
      using l by (auto simp: loadAnyListFromRange_def not_scalar_type)
    then obtain es where "load_elems (\<lambda>q. ld q t) p es 0 (unat n) = Inr vs" by (auto simp: loadListFromRange_def Let_def split: if_splits)
    from load_elems_all [OF this] show ?thesis using False v(1) n f ch by (auto simp: typed_list_def list_all_iff)
  qed
qed

lemma load_fields_typed:
  assumes "load_fields r al sz ld off trs = Inr vs" "\<And>tr u q x. tr \<in> set trs \<Longrightarrow> resolveType r (Some tr) = Inr u \<Longrightarrow> ld q u = Inr x \<Longrightarrow> wt u x"
  shows "list_all2 (typed_ref r wt) trs vs"
  using assms
proof (induction trs arbitrary: off vs)
  case (Cons tr trs)
  obtain u q o' x xs where u: "resolveType r (Some tr) = Inr u" "ld q u = Inr x" "vs = x # xs" "load_fields r al sz ld o' trs = Inr xs"
    using Cons.prems(1) by (auto simp: Let_def)
  have "list_all2 (typed_ref r wt) trs xs" by (rule Cons.IH [OF u(4)]) (rule Cons.prems(2), auto)
  moreover have "typed_ref r wt tr x" using u Cons.prems(2) [of tr u q x] by (simp add: typed_ref_def)
  ultimately show ?case by (simp add: u(3))
qed simp

lemma loadVariant_arm:
  assumes "loadVariant r al ld m p cs = Inr v"
  obtains i x where "v = VVariant i x" "unat i < length cs" "case snd (cs ! unat i) of None \<Rightarrow> x = VNil
    | Some tr \<Rightarrow> \<exists>u q. resolveType r (Some tr) = Inr u \<and> ld q u = Inr x"
proof -
  obtain ds i mx where i: "\<not> length cs \<le> unat i"
    "(case snd (cs ! unat i) of None \<Rightarrow> Inr (VVariant i VNil)
      | Some tr \<Rightarrow> bindE (abiE (resolveType r (Some tr))) (\<lambda>caseType.
          bindE (ld (Align (p + ds) mx) caseType) (\<lambda>payload. Inr (VVariant i payload)))) = Inr v"
    using assms unfolding loadVariant_def Let_def bindE_eq_Inr by (auto split: if_splits)
  show thesis
  proof (cases "snd (cs ! unat i)")
    case None
    then show thesis using i that [of i VNil] by simp
  next
    case (Some tr)
    then obtain u x where "resolveType r (Some tr) = Inr u" "ld (Align (p + ds) mx) u = Inr x" "v = VVariant i x" using i(2) by auto
    then show thesis using i(1) Some that [of i x] by auto
  qed
qed

lemma load_body_typed:
  assumes l: "load_body r al sz ld m p t = Inr v"
    and ch: "\<And>u q x. u \<in> set (value_children r t) \<Longrightarrow> ld q u = Inr x \<Longrightarrow> wt u x"
    and f: "\<And>u. u \<in> set (value_children r t) \<Longrightarrow> case f u of Some x \<Rightarrow> fits (fst x) | None \<Rightarrow> False"
  shows "typed_node r f wt t v"
proof -
  have ref: "typed_ref r wt tr x"
    if "tr \<in> set (layout_refs t)" "value_children r t = layout_children r t" "resolveType r (Some tr) = Inr u" "ld q u = Inr x" for tr u q x
    using that layout_childrenI [OF that(1,3)] ch [of u q x] by (simp add: typed_ref_def)
  show ?thesis
  proof (cases t)
    case (PrimitiveDesc q)
    then show ?thesis using l by (simp add: load_body_def typed_node_def loadPrimitive_typed)
  next
    case (ListDesc e)
    then obtain u q n where u: "resolveType r (Some e) = Inr u" "loadAnyListFromRange al sz ld m q n u = Inr v" using l by (auto simp: load_body_def loadList_def)
    then have "u \<in> set (value_children r t)" using ListDesc by (simp add: value_children_def)
    then have "typed_list f wt u v" by (intro loadAnyListFromRange_typed [OF u(2)]) (use ch f in auto)
    then show ?thesis using ListDesc u(1) by (simp add: typed_node_def typed_ref_def)
  next
    case (MapDesc key val)
    then obtain q n where u: "loadAnyListFromRange al sz ld m q n (mapElemType key val) = Inr v" using l by (auto simp: load_body_def loadList_def)
    have "mapElemType key val \<in> set (value_children r t)" using MapDesc by (simp add: value_children_def)
    then have "typed_list f wt (mapElemType key val) v" by (intro loadAnyListFromRange_typed [OF u]) (use ch f in auto)
    then show ?thesis using MapDesc by (simp add: typed_node_def)
  next
    case (FixedListDesc e n)
    then obtain u where u: "resolveType r (Some e) = Inr u" "loadAnyListFromRange al sz ld m p n u = Inr v" using l by (auto simp: load_body_def)
    then have "u \<in> set (value_children r t)" using FixedListDesc layout_childrenI [of e t r u] by (simp add: value_children_def)
    then have "typed_list f wt u v" by (intro loadAnyListFromRange_typed [OF u(2)]) (use ch f in auto)
    then show ?thesis using FixedListDesc u(1) by (simp add: typed_node_def typed_ref_def)
  next
    case (RecordDesc fs)
    then obtain vs where "v = VList vs" "load_fields r al sz ld p (map snd fs) = Inr vs" using l by (auto simp: load_body_def loadRecord_def)
    moreover have "list_all2 (typed_ref r wt) (map snd fs) vs"
      by (rule load_fields_typed [OF calculation(2)]) (use ch layout_childrenI [of _ t r] RecordDesc in \<open>auto simp: value_children_def\<close>)
    ultimately show ?thesis using RecordDesc by (simp add: typed_node_def)
  next
    case (TupleDesc es)
    then obtain vs where "v = VList vs" "load_fields r al sz ld p es = Inr vs" using l by (auto simp: load_body_def loadTuple_def)
    moreover have "list_all2 (typed_ref r wt) es vs"
      by (rule load_fields_typed [OF calculation(2)]) (use ch layout_childrenI [of _ t r] TupleDesc in \<open>auto simp: value_children_def\<close>)
    ultimately show ?thesis using TupleDesc by (simp add: typed_node_def)
  next
    case (VariantDesc cs)
    then have "loadVariant r al ld m p cs = Inr v" using l by (simp add: load_body_def)
    then obtain i x where v: "v = VVariant i x" "unat i < length cs" "case snd (cs ! unat i) of None \<Rightarrow> x = VNil
        | Some tr \<Rightarrow> \<exists>u q. resolveType r (Some tr) = Inr u \<and> ld q u = Inr x" by (rule loadVariant_arm)
    have "snd (cs ! unat i) = Some tr \<Longrightarrow> tr \<in> set (layout_refs t)" for tr using VariantDesc v(2) by (force simp: List.map_filter_def)
    then have "case snd (cs ! unat i) of None \<Rightarrow> x = VNil | Some tr \<Rightarrow> typed_ref r wt tr x"
      using v(3) ref [of _ _ _ x] VariantDesc by (cases "snd (cs ! unat i)") (auto simp: value_children_def)
    then show ?thesis using v VariantDesc by (simp add: typed_node_def)
  next
    case (ResultDesc ok er)
    then have "\<exists>b x. v = VResult b x \<and> (case (if b then er else ok) of None \<Rightarrow> x = VNil
        | Some tr \<Rightarrow> \<exists>u q. resolveType r (Some tr) = Inr u \<and> ld q u = Inr x)"
      using l by (auto simp: load_body_def loadResult_def load_arm_def Let_def split: if_splits option.splits)
    then obtain b x where v: "v = VResult b x" "case (if b then er else ok) of None \<Rightarrow> x = VNil
        | Some tr \<Rightarrow> \<exists>u q. resolveType r (Some tr) = Inr u \<and> ld q u = Inr x" by blast
    have "(if b then er else ok) = Some tr \<Longrightarrow> tr \<in> set (layout_refs t)" for tr using ResultDesc by (auto split: if_splits)
    then have "case (if b then er else ok) of None \<Rightarrow> x = VNil | Some tr \<Rightarrow> typed_ref r wt tr x"
      using v(2) ref [of _ _ _ x] ResultDesc by (cases "if b then er else ok") (auto simp: value_children_def)
    then show ?thesis using v ResultDesc by (simp add: typed_node_def)
  next
    case (OptionDesc e)
    then have "v = VNil \<or> (\<exists>u q. resolveType r (Some e) = Inr u \<and> ld q u = Inr v)"
      using l by (auto simp: load_body_def loadOption_def Let_def split: if_splits)
    then show ?thesis using OptionDesc ref [of e] by (auto simp: typed_node_def value_children_def)
  next
    case (FlagsDesc ns)
    then show ?thesis using l by (auto simp: load_body_def loadFlags_def typed_node_def ac_simps and.assoc)
  next
    case (EnumDesc cs)
    then show ?thesis using l by (auto simp: load_body_def loadEnum_def typed_node_def not_le split: if_splits)
  qed (use l in \<open>auto simp: load_body_def typed_node_def dest!: loadInt_typed\<close>)
qed

lemma loadValue_typed: "sized n r t \<Longrightarrow> loadValue n r m p t = Inr v \<Longrightarrow> well_typed n r t v"
proof (induction n arbitrary: t p v)
  case (Suc n)
  show ?case unfolding well_typed.simps
    by (rule load_body_typed [OF Suc.prems(2) [unfolded loadValue.simps]]) (use Suc in \<open>auto simp: list_all_iff\<close>)
qed simp

section \<open>Stores and loads\<close>

lemma bump_own_below: "bump_own s \<subseteq> {0..<bump_next s}"
  using foldl_max_ge [of 0 "map (\<lambda>(a, k). a + k) s"] by (fastforce simp: bump_own_def bump_next_def)

lemma bump_ok: "allocator_ok bump_own bump_realloc"
proof -
  have "length m' < 2 ^ 32 \<and> agree_on (bump_own s) m m' \<and> bump_own s' = bump_own s \<union> span p (unat k) \<and>
      bump_own s \<inter> span p (unat k) = {} \<and> (al \<in> {1, 2, 4, 8} \<longrightarrow> unat al dvd unat p)"
    if m: "length m < 2 ^ 32" and b: "bump s m 0 0 al k = (Inr p, m', s')" for s m al k p m' s'
  proof -
    let ?p = "align_to (bump_next s) (max 1 (unat al))"
    have e: "?p + unat k \<le> 2 ^ 20" "p = of_nat ?p" "m' = m @ replicate (?p + unat k - length m) 0" "s' = (?p, unat k) # s"
      using b by (auto simp: bump_def Let_def split: if_splits)
    have p: "unat p = ?p" using e(1,2) by (simp add: unat_of_nat)
    have ge: "bump_next s \<le> ?p" by (rule align_to_ge) simp
    have "unat al dvd ?p" if "al \<in> {1, 2, 4, 8}" using align_to_props(1) [of "max 1 (unat al)" "bump_next s"] that by (auto simp: max_def)
    then show ?thesis using e m p ge bump_own_below [of s] by (auto simp: agree_on_def nth_append bump_own_def span_def)
  qed
  then show ?thesis unfolding allocator_ok_def bump_realloc_def by (metis (no_types, lifting) Realloc.select_convs(1) option.inject)
qed

lemma Store_parts:
  assumes "Store n r R ptr t v st = Inr st'" "spec_layout n r t = Some (S, A)" "fits S" "length (fst st) < 2 ^ 32"
  obtains a s where "Alignment n r t = Inr a" "unat a = A" "pow2_align a" "Size n r t = Inr s" "unat s = S" "A dvd unat ptr" "unat ptr + S \<le> length (fst st)"
    "storeValue n r R ptr t v a st = Inr st'"
proof -
  obtain a where a: "Alignment n r t = Inr a" "unat a = A" "pow2_align a" "\<exists>s. Size n r t = Inr s \<and> unat s = S"
    using walksD [OF walks_layout assms(2)] assms(3) by metis
  then obtain s where s: "Size n r t = Inr s" "unat s = S" by blast
  have st: "ptr = Align ptr a" "\<not> (ptr + s < ptr \<or> mem_len (fst st) < ptr + s)" "storeValue n r R ptr t v a st = Inr st'"
    using assms(1) a(1) s(1) by (auto simp: Store_def CompileStore_def StoreStep_Store_def abiE_def split: if_splits)
  have "unat a dvd unat ptr" using iffD1 [OF Align_fix [OF a(3)]] st(1) by metis
  then show thesis using that a s st checked_bounds [OF st(2) assms(4)] by metis
qed

lemma Store_stored:
  assumes ok: "allocator_ok own R" and len: "length (fst st) < 2 ^ 32" and f: "spec_layout n r t = Some (S, A)" "fits S"
    and wt: "well_typed n r t v" and own: "span ptr S \<subseteq> own (snd st)" and s: "Store n r R ptr t v st = Inr st'"
  shows "stored own (span ptr S) st st' (\<lambda>m. Load n r m ptr t = Inr v)"
proof -
  obtain a s where p: "Alignment n r t = Inr a" "unat a = A" "pow2_align a" "Size n r t = Inr s" "unat s = S" "A dvd unat ptr" "unat ptr + S \<le> length (fst st)"
    "storeValue n r R ptr t v a st = Inr st'"
    using Store_parts [OF s f len] by metis
  have r: "stored own (span ptr S) st st' (\<lambda>m. loadValue n r m ptr t = Inr v)"
    by (rule child_okD [OF storeValue_stored [OF ok] f wt _ p(6,7) len own p(8)]) (simp add: p(2))
  show ?thesis
  proof (rule stored_mono [OF stored_grown [OF r]])
    fix m :: bytes
    assume m: "length m < 2 ^ 32" "loadValue n r m ptr t = Inr v \<and> length (fst st) \<le> length m"
    have "\<not> mem_len m < ptr + s" by (rule in_bounds) (use p m in auto)
    moreover have "ptr = Align ptr a" using iffD2 [OF Align_fix [OF p(3)]] p(2,6) by metis
    ultimately show "Load n r m ptr t = Inr v" using p m by (simp add: Load_def abiE_def)
  qed simp
qed

text \<open>
  C2. Storing a well-typed value and then loading at the same place gives the value back: for every
  type that the Canonical ABI lays out in fewer than \<open>2 ^ 28\<close> bytes, whatever the guest's allocator does within its
  contract, and also later, in every memory that kept what the host owned when the store returned.
\<close>

theorem Store_then_Load:
  assumes "allocator_ok own R" "length (fst st) < 2 ^ 32" "spec_layout n r t = Some (S, A)" "S < 2 ^ 28"
    and "well_typed n r t v" "span ptr S \<subseteq> own (snd st)" "Store n r R ptr t v st = Inr st'"
    and "length m < 2 ^ 32" "agree_on (own (snd st')) (fst st') m"
  shows "Load n r m ptr t = Inr v"
proof -
  have s: "stored own (span ptr S) st st' (\<lambda>m. Load n r m ptr t = Inr v)"
    using assms by (intro Store_stored) (auto simp: fits_def)
  moreover have "agree_on ((own (snd st') - own (snd st)) \<union> span ptr S) (fst st') m"
    by (rule agree_on_mono [OF assms(9)]) (use storedD(1) [OF s] assms(6) in auto)
  ultimately show ?thesis using assms(8) by (simp add: stored_def)
qed

text \<open>
  C12. A store changes none of the memory that the host owned before, except its own destination; strings
  and list elements go to freshly allocated blocks, which are owned afterwards.
\<close>

theorem Store_keeps_owned_memory:
  assumes "allocator_ok own R" "length (fst st) < 2 ^ 32" "spec_layout n r t = Some (S, A)" "S < 2 ^ 28"
    and "well_typed n r t v" "span ptr S \<subseteq> own (snd st)" "Store n r R ptr t v st = Inr st'"
  shows "own (snd st) \<subseteq> own (snd st') \<and> agree_on (own (snd st) - span ptr S) (fst st) (fst st')"
  using Store_stored [of own R st n r t S A v ptr st'] assms by (simp add: fits_def stored_def)


lemma fuel_numeral [simp]:
  "storeValue (numeral k) r R = store_body r R (Alignment (pred_numeral k) r) (Size (pred_numeral k) r) (storeValue (pred_numeral k) r R)"
  "loadValue (numeral k) r m = load_body r (Alignment (pred_numeral k) r) (Size (pred_numeral k) r) (loadValue (pred_numeral k) r m) m"
  "well_typed (numeral k) r = typed_node r (spec_layout (pred_numeral k) r) (well_typed (pred_numeral k) r)"
  "sized (numeral k) r t = list_all (\<lambda>u. sized (pred_numeral k) r u \<and> (case spec_layout (pred_numeral k) r u of Some x \<Rightarrow> fits (fst x) | None \<Rightarrow> False)) (value_children r t)"
  by (simp_all add: numeral_eq_Suc fun_eq_iff)

lemmas sample_simps = sample_type_def sample_resolver_def sample_value_def sample_store_def index_ref_def prim_ref_def resolveType_def
  primDesc_def primDescs_def

lemmas layout_simps = Alignment_body_def alignmentPrimitive_def alignmentRecord_def alignmentOption_def alignmentResult_def via_def
  Size_body_def sizePrimitive_def sizeRecord_def sizeOption_def sizeResult_def result_payload_def Align_def u8_align_def abiE_def

lemmas store_simps = store_body_def storeRecord_def storePrimitive_def storeString_def allocStoreString_def allocStoreBytes_def
  GrowMem_def bump_realloc_def bump_def bump_next_def checkAllocated_def store_pair_def put_def storeInt_def storeOption_def storeResult_def
  intByteSize_def align_to_def write_at_def mem_len_def

lemma sample_layout: "spec_layout 4 sample_resolver sample_type = Some (40, 8)"
  by (simp add: sample_simps spec_node_def despecialize_def spec_prim_def List.map_filter_simps place.simps max_align_def max_size_def align_to_def spec_discriminant_def)

lemma sample_walks: "Alignment 4 sample_resolver sample_type = Inr 8" "Size 4 sample_resolver sample_type = Inr 40"
  by (simp_all add: sample_simps layout_simps)

lemma le_bytes_numeral: "le_bytes (numeral k) x = of_nat x # le_bytes (pred_numeral k) (x div 256)"
  by (subst numeral_eq_Suc) simp

lemma sample_storeValue: "storeValue 4 sample_resolver bump_realloc 0 sample_type sample_value 8 sample_store = Inr sample_result"
proof -
  have "storeValue 4 sample_resolver bump_realloc 0 sample_type sample_value 8 sample_store =
      Inr (le_bytes 4 40 @ le_bytes 4 2 @ 7 # replicate 7 0 @ 1 # replicate 7 0 @ 1 # replicate 7 0 @ le_bytes 8 5 @ [104, 105], [(40, 2), (0, 40)])"
    by (simp add: sample_simps layout_simps store_simps Let_def)
  moreover have "replicate 7 (0 :: u8) = [0, 0, 0, 0, 0, 0, 0]" by (simp add: eval_nat_numeral)
  ultimately show ?thesis by (simp add: sample_result_def le_bytes_numeral del: fuel_numeral)
qed

lemma sample_Store: "Store 4 sample_resolver bump_realloc 0 sample_type sample_value sample_store = Inr sample_result"
proof -
  have "CompileStore 4 sample_resolver sample_type = Inr \<lparr>step_type = sample_type, step_align = 8, step_size = 40\<rparr>"
    unfolding CompileStore_def sample_walks by (simp add: abiE_def)
  moreover have "mem_len (fst sample_store) = 40" by (simp add: sample_store_def mem_len_def)
  ultimately show ?thesis using sample_storeValue by (simp add: Store_def StoreStep_Store_def Align_def del: fuel_numeral)
qed

lemma sample_typed: "well_typed 4 sample_resolver sample_type sample_value" "sized 4 sample_resolver sample_type"
proof -
  have u: "utf8_valid [104, 105]" by (simp add: utf8_valid.simps utf8_seq_def)
  show "well_typed 4 sample_resolver sample_type sample_value"
    by (simp add: sample_simps typed_node_def typed_ref_def prim_typed_def u)
  show "sized 4 sample_resolver sample_type"
    by (simp add: sample_simps value_children_def layout_children_def List.map_filter_simps spec_node_def despecialize_def spec_prim_def fits_def
        place.simps max_align_def max_size_def align_to_def spec_discriminant_def)
qed

lemma sample_owned: "span 0 40 \<subseteq> bump_own (snd sample_store)" "length (fst sample_store) < 2 ^ 32" "length (fst sample_result) < 2 ^ 32"
  by (auto simp: sample_store_def sample_result_def span_def bump_own_def)

theorem Store_then_Load_witness:
  "Store 4 sample_resolver bump_realloc 0 sample_type sample_value sample_store = Inr sample_result \<and>
   Load 4 sample_resolver (fst sample_result) 0 sample_type = Inr sample_value"
proof
  show "Load 4 sample_resolver (fst sample_result) 0 sample_type = Inr sample_value"
    by (rule Store_then_Load [OF bump_ok sample_owned(2) sample_layout _ sample_typed(1) sample_owned(1) sample_Store sample_owned(3)]) simp_all
qed (rule sample_Store)

theorem Store_keeps_owned_memory_witness:
  "bump_own (snd sample_store) \<subseteq> bump_own (snd sample_result) \<and>
   agree_on (bump_own (snd sample_store) - span 0 40) (fst sample_store) (fst sample_result)"
  by (rule Store_keeps_owned_memory [OF bump_ok sample_owned(2) sample_layout _ sample_typed(1) sample_owned(1) sample_Store]) simp

lemma sample_Load: "Load 4 sample_resolver (fst sample_result) 0 sample_type = Inr sample_value"
proof -
  have "stored bump_own (span 0 40) sample_store sample_result (\<lambda>m. Load 4 sample_resolver m 0 sample_type = Inr sample_value)"
    by (rule Store_stored [OF bump_ok sample_owned(2) sample_layout _ sample_typed(1) sample_owned(1) sample_Store]) (simp add: fits_def)
  then show ?thesis using sample_owned(3) by (simp add: stored_def)
qed


text \<open>
  C38. A variant whose case has a payload type cannot be stored with a nil payload, although nil is how a
  missing option is represented: a variant around an option is loaded as such a value, and storing
  it back fails.
\<close>

theorem nil_payload_never_stored:
  assumes "snd (cs ! unat i) = Some tr"
  shows "\<exists>e. Store n r R ptr (VariantDesc cs) (VVariant i VNil) st = Inl e"
proof -
  have "\<exists>e. storeVariant r al sto ptr (VVariant i VNil) cs align st = Inl e" for al align and sto :: "'a child"
    using assms by (auto simp: storeVariant_def Let_def bindE_def split: sum.splits)
  then have "\<exists>e. storeValue n r R ptr (VariantDesc cs) (VVariant i VNil) align st = Inl e" for align
    by (cases n) (simp_all add: store_body_def)
  then show ?thesis by (auto simp: Store_def StoreStep_Store_def CompileStore_def bindE_def split: sum.splits)
qed

theorem nil_payload_never_stored_witness:
  "Load 3 nested_resolver [0, 0, 0] 0 (VariantDesc nested_cases) = Inr (VVariant 0 VNil) \<and>
   well_typed 3 nested_resolver (VariantDesc nested_cases) (VVariant 0 VNil) \<and>
   (\<exists>e. Store 3 nested_resolver bump_realloc 0 (VariantDesc nested_cases) (VVariant 0 VNil) ([0, 0, 0], [(0, 3)]) = Inl e)"
proof (intro conjI)
  show "Load 3 nested_resolver [0, 0, 0] 0 (VariantDesc nested_cases) = Inr (VVariant 0 VNil)"
    by (simp add: Load_def nested_resolver_def nested_cases_def layout_simps index_ref_def prim_ref_def resolveType_def primDesc_def primDescs_def
        alignmentVariant_def MaxCaseAlignment_def DiscriminantType_def sizeVariant_def mem_len_def load_body_def loadVariant_def loadInt_def slice_def bslice_def
        as_u32_def loadOption_def)
  show "well_typed 3 nested_resolver (VariantDesc nested_cases) (VVariant 0 VNil)"
    by (simp add: nested_resolver_def nested_cases_def typed_node_def typed_ref_def index_ref_def resolveType_def)
  show "\<exists>e. Store 3 nested_resolver bump_realloc 0 (VariantDesc nested_cases) (VVariant 0 VNil) ([0, 0, 0], [(0, 3)]) = Inl e"
    by (rule nil_payload_never_stored [of _ _ "index_ref 0"]) (simp add: nested_cases_def)
qed

text \<open>
  C39. A string whose pointer and length wrap around the address space passes the bounds check and panics on
  the slice expression; a list of bytes at the same place is reported as out of bounds.
\<close>

theorem wrapped_string_panics:
  assumes "length mem < 2 ^ 32" "2 ^ 32 \<le> unat ptr + unat byteLen" "unat ptr + unat byteLen - 2 ^ 32 \<le> length mem"
  shows "loadStringFromRange mem ptr byteLen = Inl (Panic_slice ptr (ptr + byteLen)) \<and>
    scalarListSpan mem ptr byteLen 1 = Inl (List_overflow ptr byteLen)"
proof -
  have u: "unat (ptr + byteLen) = unat ptr + unat byteLen - 2 ^ 32"
    using assms(2) unsigned_less [of ptr, where ?'a = nat] unsigned_less [of byteLen, where ?'a = nat]
    by (simp add: unat_word_ariths mod_if)
  then have lt: "ptr + byteLen < ptr"
    using assms(2) unsigned_less [of byteLen, where ?'a = nat] unfolding word_less_nat_alt by simp
  have "\<not> mem_len mem < ptr + byteLen" using u assms by (simp add: word_less_nat_alt)
  with lt have "loadStringFromRange mem ptr byteLen = Inl (Panic_slice ptr (ptr + byteLen))"
    by (simp add: loadStringFromRange_def slice_def)
  moreover have "byteLen \<le> 0xFFFFFFFF" using unsigned_less [of byteLen, where ?'a = nat] by (simp add: word_le_nat_alt)
  then have "scalarListSpan mem ptr byteLen 1 = Inl (List_overflow ptr byteLen)"
    using lt by (simp add: scalarListSpan_def Let_def not_less)
  ultimately show ?thesis by simp
qed

theorem wrapped_string_panics_witness:
  "loadStringFromRange [0, 0, 0, 0] 0xFFFFFFFE 3 = Inl (Panic_slice 0xFFFFFFFE 1) \<and>
   scalarListSpan [0, 0, 0, 0] 0xFFFFFFFE 3 1 = Inl (List_overflow 0xFFFFFFFE 3)"
  using wrapped_string_panics [of "[0, 0, 0, 0]" "0xFFFFFFFE" 3] by simp

end
