(* ===== verification/Abi_Flat_Roundtrip.thy ===== *)
theory Abi_Flat_Roundtrip
  imports Abi_Flat_Kinds Abi_Roundtrip
begin

text \<open>
  What is lowered is lifted again. \<open>reads cvs vi vi'\<close> says that an iterator hands out exactly \<open>cvs\<close>, also through the
  coercing iterators of nested variants (\<open>reads_coercing\<close>). \<open>lifts\<close> is what a parent needs of its children's core values and
  \<open>flat_ok\<close> the contract of lowering, stated with the ownership of memory, because strings and lists are
  stored while their owner is lowered; \<open>lowerFlatImpl_stored\<close> closes the induction.
\<close>

unbundle bit_operations_syntax

section \<open>Specification vocabulary\<close>

text \<open>The iterator hands out exactly \<open>cvs\<close>.\<close>

fun reads :: "CoreValue list \<Rightarrow> valueIter \<Rightarrow> valueIter \<Rightarrow> bool" where
  "reads [] vi vi' = (vi' = vi)"
| "reads (cv # cvs) vi vi' = (\<exists>vi1. Next vi = Inr (cv, vi1) \<and> reads cvs vi1 vi')"

text \<open>From every iterator that hands out \<open>cvs\<close>, lifting gives the value and uses up exactly these.\<close>

definition lifts :: "lift_child \<Rightarrow> type_desc \<Rightarrow> string list \<Rightarrow> CoreValue list \<Rightarrow> val \<Rightarrow> bool" where
  "lifts li t ks cvs v \<longleftrightarrow> (\<forall>vi vi' flat. reads cvs vi vi' \<longrightarrow> flat = None \<or> flat = Some ks \<longrightarrow> li vi t flat = Inr (v, vi'))"

definition flat_ok ::
  "('s \<Rightarrow> nat set) \<Rightarrow> (type_desc \<Rightarrow> abi_error + string list) \<Rightarrow> (type_desc \<Rightarrow> val \<Rightarrow> bool) \<Rightarrow>
   's lower_child \<Rightarrow> (bytes \<Rightarrow> lift_child) \<Rightarrow> bool" where
  "flat_ok own fl wt lo li \<longleftrightarrow> (\<forall>v t flat st cvs st' ks. lo v t flat st = Inr (cvs, st') \<longrightarrow> fl t = Inr ks \<longrightarrow> length ks \<le> 16 \<longrightarrow>
     (flat = None \<or> flat = Some ks) \<longrightarrow> wt t v \<longrightarrow> length (fst st) < 2 ^ 32 \<longrightarrow>
     stored own {} st st' (\<lambda>m. lifts (li m) t ks cvs v))"

text \<open>The payload of \<open>ok\<close> is an 8-bit number in a 64-bit slot.\<close>

definition ok_value :: val where
  "ok_value = VList [VString [104, 105], VU32 7, VResult False (VU32 5)]"

definition ok_kinds :: "string list" where
  "ok_kinds = [''i32'', ''i32'', ''i32'', ''i32'', ''i32'', ''i64'']"

definition ok_core :: "CoreValue list" where
  "ok_core = [NewCoreValueI32 40, NewCoreValueI32 2, NewCoreValueI32 7, NewCoreValueI32 1, NewCoreValueI32 0, NewCoreValueI64 5]"

definition ok_lowered :: "(nat \<times> nat) list store" where
  "ok_lowered = (replicate 40 0 @ [104, 105], [(40, 2), (0, 40)])"

section \<open>Reading core values\<close>

lemma reads_append: "reads (a @ b) vi vi' \<longleftrightarrow> (\<exists>vi1. reads a vi vi1 \<and> reads b vi1 vi')"
  by (induction a arbitrary: vi) auto

lemma reads_skip: "reads cvs vi vi' \<Longrightarrow> skip (length cvs) vi = Inr vi'"
  by (induction cvs arbitrary: vi) auto

lemma reads_core: "reads cvs (CoreValueIter (pre @ cvs @ post) (length pre)) (CoreValueIter (pre @ cvs @ post) (length pre + length cvs))"
proof (induction cvs arbitrary: pre)
  case (Cons cv cvs)
  from Cons.IH [of "pre @ [cv]"] show ?case by (simp add: nth_append)
qed simp

lemma reads_coercing:
  assumes "reads xs vi vi'" "length xs = length cvs" "i + length cvs \<le> length caseFlat" "length caseFlat \<le> length js"
    "\<forall>k < length cvs. deCoerceValue (xs ! k) (js ! (i + k)) (caseFlat ! (i + k)) = Inr (cvs ! k)"
  shows "reads cvs (coercingValueIter vi js caseFlat i) (coercingValueIter vi' js caseFlat (i + length cvs))"
  using assms
proof (induction cvs arbitrary: xs vi i)
  case (Cons cv cvs)
  obtain x xs' where x: "xs = x # xs'" using Cons.prems(2) by (cases xs) auto
  obtain vi1 where n: "Next vi = Inr (x, vi1)" "reads xs' vi1 vi'" using Cons.prems(1) x by auto
  have d: "deCoerceValue x (js ! i) (caseFlat ! i) = Inr cv" using Cons.prems(5) x by force
  have "\<forall>k < length cvs. deCoerceValue (xs' ! k) (js ! (Suc i + k)) (caseFlat ! (Suc i + k)) = Inr (cvs ! k)"
    using Cons.prems(5) x by force
  then have "reads cvs (coercingValueIter vi1 js caseFlat (Suc i)) (coercingValueIter vi' js caseFlat (Suc i + length cvs))"
    using Cons.prems n x by (intro Cons.IH) auto
  then show ?case using n d Cons.prems(3,4) by simp
qed simp

section \<open>Primitives\<close>

lemma ucast_ucast8: "(ucast (ucast (x :: u8) :: u32) :: u8) = x" "(ucast (ucast (y :: 16 word) :: u32) :: 16 word) = y"
  by (rule bit_word_eqI, simp add: bit_simps)+

lemma and_FF: "i AND 0xFF = ucast (ucast i :: u8)" "i AND 0xFFFF = ucast (ucast i :: 16 word)" for i :: u32
proof -
  have "i AND mask 8 = ucast (ucast i :: u8)" "i AND mask 16 = ucast (ucast i :: 16 word)"
    by (rule bit_word_eqI, auto simp: bit_simps)+
  moreover have "(0xFF :: u32) = mask 8" "(0xFFFF :: u32) = mask 16" by (simp_all add: mask_eq_exp_minus_1)
  ultimately show "i AND 0xFF = ucast (ucast i :: u8)" "i AND 0xFFFF = ucast (ucast i :: 16 word)" by simp_all
qed

lemma scast_small:
  "ucast x < (0x80 :: u32) \<Longrightarrow> scast x = (ucast x :: u32)" for x :: u8
proof (rule bit_word_eqI)
  fix n assume x: "ucast x < (0x80 :: u32)" and n: "n < LENGTH(32)"
  have "unat (ucast x :: u32) < 2 ^ 7" using x by (simp add: word_less_nat_alt)
  from small_bits [OF this, of 7] have "\<not> bit x 7" by (auto simp: bit_simps)
  moreover have "n < 7 \<or> n = 7 \<or> 8 \<le> n" by auto
  ultimately show "bit (scast x :: u32) n = bit (ucast x :: u32) n" using n by (auto simp: bit_simps dest: bit_imp_le_length)
qed

lemma scast_ucast8: "(ucast (scast (x :: u8) :: u32) :: u8) = x" "(ucast (scast (y :: 16 word) :: u32) :: 16 word) = y"
proof -
  have "n < 8 \<Longrightarrow> n = 7 \<or> n < 7" "n < 16 \<Longrightarrow> n = 15 \<or> n < 15" for n :: nat by auto
  then show "(ucast (scast (x :: u8) :: u32) :: u8) = x" "(ucast (scast (y :: 16 word) :: u32) :: 16 word) = y"
   by (intro bit_word_eqI, force simp add: bit_simps min_def)+
qed

lemma scast_small16:
  "ucast x < (0x8000 :: u32) \<Longrightarrow> scast x = (ucast x :: u32)" for x :: "16 word"
proof (rule bit_word_eqI)
  fix n assume x: "ucast x < (0x8000 :: u32)" and n: "n < LENGTH(32)"
  have "unat (ucast x :: u32) < 2 ^ 15" using x by (simp add: word_less_nat_alt)
  from small_bits [OF this, of 15] have "\<not> bit x 15" by (auto simp: bit_simps)
  moreover have "n < 15 \<or> n = 15 \<or> 16 \<le> n" by auto
  ultimately show "bit (scast x :: u32) n = bit (ucast x :: u32) n" using n by (auto simp: bit_simps dest: bit_imp_le_length)
qed

lemma wraps_out [simp]: "(if c then i + push_bit 32 1 else i) = (i :: u32)" "(if c then w + push_bit 64 1 else w) = (w :: u64)"
  by simp_all

lemma lift_lower_scalar:
  assumes "lowerPrimitiveCore v p = Inr cv" "prim_typed p v" "p \<noteq> ''string''"
  shows "liftScalarPrimitive cv p = Inr v"
proof (cases v)
  case (VU32 u)
  then consider "p = ''u8''" "u < 256" | "p = ''u16''" "u < 65536" | "p = ''u32''" | "p = ''error-context''" using assms(2) by (auto simp: prim_typed_def)
  then show ?thesis using assms(1) VU32
    by cases (auto simp: lowerPrimitiveCore_def liftScalarPrimitive_def and_FF narrow_u8 narrow_u16)
next
  case (VS32 i)
  then consider "p = ''s8''" "-128 \<le> sint i" "sint i < 128" | "p = ''s16''" "-32768 \<le> sint i" "sint i < 32768" | "p = ''s32''" | "p = ''char''"
    using assms(2) by (auto simp: prim_typed_def)
  then show ?thesis
  proof cases
    case 1
    have "scast (ucast i :: u8) = i" using 1 by (intro narrow_s8)
    then show ?thesis using 1 VS32 assms(1) scast_small [of "ucast i"]
      by (auto simp: lowerPrimitiveCore_def liftScalarPrimitive_def and_FF ucast_ucast8 Let_def not_le wraps_out simp del: push_bit_of_1)
  next
    case 2
    have "scast (ucast i :: 16 word) = i" using 2 by (intro narrow_s16)
    then show ?thesis using 2 VS32 assms(1) scast_small16 [of "ucast i"]
      by (auto simp: lowerPrimitiveCore_def liftScalarPrimitive_def and_FF ucast_ucast8 Let_def not_le wraps_out simp del: push_bit_of_1)
  next
    case 3
    then show ?thesis using VS32 assms(1) by (auto simp: lowerPrimitiveCore_def liftScalarPrimitive_def)
  next
    case 4
    then show ?thesis using VS32 assms(1) check_rune_char [of i] by (auto simp: lowerPrimitiveCore_def liftScalarPrimitive_def lowerChar_def liftChar_def)
  qed
qed (use assms in \<open>auto simp: prim_typed_def lowerPrimitiveCore_def liftScalarPrimitive_def\<close>)

section \<open>What is lowered is lifted\<close>

lemma liftsI: "(\<And>vi vi' flat. reads cvs vi vi' \<Longrightarrow> flat = None \<or> flat = Some ks \<Longrightarrow> li vi t flat = Inr (v, vi')) \<Longrightarrow> lifts li t ks cvs v"
  unfolding lifts_def by blast

lemma liftsD: "lifts li t ks cvs v \<Longrightarrow> reads cvs vi vi' \<Longrightarrow> flat = None \<or> flat = Some ks \<Longrightarrow> li vi t flat = Inr (v, vi')"
  unfolding lifts_def by blast

lemma flat_okD:
  "flat_ok own fl wt lo li \<Longrightarrow> lo v t flat st = Inr (cvs, st') \<Longrightarrow> fl t = Inr ks \<Longrightarrow> length ks \<le> 16 \<Longrightarrow> flat = None \<or> flat = Some ks \<Longrightarrow>
   wt t v \<Longrightarrow> length (fst st) < 2 ^ 32 \<Longrightarrow> stored own {} st st' (\<lambda>m. lifts (li m) t ks cvs v)"
  unfolding flat_ok_def by blast

lemma stored_len: "stored own A st st' Q \<Longrightarrow> length (fst st') < 2 ^ 32"
  by (simp add: stored_def)

lemma stored_then:
  assumes "stored own {} st st1 P" "stored own {} st1 st2 Q" "\<And>m. P m \<Longrightarrow> Q m \<Longrightarrow> Q' m"
  shows "stored own {} st st2 Q'"
  using stored_seq [OF assms(1,2)] by (rule stored_mono) (use assms(3) in auto)

lemma stored_const: "length (fst st) < 2 ^ 32 \<Longrightarrow> (\<And>m. Q m) \<Longrightarrow> stored own {} st st Q"
  by (rule stored_mono [OF stored_refl]) auto

lemma lower_fields_stored:
  assumes c: "flat_ok own fl wt lo li" and fs: "vias r fl trs = Inr fs" "length (concat fs) \<le> 16"
    and s: "lower_fields r lo trs vs st = Inr (cvs, st')" "list_all2 (typed_ref r wt) trs vs" "length (fst st) < 2 ^ 32"
  shows "stored own {} st st' (\<lambda>m. \<forall>vi vi'. reads cvs vi vi' \<longrightarrow> lift_fields r (li m) trs vi = Inr (vs, vi'))"
  using fs s
proof (induction trs arbitrary: vs fs cvs st)
  case (Cons tr trs)
  obtain v vs' where v: "vs = v # vs'" "typed_ref r wt tr v" "list_all2 (typed_ref r wt) trs vs'" using Cons.prems(4) by (cases vs) auto
  obtain u f fs' where u: "resolveType r (Some tr) = Inr u" "fl u = Inr f" "vias r fl trs = Inr fs'" "fs = f # fs'"
    using Cons.prems(1) by (auto simp: via_def)
  obtain a st1 b where l: "lo v u None st = Inr (a, st1)" "lower_fields r lo trs vs' st1 = Inr (b, st')" "cvs = a @ b"
    using Cons.prems(3) v u(1) by (auto simp: abiE_def split: prod.splits)
  have 1: "stored own {} st st1 (\<lambda>m. lifts (li m) u f a v)"
    by (rule flat_okD [OF c l(1) u(2)]) (use Cons.prems u v in \<open>auto simp: typed_ref_def\<close>)
  have 2: "stored own {} st1 st' (\<lambda>m. \<forall>vi vi'. reads b vi vi' \<longrightarrow> lift_fields r (li m) trs vi = Inr (vs', vi'))"
    by (rule Cons.IH [OF u(3) _ l(2) v(3) stored_len [OF 1]]) (use Cons.prems(2) u(4) in auto)
  show ?case
    by (rule stored_then [OF 1 2]) (use u(1) v(1) l(3) in \<open>auto simp: reads_append liftsD\<close>)
qed (auto intro: stored_const)

lemma lower_elems_stored:
  assumes c: "flat_ok own fl wt lo li" and f: "fl t = Inr f" "length (concat (replicate (length vs) f)) \<le> 16"
    and s: "lower_elems lo t vs st = Inr (cvs, st')" "list_all (wt t) vs" "length (fst st) < 2 ^ 32"
  shows "stored own {} st st' (\<lambda>m. \<forall>vi vi'. reads cvs vi vi' \<longrightarrow> lift_elems (li m) t (length vs) vi = Inr (vs, vi'))"
  using f(2) s
proof (induction vs arbitrary: cvs st)
  case (Cons v vs)
  obtain a st1 b where l: "lo v t None st = Inr (a, st1)" "lower_elems lo t vs st1 = Inr (b, st')" "cvs = a @ b"
    using Cons.prems(2) by (auto split: prod.splits)
  have 1: "stored own {} st st1 (\<lambda>m. lifts (li m) t f a v)"
    by (rule flat_okD [OF c l(1) f(1)]) (use Cons.prems in auto)
  have 2: "stored own {} st1 st' (\<lambda>m. \<forall>vi vi'. reads b vi vi' \<longrightarrow> lift_elems (li m) t (length vs) vi = Inr (vs, vi'))"
    by (rule Cons.IH [OF _ l(2) _ stored_len [OF 1]]) (use Cons.prems(1,3) in auto)
  show ?case
    by (rule stored_then [OF 1 2]) (use l(3) in \<open>auto simp: reads_append liftsD\<close>)
qed (auto intro: stored_const)

lemma lower_payload_stored:
  assumes c: "flat_ok own fl wt lo li" "kinds_ok fl lo"
    and f: "\<And>tr u f. ref = Some tr \<Longrightarrow> resolveType r (Some tr) = Inr u \<Longrightarrow> fl u = Inr f \<Longrightarrow>
      length f \<le> length js \<and> list_all2 joins_to f (take (length f) js)"
    and js: "set js \<subseteq> set core_kinds" "length js \<le> 16" and wt: "case ref of None \<Rightarrow> v = VNil | Some tr \<Rightarrow> typed_ref r wt tr v"
    and s: "lower_payload r fl lo ref v js st = Inr (cvs, st')" and len: "length (fst st) < 2 ^ 32"
  shows "stored own {} st st' (\<lambda>m. \<forall>vi vi'. reads cvs vi vi' \<longrightarrow> lift_payload r fl (li m) ref js vi = Inr (v, vi'))"
proof (cases ref)
  case None
  have z: "st' = st" "mapE zeroCoreValueForKind js = Inr cvs" using s None by (auto simp: lower_payload_def pad_def)
  then have "length cvs = length js" using zeros_typed [OF js(1)] by (auto dest: list_all2_lengthD)
  then show ?thesis using None wt len z(1) reads_skip [of cvs]
    by (auto intro!: stored_const simp: lift_payload_def released_def)
next
  case (Some tr)
  then obtain u f a xs where u: "resolveType r (Some tr) = Inr u" "fl u = Inr f" "lo v u (Some f) st = Inr (a, st')"
    "coerce_all a f js = Inr xs" "pad js xs = Inr cvs"
    using s by (auto simp: lower_payload_def abiE_def split: prod.splits sum.splits)
  note j = f [OF Some u(1,2)]
  have t: "list_all2 typed_cv f a" by (rule kinds_okD [OF c(2) u(3,2)]) (use j js in auto)
  have len_a: "length f = length a" using t by (rule list_all2_lengthD)
  have x: "length xs = length a" "list_all2 typed_cv (take (length f) js) xs" "\<forall>i < length a. deCoerceValue (xs ! i) (js ! i) (f ! i) = Inr (a ! i)"
    using coerce_all_typed [OF t conjunct1 [OF j] conjunct2 [OF j]] u(4) by auto
  obtain zs where zs: "cvs = xs @ zs" "length zs = length js - length a"
    using pad_typed [of xs js] x(1,2) len_a j js(1) u(5) by (fastforce dest: list_all2_lengthD)
  have 1: "stored own {} st st' (\<lambda>m. lifts (li m) u f a v)"
    by (rule flat_okD [OF c(1) u(3,2)]) (use j js wt Some u(1) len in \<open>auto simp: typed_ref_def\<close>)
  have "lift_payload r fl (li m) ref js vi = Inr (v, vi')" if m: "lifts (li m) u f a v" and rd: "reads cvs vi vi'" for m vi vi'
  proof -
    obtain vi1 where r1: "reads xs vi vi1" "reads zs vi1 vi'" using rd zs(1) by (auto simp: reads_append)
    have "reads a (coercingValueIter vi js f 0) (coercingValueIter vi1 js f (0 + length a))"
      by (rule reads_coercing [OF r1(1)]) (use x j len_a in auto)
    from liftsD [OF m this, of "Some f"] show ?thesis
      using Some u(1,2) reads_skip [OF r1(2)] zs(2) by (simp add: lift_payload_def released_def abiE_def)
  qed
  then show ?thesis by (intro stored_mono [OF 1]) auto
qed

lemma liftFixed_lower:
  assumes "mapE lower xs = Inr cvs" "\<And>x cv. x \<in> set xs \<Longrightarrow> lower x = Inr cv \<Longrightarrow> lift cv = Inr x" "reads cvs vi vi'"
  shows "liftFixed lift (length xs) vi = Inr (xs, vi')"
  using assms
proof (induction xs arbitrary: cvs vi)
  case (Cons x xs)
  then obtain cv cvs' where c: "lower x = Inr cv" "mapE lower xs = Inr cvs'" "cvs = cv # cvs'" by auto
  obtain vi1 where r: "Next vi = Inr (cv, vi1)" "reads cvs' vi1 vi'" using Cons.prems(3) c(3) by auto
  have "liftFixed lift (length xs) vi1 = Inr (xs, vi')" using Cons.IH [OF c(2) _ r(2)] Cons.prems(2) by simp
  then show ?case using r(1) Cons.prems(2) [of x cv] c(1) by simp
qed simp

lemma lowerFixed_lifts:
  assumes "lowerFixed xs n lower = Inr cvs" "\<And>x cv. lower x = Inr cv \<Longrightarrow> lift cv = Inr x" "reads cvs vi vi'"
  shows "into c (liftFixed lift (unat n) vi) = Inr (c xs, vi')"
proof -
  have "mapE lower xs = Inr cvs" "length xs = unat n" using assms(1) by (auto simp: lowerFixed_def split: if_splits)
  then show ?thesis using liftFixed_lower [of lower xs cvs lift vi vi'] assms(2,3) by (simp add: into_def)
qed

lemma lift_lowerChar: "lowerChar x = Inr cv \<Longrightarrow> liftChar cv = Inr x"
  using check_rune_char [of x] by (auto simp: lowerChar_def liftChar_def)

lemma lowerFixedScalars_lifts:
  assumes "lowerFixedScalars v p n = Some (Inr cvs)" "p \<in> set scalar_prims" "reads cvs vi vi'"
  shows "liftFixedScalars vi p n = Some (Inr (v, vi'))"
  using assms(2) assms(1) unfolding scalar_prims_def list.set
  by (elim insertE emptyE) (auto simp: lowerFixedScalars_def liftFixedScalars_def ucast_ucast8 scast_ucast8 lift_lowerChar split: val.splits if_splits
      intro!: lowerFixed_lifts [OF _ _ assms(3)])

lemma not_scalar_flat:
  assumes "\<not> is_scalar t"
  shows "Option.bind (scalarPrim t) (\<lambda>p. lowerFixedScalars v p n) = None" "Option.bind (scalarPrim t) (\<lambda>p. liftFixedScalars vi p n) = None"
  using assms by (auto simp: is_scalar_def scalar_prims_def scalarPrim_def lowerFixedScalars_def liftFixedScalars_def split: type_desc.splits)

lemma lowerFlatFixedList_stored:
  assumes c: "flat_ok own fl wt lo li" and f: "fl t = Inr f" "length (concat (replicate (unat n) f)) \<le> 16"
    and s: "lowerFlatFixedList lo v n t st = Inr (cvs, st')" and wt: "typed_list g wt t v" and len: "length (fst st) < 2 ^ 32"
  shows "stored own {} st st' (\<lambda>m. \<forall>vi vi'. reads cvs vi vi' \<longrightarrow> liftFlatFixedList (li m) vi n t = Inr (v, vi'))"
proof (cases "is_scalar t")
  case True
  obtain p k where p: "t = PrimitiveDesc p" "p \<in> set scalar_prims" "scalarPrim t = Some p" "slice_len v = Some k"
    using typed_list_slice [OF wt True] .
  have "v \<noteq> VList vs" for vs using p(4) by (auto simp: slice_len_def)
  then obtain "st' = st" "lowerFixedScalars v p n = Some (Inr cvs)" using s p(3) by (auto simp: lowerFlatFixedList_def split: option.splits val.splits)
  then show ?thesis using lowerFixedScalars_lifts [OF _ p(2)] p(3) len by (auto intro!: stored_const simp: liftFlatFixedList_def)
next
  case False
  obtain vs where vs: "v = VList vs" "list_all (wt t) vs" using typed_list_elems [OF wt False] .
  have l: "length vs = unat n" "lower_elems lo t vs st = Inr (cvs, st')"
    using s vs(1) not_scalar_flat(1) [OF False] by (auto simp: lowerFlatFixedList_def split: if_splits)
  show ?thesis
    by (rule stored_mono [OF lower_elems_stored [OF c f(1) _ l(2) vs(2) len]])
      (use f(2) l(1) vs(1) not_scalar_flat(2) [OF False] in \<open>auto simp: liftFlatFixedList_def into_def\<close>)
qed

lemma ptr_len_reads:
  assumes "ptr_len res = Inr (cvs, st')"
  obtains p k where "res = Inr (p, k, st')" "cvs = [NewCoreValueI32 p, NewCoreValueI32 k]"
  using assms by (auto simp: ptr_len_def split: prod.splits)

lemma next_pair_reads: "reads [a, b] vi vi' \<Longrightarrow> next_pair vi = Inr (a, b, vi')"
  by (auto simp: next_pair_def)

lemma lowerFlatPrimitive_stored:
  assumes ok: "allocator_ok own R" and s: "lowerFlatPrimitive R v p st = Inr (cvs, st')" and ty: "prim_typed p v" and len: "length (fst st) < 2 ^ 32"
  shows "stored own {} st st' (\<lambda>m. \<forall>vi vi'. reads cvs vi vi' \<longrightarrow> liftFlatPrimitive m vi p = Inr (v, vi'))"
proof (cases "p = ''string''")
  case True
  then obtain b where b: "v = VString b" "utf8_valid b" using ty by (auto simp: prim_typed_def split: val.splits)
  then have "ptr_len (allocStoreBytes R b st) = Inr (cvs, st')" using s True by (simp add: lowerFlatPrimitive_def lowerFlatString_def allocStoreString_def)
  then obtain q k where q: "allocStoreBytes R b st = Inr (q, k, st')" "cvs = [NewCoreValueI32 q, NewCoreValueI32 k]" by (rule ptr_len_reads)
  have st: "unat k = length b" "stored own {} st st' (\<lambda>m. has m q b)" using allocStoreBytes_stored [OF ok q(1) len] by auto
  have "loadStringFromRange m q k = Inr b" if "length m < 2 ^ 32" "has m q b" for m
    using has_in_bounds [OF that(2) st(1)[symmetric] that(1)] slice_has [OF that(2,1) st(1)[symmetric]] b(2) by (simp add: loadStringFromRange_def)
  then show ?thesis
    using q(2) True b(1) by (intro stored_mono [OF st(2)]) (auto simp: liftFlatPrimitive_def liftFlatString_def next_pair_def)
next
  case False
  then obtain cv where "lowerPrimitiveCore v p = Inr cv" "cvs = [cv]" "st' = st" using s by (auto simp: lowerFlatPrimitive_def)
  then show ?thesis using lift_lower_scalar [OF _ ty False] False len by (auto intro!: stored_const simp: liftFlatPrimitive_def)
qed

lemma lowerFlatList_stored:
  assumes ok: "allocator_ok own R" and c: "child_ok own f wt ld sto" and w: "walks f al sz" and wt: "typed_list f wt t v"
    and len: "length (fst st) < 2 ^ 32" and s: "lowerFlatList R al sz sto v t st = Inr (cvs, st')"
  shows "stored own {} st st' (\<lambda>m. \<forall>vi vi'. reads cvs vi vi' \<longrightarrow> liftFlatList al sz (ld m) m vi t = Inr (v, vi'))"
proof -
  obtain q k where q: "allocStoreAnyList R al sz sto v t st = Inr (q, k, st')" "cvs = [NewCoreValueI32 q, NewCoreValueI32 k]"
    using s unfolding lowerFlatList_def by (rule ptr_len_reads)
  show ?thesis
    by (rule stored_mono [OF allocStoreAnyList_stored [OF ok c w wt len q(1)]]) (use q(2) in \<open>auto simp: liftFlatList_def next_pair_def\<close>)
qed

lemma lowerFlatVariant_stored:
  assumes c: "flat_ok own fl wt lo li" "kinds_ok fl lo" and k: "\<And>u f. fl u = Inr f \<Longrightarrow> set f \<subseteq> set core_kinds"
    and f: "flattenVariant r fl cs = Inr ks" "length ks \<le> 16" "set ks \<subseteq> set core_kinds"
    and own: "own_flat r fw fl (VariantDesc cs) flat = Inr ks" "\<And>flat. flat = None \<or> flat = Some ks \<Longrightarrow> own_flat r fw fl (VariantDesc cs) flat = Inr ks"
    and wt: "case snd (cs ! unat i) of None \<Rightarrow> x = VNil | Some tr \<Rightarrow> typed_ref r wt tr x" and len: "length (fst st) < 2 ^ 32"
    and s: "lowerFlatVariant r fw fl lo (VVariant i x) cs flat st = Inr (cvs, st')"
  shows "stored own {} st st' (\<lambda>m. \<forall>vi vi' flat. reads cvs vi vi' \<longrightarrow> flat = None \<or> flat = Some ks \<longrightarrow>
    liftFlatVariant r fw fl (li m) vi cs flat = Inr (VVariant i x, vi'))"
proof -
  have i: "unat i < length cs" using s by (auto simp: lowerFlatVariant_def split: if_splits)
  obtain js a where j: "joined_flat ks = Inr js" "lower_payload r fl lo (snd (cs ! unat i)) x js st = Inr (a, st')" "cvs = NewCoreValueI32 i # a"
    using s i own(1) by (auto simp: lowerFlatVariant_def split: prod.splits)
  have ks: "ks = ''i32'' # js" using j(1) by (auto simp: joined_flat_def split: list.splits if_splits)
  have "stored own {} st st' (\<lambda>m. \<forall>vi vi'. reads a vi vi' \<longrightarrow> lift_payload r fl (li m) (snd (cs ! unat i)) js vi = Inr (x, vi'))"
    by (rule lower_payload_stored [OF c _ _ _ wt j(2) len]) (use variant_payload_joins [OF f(1) k j(1) i] f(2,3) ks in auto)
  then show ?thesis
    by (rule stored_mono) (use own(2) j i in \<open>auto simp: liftFlatVariant_def not_le simp del: bindE_eq_Inr\<close>)
qed

lemma lowerFlatResult_stored:
  assumes c: "flat_ok own fl wt lo li" "kinds_ok fl lo" and k: "\<And>u f. fl u = Inr f \<Longrightarrow> set f \<subseteq> set core_kinds"
    and f: "flattenResult r fl ok er = Inr ks" "length ks \<le> 16" "set ks \<subseteq> set core_kinds"
    and own: "own_flat r fw fl (ResultDesc ok er) flat = Inr ks" "\<And>flat. flat = None \<or> flat = Some ks \<Longrightarrow> own_flat r fw fl (ResultDesc ok er) flat = Inr ks"
    and wt: "case (if b then er else ok) of None \<Rightarrow> x = VNil | Some tr \<Rightarrow> typed_ref r wt tr x" and len: "length (fst st) < 2 ^ 32"
    and s: "lowerFlatResult r fw fl lo (VResult b x) ok er flat st = Inr (cvs, st')"
  shows "stored own {} st st' (\<lambda>m. \<forall>vi vi' flat. reads cvs vi vi' \<longrightarrow> flat = None \<or> flat = Some ks \<longrightarrow>
    liftFlatResult r fw fl (li m) vi ok er flat = Inr (VResult b x, vi'))"
proof -
  obtain js a where j: "joined_flat ks = Inr js" "lower_payload r fl lo (if b then er else ok) x js st = Inr (a, st')"
    "cvs = NewCoreValueI32 (if b then 1 else 0) # a"
    using s own(1) by (auto simp: lowerFlatResult_def split: prod.splits)
  have ks: "ks = ''i32'' # js" using j(1) by (auto simp: joined_flat_def split: list.splits if_splits)
  have "stored own {} st st' (\<lambda>m. \<forall>vi vi'. reads a vi vi' \<longrightarrow> lift_payload r fl (li m) (if b then er else ok) js vi = Inr (x, vi'))"
    by (rule lower_payload_stored [OF c _ _ _ wt j(2) len]) (use result_payload_joins [OF f(1) k j(1), where b = b] f(2,3) ks in auto)
  then show ?thesis
    by (rule stored_mono) (use own(2) j in \<open>auto simp: liftFlatResult_def simp del: bindE_eq_Inr split: if_splits\<close>)
qed

lemma lowerFlatOption_stored:
  assumes c: "flat_ok own fl wt lo li" and k: "set g \<subseteq> set core_kinds" and f: "fl u = Inr g" "length g \<le> 16" and fw: "fw u = Inr (length g)"
    and ef: "ef = None \<or> ef = Some g" and wt: "v = VNil \<or> wt u v" and len: "length (fst st) < 2 ^ 32"
    and s: "lowerFlatOption fl lo v u ef st = Inr (cvs, st')"
  shows "stored own {} st st' (\<lambda>m. \<forall>vi vi' ef. reads cvs vi vi' \<longrightarrow> ef = None \<or> ef = Some g \<longrightarrow> liftFlatOption fw (li m) vi u ef = Inr (v, vi'))"
proof (cases "v = VNil")
  case True
  then obtain zs where z: "mapE zeroCoreValueForKind g = Inr zs" "cvs = NewCoreValueI32 0 # zs" "st' = st"
    using s ef f(1) by (auto simp: lowerFlatOption_def abiE_def split: option.splits)
  then have "length zs = length g" using zeros_typed [OF k] by (auto dest: list_all2_lengthD)
  then have "skip (length g) vi = Inr vi'" if "reads zs vi vi'" for vi vi' using reads_skip [OF that] by simp
  then show ?thesis using z True len fw by (auto intro!: stored_const simp: liftFlatOption_def abiE_def simp del: bindE_eq_Inr)
next
  case False
  then obtain a where a: "lo v u ef st = Inr (a, st')" "cvs = NewCoreValueI32 1 # a" using s by (auto simp: lowerFlatOption_def split: prod.splits)
  have "stored own {} st st' (\<lambda>m. lifts (li m) u g a v)" using flat_okD [OF c a(1) f ef] wt False len by blast
  then show ?thesis by (rule stored_mono) (use a(2) in \<open>auto simp: liftFlatOption_def liftsD simp del: bindE_eq_Inr\<close>)
qed

lemma lower_body_stored:
  assumes ok: "allocator_ok own R" and c: "flat_ok own fl wt lo li" "kinds_ok fl lo" and k: "\<And>u f. fl u = Inr f \<Longrightarrow> set f \<subseteq> set core_kinds"
    and ks: "set ks \<subseteq> set core_kinds" and ch: "child_ok own lay wt ld sto" and w: "walks lay al sz"
    and fw: "widths fw fl" "positive_lists r"
    and f: "Flatten_body r fw fl t = Inr ks" "length ks \<le> 16" and flat: "flat = None \<or> flat = Some ks"
    and wt: "typed_node r lay wt t v" and len: "length (fst st) < 2 ^ 32"
    and s: "lower_body r R fw fl al sz sto lo v t flat st = Inr (cvs, st')"
  shows "stored own {} st st' (\<lambda>m. lifts (lift_body r fw fl al sz (ld m) (li m) m) t ks cvs v)"
proof -
  have of: "own_flat r fw fl t flat = Inr ks" if "flat = None \<or> flat = Some ks" for flat using f(1) that by (auto simp: own_flat_def abiE_def)
  show ?thesis
  proof (cases t)
    case (PrimitiveDesc p)
    then have "stored own {} st st' (\<lambda>m. \<forall>vi vi'. reads cvs vi vi' \<longrightarrow> liftFlatPrimitive m vi p = Inr (v, vi'))"
      using s wt by (intro lowerFlatPrimitive_stored [OF ok _ _ len]) (auto simp: lower_body_def typed_node_def)
    then show ?thesis by (rule stored_mono) (use PrimitiveDesc in \<open>auto intro!: liftsI simp: lift_body_def\<close>)
  next
    case (ListDesc e)
    then obtain u where u: "resolveType r (Some e) = Inr u" "typed_list lay wt u v" using wt typed_ref_resolved by (fastforce simp: typed_node_def)
    have "stored own {} st st' (\<lambda>m. \<forall>vi vi'. reads cvs vi vi' \<longrightarrow> liftFlatList al sz (ld m) m vi u = Inr (v, vi'))"
      using s u(1) ListDesc by (intro lowerFlatList_stored [OF ok ch w u(2) len]) (simp add: lower_body_def)
    then show ?thesis by (rule stored_mono) (use ListDesc u(1) in \<open>auto intro!: liftsI simp: lift_body_def\<close>)
  next
    case (MapDesc key val)
    have "stored own {} st st' (\<lambda>m. \<forall>vi vi'. reads cvs vi vi' \<longrightarrow> liftFlatList al sz (ld m) m vi (mapElemType key val) = Inr (v, vi'))"
      using s MapDesc wt by (intro lowerFlatList_stored [OF ok ch w _ len]) (simp_all add: lower_body_def typed_node_def)
    then show ?thesis by (rule stored_mono) (use MapDesc in \<open>auto intro!: liftsI simp: lift_body_def\<close>)
  next
    case (FixedListDesc e n)
    then obtain u g where u: "resolveType r (Some e) = Inr u" "fl u = Inr g" "ks = concat (replicate (fixedListCopies (length g) n) g)"
      using f(1) by (auto simp: Flatten_body_def flattenFixedList_def via_def Let_def)
    then have g: "length (concat (replicate (unat n) g)) \<le> 16" using f(2) copies_exact [of g n] by metis
    have l: "lowerFlatFixedList lo v n u st = Inr (cvs, st')" using s FixedListDesc u(1) by (simp add: lower_body_def)
    have "typed_list lay wt u v" using wt FixedListDesc u(1) by (simp add: typed_node_def typed_ref_def)
    from lowerFlatFixedList_stored [OF c(1) u(2) g l this len] show ?thesis
      by (rule stored_mono) (use FixedListDesc u(1) in \<open>auto intro!: liftsI simp: lift_body_def\<close>)
  next
    case (RecordDesc fs)
    then obtain gs where g: "vias r fl (map snd fs) = Inr gs" "ks = concat gs"
      using f(1) by (auto simp: Flatten_body_def flattenRecord_def append_flats_concat)
    obtain vs where vs: "v = VList vs" "list_all2 (typed_ref r wt) (map snd fs) vs" using wt RecordDesc by (auto simp: typed_node_def split: val.splits)
    then have "lower_fields r lo (map snd fs) vs st = Inr (cvs, st')" using s RecordDesc by (auto simp: lower_body_def lowerFlatRecord_def split: if_splits)
    from lower_fields_stored [OF c(1) g(1) f(2) [unfolded g(2)] this vs(2) len] show ?thesis
      by (rule stored_mono) (use RecordDesc vs(1) in \<open>auto intro!: liftsI simp: lift_body_def liftFlatRecord_def\<close>)
  next
    case (TupleDesc es)
    then obtain gs where g: "vias r fl es = Inr gs" "ks = concat gs"
      using f(1) by (auto simp: Flatten_body_def flattenTuple_def append_flats_concat)
    obtain vs where vs: "v = VList vs" "list_all2 (typed_ref r wt) es vs" using wt TupleDesc by (auto simp: typed_node_def split: val.splits)
    then have "lower_fields r lo es vs st = Inr (cvs, st')" using s TupleDesc by (auto simp: lower_body_def lowerFlatTuple_def split: if_splits)
    from lower_fields_stored [OF c(1) g(1) f(2) [unfolded g(2)] this vs(2) len] show ?thesis
      by (rule stored_mono) (use TupleDesc vs(1) in \<open>auto intro!: liftsI simp: lift_body_def liftFlatTuple_def\<close>)
  next
    case (VariantDesc cs)
    then obtain i x where v: "v = VVariant i x" "case snd (cs ! unat i) of None \<Rightarrow> x = VNil | Some tr \<Rightarrow> typed_ref r wt tr x"
      using wt by (auto simp: typed_node_def split: val.splits)
    have "stored own {} st st' (\<lambda>m. \<forall>vi vi' flat. reads cvs vi vi' \<longrightarrow> flat = None \<or> flat = Some ks \<longrightarrow>
        liftFlatVariant r fw fl (li m) vi cs flat = Inr (VVariant i x, vi'))"
      by (rule lowerFlatVariant_stored [OF c k _ f(2) ks of [OF flat, unfolded VariantDesc] of [unfolded VariantDesc] v(2) len])
        (use f(1) s VariantDesc v(1) in \<open>auto simp: Flatten_body_def lower_body_def\<close>)
    then show ?thesis by (rule stored_mono) (use VariantDesc v(1) in \<open>auto intro!: liftsI simp: lift_body_def\<close>)
  next
    case (ResultDesc okT er)
    then obtain b x where v: "v = VResult b x" "case (if b then er else okT) of None \<Rightarrow> x = VNil | Some tr \<Rightarrow> typed_ref r wt tr x"
      using wt by (auto simp: typed_node_def split: val.splits)
    have "stored own {} st st' (\<lambda>m. \<forall>vi vi' flat. reads cvs vi vi' \<longrightarrow> flat = None \<or> flat = Some ks \<longrightarrow>
        liftFlatResult r fw fl (li m) vi okT er flat = Inr (VResult b x, vi'))"
      by (rule lowerFlatResult_stored [OF c k _ f(2) ks of [OF flat, unfolded ResultDesc] of [unfolded ResultDesc] v(2) len])
        (use f(1) s ResultDesc v(1) in \<open>auto simp: Flatten_body_def lower_body_def\<close>)
    then show ?thesis by (rule stored_mono) (use ResultDesc v(1) in \<open>auto intro!: liftsI simp: lift_body_def\<close>)
  next
    case (OptionDesc e)
    then obtain u g where u: "resolveType r (Some e) = Inr u" "fl u = Inr g" "ks = ''i32'' # g"
      using f(1) by (auto simp: Flatten_body_def flattenOption_def via_def)
    obtain ef where ef: "tail_flat flat = Inr ef" "ef = None \<or> ef = Some g" using flat u(3) by (auto simp: tail_flat_def)
    have l: "lowerFlatOption fl lo v u ef st = Inr (cvs, st')" using s OptionDesc u(1) ef(1) by (simp add: lower_body_def)
    have g: "length g \<le> 16" "fw u = Inr (length g)" using fw(1) resolve_nonempty [OF fw(2) u(1)] u(2,3) f(2) by (auto simp: widths_def maxFlatWidth_def)
    have "v = VNil \<or> wt u v" using wt OptionDesc u(1) by (auto simp: typed_node_def typed_ref_def)
    from lowerFlatOption_stored [where fw = fw and u = u, OF c(1) k [OF u(2)] u(2) g ef(2) this len l] show ?thesis
      by (rule stored_mono) (use OptionDesc u in \<open>auto intro!: liftsI simp: lift_body_def tail_flat_def\<close>)
  next
    case (FlagsDesc ns)
    then have "cvs = [NewCoreValueI32 u]" "st' = st" "v = VU32 u" "u AND flagsBitMask (length ns) = u" if "v = VU32 u" for u
      using that s wt by (auto simp: lower_body_def lowerFlatFlags_def typed_node_def)
    moreover obtain u where "v = VU32 u" using wt FlagsDesc by (auto simp: typed_node_def split: val.splits)
    moreover have "flattenFlagsNumLabels (length ns) = Inr ks" using f(1) FlagsDesc by (simp add: Flatten_body_def)
    ultimately show ?thesis using FlagsDesc len by (auto intro!: stored_const liftsI simp: lift_body_def liftFlatFlags_def)
  next
    case (EnumDesc cs)
    then obtain i where "v = VU32 i" "unat i < length cs" using wt by (auto simp: typed_node_def split: val.splits)
    then show ?thesis using EnumDesc len s by (auto intro!: stored_const liftsI simp: lower_body_def lowerFlatEnum_def lift_body_def liftFlatEnum_def)
  qed (use wt s len in \<open>auto intro!: stored_const liftsI simp: typed_node_def lower_body_def lower_handle_def lift_body_def lift_handle_def split: val.splits\<close>)
qed

lemma lowerFlatImpl_stored:
  assumes ok: "allocator_ok own R" and p: "positive_lists r"
  shows "flat_ok own (Flatten n r) (well_typed n r) (lowerFlatImpl n r R) (liftFlatImpl n r)"
proof (induction n)
  case (Suc n)
  show ?case unfolding flat_ok_def
  proof (intro allI impI)
    fix v t flat st cvs st' ks
    assume l: "lowerFlatImpl (Suc n) r R v t flat st = Inr (cvs, st')" and f: "Flatten (Suc n) r t = Inr ks" "length ks \<le> 16"
      and flat: "flat = None \<or> flat = Some ks" and wt: "well_typed (Suc n) r t v" and len: "length (fst st) < 2 ^ 32"
    have "lifts (liftFlatImpl (Suc n) r m) t ks cvs v \<longleftrightarrow>
        lifts (lift_body r (FlatWidth n r) (Flatten n r) (Alignment n r) (Size n r) (loadValue n r m) (liftFlatImpl n r m) m) t ks cvs v" for m
      by (simp add: lifts_def)
    then show "stored own {} st st' (\<lambda>m. lifts (liftFlatImpl (Suc n) r m) t ks cvs v)"
      using lower_body_stored [OF ok Suc.IH lowerFlatImpl_kinds Flatten_kinds Flatten_kinds [OF f(1)] storeValue_stored [OF ok] walks_layout
        FlatWidth_widths [OF p] p f(1) [unfolded Flatten.simps] f(2) flat wt [unfolded well_typed.simps] len l [unfolded lowerFlatImpl.simps]] by simp
  qed
qed (simp add: flat_ok_def)

section \<open>The entry points\<close>

lemma flatten_width:
  assumes "positive_lists r" "nonempty_list t" "FlatWidth n r t = Inr w"
  obtains ks where "Flatten n r t = Inr ks" "length ks = w" "w \<le> maxFlatWidth"
  using FlatWidth_widths [OF assms(1), of n] assms(2,3) unfolding widths_def by blast

lemma width_flatten:
  assumes "positive_lists r" "nonempty_list t" "Flatten n r t = Inr ks" "length ks \<le> maxFlatWidth"
  shows "FlatWidth n r t = Inr (length ks)"
  using FlatWidth_widths [OF assms(1), of n] assms(2-4) unfolding widths_def by blast

lemma lowerPrimitiveCore_prims:
  assumes "lowerPrimitiveCore v p = Inr cv"
  shows "p \<in> set [''bool'', ''u8'', ''u16'', ''u32'', ''s8'', ''s16'', ''s32'', ''u64'', ''s64'', ''f32'', ''f64'', ''char'', ''error-context'']"
  by (rule ccontr) (use assms in \<open>simp add: lowerPrimitiveCore_def\<close>)

lemma lowerPrimitiveCore_single:
  assumes "lowerPrimitiveCore v p = Inr cv"
  shows "\<exists>k. flattenPrimitive p = Inr [k]"
  using lowerPrimitiveCore_prims [OF assms] unfolding list.set
  by (elim insertE emptyE) (auto simp: flattenPrimitive_def flatKinds_defs)

text \<open>The shortcut for scalar primitives lowers what the general path would.\<close>

lemma LowerFlatInto_general:
  assumes l: "LowerFlatInto n r R dst v t st = Inr (cvs, st')" and n: "0 < n"
  shows "lower_or_spill n r R dst v t st = Inr (cvs, st')"
proof (cases "\<exists>p. t = PrimitiveDesc p \<and> p \<noteq> ''string''")
  case True
  then obtain p where p: "t = PrimitiveDesc p" "p \<noteq> ''string''" by blast
  obtain cv where cv: "lowerPrimitiveCore v p = Inr cv" "cvs = dst @ [cv]" "st' = st" using l p by (auto simp: LowerFlatInto_def)
  obtain n' where n': "n = Suc n'" using n by (cases n) auto
  have "FlatWidth n r t = Inr 1" using lowerPrimitiveCore_single [OF cv(1)] p n' by (auto simp: FlatWidth_body_def flatWidthPrimitive_def)
  then show ?thesis using cv p n' by (simp add: lower_or_spill_def MaxFlatParams_def lower_body_def lowerFlatPrimitive_def)
next
  case False
  then show ?thesis using l by (auto simp: LowerFlatInto_def split: type_desc.splits if_splits)
qed

lemma spill_stored:
  assumes ok: "allocator_ok own R" and len: "length (fst st) < 2 ^ 32" and f: "spec_layout n r t = Some (S, A)" "fits S"
    and wt: "well_typed n r t v" and s: "spillValue n r R v t st = Inr (ptr, st')"
  shows "stored own {} st st' (\<lambda>m. Load n r m ptr t = Inr v)"
proof -
  obtain c st1 where c: "CompileStore n r t = Inr c" "GrowMem R 0 0 (step_align c) (step_size c) st = Inr (ptr, st1)"
      "StoreStep_Store n r R c ptr v st1 = Inr st'"
    using s by (auto simp: spillValue_def Spill_def split: prod.splits)
  note g = GrowMem_ok [OF ok c(2) len]
  obtain s where "Size n r t = Inr s" "unat s = S" using walksD [OF walks_layout f(1)] f(2) by metis
  then have "unat (step_size c) = S" using c(1) by (auto simp: CompileStore_def)
  then have "stored own (span ptr S) st1 st' (\<lambda>m. Load n r m ptr t = Inr v)"
    using g c by (intro Store_stored [OF ok g(1) f wt]) (auto simp: Store_def)
  then show ?thesis using g \<open>unat (step_size c) = S\<close> by (intro stored_fresh) auto
qed

lemma LowerFlat_stored:
  assumes ok: "allocator_ok own R" and len: "length (fst st) < 2 ^ 32" and f: "spec_layout n r t = Some (S, A)" "fits S"
    and p: "positive_lists r" "nonempty_list t" and wt: "well_typed n r t v" and l: "LowerFlat n r R v t st = Inr (cvs, st')"
  shows "stored own {} st st' (\<lambda>m. LiftFlat n r cvs t m = Inr v)"
proof -
  have "0 < n" using wt by (cases n) auto
  then have l: "lower_or_spill n r R [] v t st = Inr (cvs, st')" using LowerFlatInto_general l by (simp add: LowerFlat_def)
  obtain w where w: "FlatWidth n r t = Inr w" using l by (auto simp: lower_or_spill_def)
  obtain ks where ks: "Flatten n r t = Inr ks" "length ks = w" using flatten_width [OF p w] .
  show ?thesis
  proof (cases "16 < w")
    case True
    then obtain ptr where q: "spillValue n r R v t st = Inr (ptr, st')" "cvs = [NewCoreValueI32 ptr]"
      using l w by (auto simp: lower_or_spill_def MaxFlatParams_def split: prod.splits)
    show ?thesis by (rule stored_mono [OF spill_stored [OF ok len f wt q(1)]]) (use q(2) w True in \<open>auto simp: LiftFlat_def MaxFlatParams_def\<close>)
  next
    case False
    then have q: "lowerFlatImpl n r R v t None st = Inr (cvs, st')"
      using l w by (auto simp: lower_or_spill_def MaxFlatParams_def split: prod.splits)
    have 1: "stored own {} st st' (\<lambda>m. lifts (liftFlatImpl n r m) t ks cvs v)"
      by (rule flat_okD [OF lowerFlatImpl_stored [OF ok p(1)] q ks(1)]) (use ks False wt len in auto)
    have "reads cvs (CoreValueIter cvs 0) (CoreValueIter cvs (length cvs))" using reads_core [of cvs "[]" "[]"] by simp
    then have "liftFlatImpl n r m (CoreValueIter cvs 0) t None = Inr (v, CoreValueIter cvs (length cvs))"
      if "lifts (liftFlatImpl n r m) t ks cvs v" for m using liftsD [OF that] by blast
    then show ?thesis by (intro stored_mono [OF 1]) (use w False in \<open>auto simp: LiftFlat_def MaxFlatParams_def\<close>)
  qed
qed

lemma stored_later: "stored own A st st' Q \<Longrightarrow> length m < 2 ^ 32 \<Longrightarrow> agree_on (own (snd st')) (fst st') m \<Longrightarrow> A \<subseteq> own (snd st') \<Longrightarrow> Q m"
  unfolding stored_def by (meson Diff_subset Un_least agree_on_mono)

lemma LowerFlatInto_typed:
  assumes l: "LowerFlatInto n r R dst v t st = Inr (cvs, st')" and p: "positive_lists r" "nonempty_list t" and ks: "Flatten n r t = Inr ks"
  shows "\<exists>xs. cvs = dst @ xs \<and> list_all2 typed_cv (if MaxFlatParams < length ks then [''i32''] else ks) xs"
proof -
  have "0 < n" using ks by (cases n) auto
  from LowerFlatInto_general [OF l this] obtain w where w: "FlatWidth n r t = Inr w" and l: "lower_or_spill n r R dst v t st = Inr (cvs, st')"
    by (auto simp: lower_or_spill_def)
  have k: "length ks = w" using flatten_width [OF p w] ks by auto
  show ?thesis
  proof (cases "MaxFlatParams < w")
    case True
    then show ?thesis using l w k by (auto simp: lower_or_spill_def split: prod.splits)
  next
    case False
    then obtain xs where "lowerFlatImpl n r R v t None st = Inr (xs, st')" "cvs = dst @ xs"
      using l w by (auto simp: lower_or_spill_def split: prod.splits)
    then show ?thesis using kinds_okD [OF lowerFlatImpl_kinds _ ks, of R v None st xs st'] False k by (auto simp: MaxFlatParams_def)
  qed
qed

lemma lower_numeral [simp]:
  "lowerFlatImpl (numeral k) r R v t flat st = lower_body r R (FlatWidth (pred_numeral k) r) (Flatten (pred_numeral k) r) (Alignment (pred_numeral k) r)
     (Size (pred_numeral k) r) (storeValue (pred_numeral k) r R) (lowerFlatImpl (pred_numeral k) r R) v t flat st"
  by (simp_all only: numeral_eq_Suc lowerFlatImpl.simps)

lemmas flatten_simps = Flatten_body_def flattenRecord_def flattenResult_def flattenOption_def FlatWidth_body_def flatWidthPrimitive_def flattenPrimitive_def
  flatKinds_defs via_def append_flats_def sum_widths_def addFlatWidth_def maxFlatWidth_def join_slots_def joinCoreTypes_def candidates_def

lemma sample_flatten: "Flatten 4 sample_resolver sample_type = Inr ok_kinds" "FlatWidth 4 sample_resolver sample_type = Inr 6"
  by (simp_all add: ok_kinds_def sample_simps flatten_simps)

lemma sample_positive: "positive_lists sample_resolver" "nonempty_list sample_type"
  by (simp_all add: positive_lists_def sample_resolver_def nonempty_list_def sample_type_def)

lemma ok_typed: "well_typed 4 sample_resolver sample_type ok_value"
proof -
  have "utf8_valid [104, 105]" by (simp add: utf8_valid.simps utf8_seq_def)
  then show ?thesis by (simp add: sample_simps ok_value_def typed_node_def typed_ref_def prim_typed_def)
qed

lemmas lower_simps = lower_body_def lowerFlatRecord_def lowerFlatPrimitive_def lowerFlatString_def ptr_len_def lowerPrimitiveCore_def
  lowerFlatOption_def lowerFlatResult_def tail_flat_def own_flat_def joined_flat_def lower_payload_def coerceValue_def pad_def abiE_def

lemma ok_LowerFlat: "LowerFlat 4 sample_resolver bump_realloc ok_value sample_type sample_store = Inr (ok_core, ok_lowered)"
proof -
  have "lowerFlatImpl 4 sample_resolver bump_realloc ok_value sample_type None sample_store = Inr (ok_core, ok_lowered)"
    by (simp add: ok_value_def ok_core_def ok_lowered_def sample_simps lower_simps flatten_simps allocStoreString_def allocStoreBytes_def GrowMem_def
        bump_realloc_def bump_def bump_next_def checkAllocated_def align_to_def write_at_def mem_len_def)
  then show ?thesis using sample_flatten(2)
    by (simp add: LowerFlat_def LowerFlatInto_def lower_or_spill_def MaxFlatParams_def sample_type_def abiE_def del: lower_numeral flat_numeral)
qed

section \<open>Properties\<close>

text \<open>
  C3. A value that was lowered to core values is lifted from them again, whether it was passed flat or spilled
  to memory, through every nesting of variants whose payloads share coerced slots; lowering changes nothing
  of the memory that the host owned.
\<close>

theorem LowerFlat_then_LiftFlat:
  assumes "allocator_ok own R" "length (fst st) < 2 ^ 32" "spec_layout n r t = Some (S, A)" "S < 2 ^ 28"
    and "positive_lists r" "nonempty_list t" "well_typed n r t v" "LowerFlat n r R v t st = Inr (cvs, st')"
  shows "own (snd st) \<subseteq> own (snd st') \<and> agree_on (own (snd st)) (fst st) (fst st') \<and>
    (\<forall>m. length m < 2 ^ 32 \<and> agree_on (own (snd st')) (fst st') m \<longrightarrow> LiftFlat n r cvs t m = Inr v)"
proof -
  have "fits S" using assms(4) by (simp add: fits_def)
  note s = LowerFlat_stored [OF assms(1-3) this assms(5-8)]
  show ?thesis using s stored_later [OF s] by (auto simp: stored_def)
qed

theorem LowerFlat_then_LiftFlat_witness:
  "LowerFlat 4 sample_resolver bump_realloc ok_value sample_type sample_store = Inr (ok_core, ok_lowered) \<and>
   LiftFlat 4 sample_resolver ok_core sample_type (fst ok_lowered) = Inr ok_value"
proof -
  have "length (fst ok_lowered) < 2 ^ 32" by (simp add: ok_lowered_def)
  then show ?thesis
    using LowerFlat_then_LiftFlat [OF bump_ok sample_owned(2) sample_layout _ sample_positive ok_typed ok_LowerFlat] ok_LowerFlat by simp
qed

text \<open>
  C15. Lowering a value appends exactly one core value for each slot of the flattened type, of the kind of that
  slot and with a zero upper half where the slot is 32 bits wide; or one pointer when the type spills.
\<close>

theorem LowerFlat_kinds:
  assumes "LowerFlatInto n r R dst v t st = Inr (cvs, st')" "positive_lists r" "nonempty_list t" "Flatten n r t = Inr ks"
  shows "\<exists>xs. cvs = dst @ xs \<and> list_all2 typed_cv (if MaxFlatParams < length ks then [''i32''] else ks) xs"
  using assms by (rule LowerFlatInto_typed)

theorem LowerFlat_kinds_witness:
  "list_all2 typed_cv ok_kinds ok_core"
proof -
  have "LowerFlatInto 4 sample_resolver bump_realloc [] ok_value sample_type sample_store = Inr (ok_core, ok_lowered)"
    using ok_LowerFlat by (simp add: LowerFlat_def)
  from LowerFlat_kinds [OF this sample_positive sample_flatten(1)] show ?thesis by (simp add: ok_kinds_def MaxFlatParams_def)
qed

end
