(* ===== verification/Abi_Flat_Plans.thy ===== *)
theory Abi_Flat_Plans
  imports Abi_Flat_Roundtrip
begin

text \<open>
  The fast paths of the flat interface against the general ones: compiled plans, which carry the flattening of the
  type with them, and the iterator over raw stack slots. The second is a simulation: \<open>iter_rel\<close> relates the two iterators, and
  lifting from related iterators gives equal values and related iterators again (\<open>lift_body_rel\<close>).
\<close>

unbundle bit_operations_syntax

section \<open>Specification vocabulary\<close>

definition same_flat :: "(type_desc \<Rightarrow> abi_error + string list) \<Rightarrow> 's lower_child \<Rightarrow> bool" where
  "same_flat fl lo \<longleftrightarrow> (\<forall>t ks v st. fl t = Inr ks \<longrightarrow> lo v t (Some ks) st = lo v t None st)"

definition tagged :: "string list \<Rightarrow> u64 list \<Rightarrow> CoreValue list" where
  "tagged kinds bits = map2 (\<lambda>k b. \<lparr>Kind = k, Bits = b\<rparr>) kinds bits"

inductive iter_rel :: "valueIter \<Rightarrow> valueIter \<Rightarrow> bool" where
  same: "iter_rel (CoreValueIter vs i) (CoreValueIter vs i)"
| stack: "length bits = length kinds \<Longrightarrow> iter_rel (CoreValueIter (tagged kinds bits) i) (stackValueIter kinds bits i)"
| coercing: "iter_rel u u' \<Longrightarrow> iter_rel (coercingValueIter u js ks i) (coercingValueIter u' js ks i)"

text \<open>The same error, or the same value and iterators that go on alike.\<close>

abbreviation same_lift :: "mem_error + 'a \<times> valueIter \<Rightarrow> mem_error + 'a \<times> valueIter \<Rightarrow> bool" where
  "same_lift \<equiv> rel_sum (=) (rel_prod (=) iter_rel)"

text \<open>The flattening a caller passes down is the type's own.\<close>

definition flats_rel :: "abi_error + string list \<Rightarrow> string list option \<Rightarrow> string list option \<Rightarrow> bool" where
  "flats_rel x f f' \<longleftrightarrow> f = f' \<or> (\<exists>ks. x = Inr ks \<and> length ks \<le> maxFlatWidth \<and> f \<in> {None, Some ks} \<and> f' \<in> {None, Some ks})"

definition lift_rel :: "(type_desc \<Rightarrow> abi_error + string list) \<Rightarrow> lift_child \<Rightarrow> bool" where
  "lift_rel fl li \<longleftrightarrow> (\<forall>vi vi' t f f'. iter_rel vi vi' \<longrightarrow> flats_rel (fl t) f f' \<longrightarrow> same_lift (li vi t f) (li vi' t f'))"

section \<open>Plans lower what the direct call lowers\<close>

lemma same_flatD: "same_flat fl lo \<Longrightarrow> fl t = Inr ks \<Longrightarrow> lo v t (Some ks) st = lo v t None st"
  unfolding same_flat_def by blast

lemma lower_body_same:
  assumes c: "same_flat fl lo" and f: "Flatten_body r fw fl t = Inr ks"
  shows "lower_body r R fw fl al sz sto lo v t (Some ks) st = lower_body r R fw fl al sz sto lo v t None st"
proof (cases t)
  case (OptionDesc e)
  then obtain u g where u: "resolveType r (Some e) = Inr u" "fl u = Inr g" "ks = ''i32'' # g"
    using f by (auto simp: Flatten_body_def flattenOption_def via_def)
  then have "lo v u (Some g) st = lo v u None st" using same_flatD [OF c] by blast
  then show ?thesis using OptionDesc u by (simp add: lower_body_def tail_flat_def lowerFlatOption_def abiE_def)
qed (use f in \<open>auto simp: lower_body_def lowerFlatVariant_def lowerFlatResult_def own_flat_def abiE_def split: val.splits\<close>)

lemma lowerFlatImpl_same: "same_flat (Flatten n r) (lowerFlatImpl n r R)"
proof (induction n)
  case (Suc n)
  then show ?case using lower_body_same [OF Suc] by (auto simp: same_flat_def)
qed (simp add: same_flat_def)

lemma lower_or_spill_handle:
  assumes "t \<in> {OwnDesc a, BorrowDesc b, StreamDesc c, FutureDesc d}" "Flatten n r t = Inr ks"
  shows "lower_or_spill n r R dst v t st = (case v of VU32 h \<Rightarrow> Inr (dst @ [NewCoreValueI32 h], st) | _ \<Rightarrow> Inl (Wrong_value ''handle''))"
proof -
  obtain n' where n: "n = Suc n'" using assms(2) by (cases n) auto
  have w: "FlatWidth n r t = Inr 1" using assms(1) n by (auto simp: FlatWidth_body_def)
  have "lowerFlatImpl n r R v t None st = lower_handle v st" using assms(1) n by (auto simp: lower_body_def)
  then show ?thesis by (cases v) (simp_all add: lower_or_spill_def w MaxFlatParams_def abiE_def lower_handle_def)
qed

lemma Lower_composite:
  assumes p: "positive_lists r" "nonempty_list t" and ks: "Flatten n r t = Inr ks" "length ks \<le> maxFlatWidth"
  shows "bindE (if MaxFlatParams < length ks then bindE (CompileStore n r t) (\<lambda>store. Inr (lowerKindComposite t ks (Some store)))
      else Inr (lowerKindComposite t ks None)) (\<lambda>s. Lower n r R s dst v st) = lower_or_spill n r R dst v t st"
proof -
  have w: "FlatWidth n r t = Inr (length ks)" using width_flatten [OF p ks] .
  have "lowerFlatImpl n r R v t (Some ks) st = lowerFlatImpl n r R v t None st" using same_flatD [OF lowerFlatImpl_same ks(1)] .
  then show ?thesis by (simp add: w Lower_def lower_or_spill_def spillValue_def abiE_def bindE_assoc)
qed

lemma Lower_handle: "Lower n r R lowerKindHandle dst v st = (case v of VU32 h \<Rightarrow> Inr (dst @ [NewCoreValueI32 h], st) | _ \<Rightarrow> Inl (Wrong_value ''handle''))"
  by (simp add: Lower_def)

lemma plan_lowers:
  assumes p: "positive_lists r" "nonempty_list t" and ks: "Flatten n r t = Inr ks" "length ks \<le> maxFlatWidth"
  shows "bindE (CompileLower n r t) (\<lambda>s. Lower n r R s dst v st) = LowerFlatInto n r R dst v t st"
proof (cases t)
  case (PrimitiveDesc q)
  obtain n' where n: "n = Suc n'" using ks(1) by (cases n) auto
  show ?thesis
  proof (cases "q = ''string''")
    case True
    then have k: "length ks = 2" using ks(1) n PrimitiveDesc by (auto simp: Flatten_body_def flattenPrimitive_def flatKinds_defs)
    have w: "FlatWidth n r t = Inr (length ks)" using width_flatten [OF p ks] .
    have i: "lowerFlatImpl n r R v t None st = lowerFlatPrimitive R v q st" using n PrimitiveDesc by (simp add: lower_body_def)
    have "lower_or_spill n r R dst v t st = bindE (lowerFlatPrimitive R v q st) (\<lambda>(flat, st). Inr (dst @ flat, st))"
      by (simp add: lower_or_spill_def w k i MaxFlatParams_def abiE_def del: lowerFlatImpl.simps)
    then show ?thesis using PrimitiveDesc True
      by (cases v) (auto simp: CompileLower_def Lower_def LowerFlatInto_def lowerFlatPrimitive_def lowerFlatString_def ptr_len_def bindE_assoc intro!: bindE_cong)
  next
    case False
    then show ?thesis using PrimitiveDesc by (simp add: CompileLower_def Lower_def LowerFlatInto_def)
  qed
qed (use Lower_composite [OF p ks, of R dst v st] lower_or_spill_handle [OF _ ks(1), of _ _ _ _ R dst v st] ks(1) in
    \<open>simp_all add: CompileLower_def LowerFlatInto_def Lower_handle abiE_def cong: if_cong split del: if_split\<close>)

section \<open>The two iterators over lifted values\<close>

lemma bindE_rel:
  assumes "rel_sum (=) P a b" "\<And>x y. P x y \<Longrightarrow> rel_sum (=) Q (f x) (g y)"
  shows "rel_sum (=) Q (bindE a f) (bindE b g)"
  using assms by (cases a; cases b) auto

lemma bindE_rel_eq: "(\<And>x. a = Inr x \<Longrightarrow> rel_sum (=) Q (f x) (g x)) \<Longrightarrow> rel_sum (=) Q (bindE a f) (bindE a g)"
  by (cases a) auto

lemma bindE_rel_iter:
  assumes "same_lift a b" "\<And>x vi vi'. iter_rel vi vi' \<Longrightarrow> rel_sum (=) Q (f (x, vi)) (g (x, vi'))"
  shows "rel_sum (=) Q (bindE a f) (bindE b g)"
  by (rule bindE_rel [OF assms(1)]) (use assms(2) in auto)

lemma lift_relD: "lift_rel fl li \<Longrightarrow> iter_rel vi vi' \<Longrightarrow> flats_rel (fl t) f f' \<Longrightarrow> same_lift (li vi t f) (li vi' t f')"
  unfolding lift_rel_def by blast

lemma flats_same [simp]: "flats_rel x f f"
  by (simp add: flats_rel_def)

lemma Next_rel: "iter_rel vi vi' \<Longrightarrow> same_lift (Next vi) (Next vi')"
proof (induction rule: iter_rel.induct)
  case (coercing u u' js ks i)
  then show ?case by (auto intro!: bindE_rel_iter [OF coercing.IH] bindE_rel_eq intro: iter_rel.intros)
qed (auto simp: tagged_def intro: iter_rel.intros stack [unfolded tagged_def])

lemma skip_rel: "iter_rel vi vi' \<Longrightarrow> rel_sum (=) iter_rel (skip k vi) (skip k vi')"
proof (induction k arbitrary: vi vi')
  case (Suc k)
  then show ?case by (auto intro!: bindE_rel_iter [OF Next_rel])
qed simp

lemma released_rel: "iter_rel vi vi' \<Longrightarrow> iter_rel (fst (released vi)) (fst (released vi')) \<and> snd (released vi) = snd (released vi')"
  by (induction rule: iter_rel.induct) (auto simp: released_def intro: iter_rel.intros)

lemma next_pair_rel: "iter_rel vi vi' \<Longrightarrow> rel_sum (=) (rel_prod (=) (rel_prod (=) iter_rel)) (next_pair vi) (next_pair vi')"
  unfolding next_pair_def by (auto intro!: bindE_rel_iter [OF Next_rel])

lemma lift_fields_rel: "lift_rel fl li \<Longrightarrow> iter_rel vi vi' \<Longrightarrow> same_lift (lift_fields r li trs vi) (lift_fields r li trs vi')"
proof (induction trs arbitrary: vi vi')
  case (Cons tr trs)
  then show ?case by (auto intro!: bindE_rel_eq bindE_rel_iter [OF lift_relD [OF Cons.prems(1)]] bindE_rel_iter [OF Cons.IH])
qed simp

lemma lift_elems_rel: "lift_rel fl li \<Longrightarrow> iter_rel vi vi' \<Longrightarrow> same_lift (lift_elems li t k vi) (lift_elems li t k vi')"
proof (induction k arbitrary: vi vi')
  case (Suc k)
  then show ?case by (auto intro!: bindE_rel_iter [OF lift_relD [OF Suc.prems(1)]] bindE_rel_iter [OF Suc.IH])
qed simp

lemma liftFixed_rel: "iter_rel vi vi' \<Longrightarrow> same_lift (liftFixed lift k vi) (liftFixed lift k vi')"
proof (induction k arbitrary: vi vi')
  case (Suc k)
  then show ?case by (auto intro!: bindE_rel_iter [OF Next_rel] bindE_rel_eq bindE_rel_iter [OF Suc.IH])
qed simp

lemma into_rel: "same_lift a b \<Longrightarrow> same_lift (into c a) (into c b)"
  unfolding into_def by (auto intro!: bindE_rel_iter)

lemma liftFixedScalars_rel:
  assumes "iter_rel vi vi'"
  shows "rel_option same_lift (liftFixedScalars vi p k) (liftFixedScalars vi' p k)"
  by (simp add: liftFixedScalars_def into_rel [OF liftFixed_rel [OF assms]])

lemma liftFlatFixedList_rel:
  assumes c: "lift_rel fl li" and i: "iter_rel vi vi'"
  shows "same_lift (liftFlatFixedList li vi k t) (liftFlatFixedList li vi' k t)"
proof (cases "scalarPrim t")
  case None
  then show ?thesis using into_rel [OF lift_elems_rel [OF c i]] by (simp add: liftFlatFixedList_def)
next
  case (Some p)
  then show ?thesis using liftFixedScalars_rel [OF i, of p k] into_rel [OF lift_elems_rel [OF c i]]
    by (cases "liftFixedScalars vi p k"; cases "liftFixedScalars vi' p k") (simp_all add: liftFlatFixedList_def)
qed

lemma lift_payload_rel:
  assumes c: "lift_rel fl li" and i: "iter_rel vi vi'"
  shows "same_lift (lift_payload r fl li ref js vi) (lift_payload r fl li ref js vi')"
proof -
  have end_rel: "same_lift (case released ci of (vi, idx) \<Rightarrow> bindE (skip (length js - idx) vi) (\<lambda>vi. Inr (x, vi)))
      (case released ci' of (vi, idx) \<Rightarrow> bindE (skip (length js - idx) vi) (\<lambda>vi. Inr (x, vi)))" if "iter_rel ci ci'" for ci ci' and x :: val
    using released_rel [OF that] by (auto split: prod.splits intro!: bindE_rel [OF skip_rel])
  show ?thesis unfolding lift_payload_def Let_def
    by (rule bindE_rel_iter)
      (use i in \<open>auto split: option.splits intro!: end_rel bindE_rel_eq lift_relD [OF c] iter_rel.intros\<close>)
qed

lemma own_flat_rel:
  assumes "flats_rel (Flatten_body r fw fl t) f f'"
  shows "own_flat r fw fl t f = own_flat r fw fl t f'"
  using assms by (auto simp: flats_rel_def own_flat_def abiE_def)

lemma tail_flat_rel:
  assumes f: "flats_rel (Flatten_body r fw fl (OptionDesc e)) f f'" and u: "resolveType r (Some e) = Inr u"
  shows "rel_sum (=) (flats_rel (fl u)) (tail_flat f) (tail_flat f')"
proof (cases "f = f'")
  case False
  then obtain ks where k: "Flatten_body r fw fl (OptionDesc e) = Inr ks" "length ks \<le> maxFlatWidth" "f \<in> {None, Some ks}" "f' \<in> {None, Some ks}"
    using f by (auto simp: flats_rel_def)
  then obtain g where "ks = ''i32'' # g" "fl u = Inr g" using u by (auto simp: Flatten_body_def flattenOption_def via_def)
  then show ?thesis using k(2-4) by (auto simp: tail_flat_def flats_rel_def)
qed (auto simp: rel_sum_simps intro: sum.rel_refl)

lemma liftFlatOption_rel:
  assumes c: "lift_rel fl li" and w: "widths fw fl" "nonempty_list t" and i: "iter_rel vi vi'" and f: "flats_rel (fl t) f f'"
  shows "same_lift (liftFlatOption fw li vi t f) (liftFlatOption fw li vi' t f')"
proof -
  have eq: "(case f of Some f \<Rightarrow> Inr (length f) | None \<Rightarrow> abiE (fw t)) = (case f' of Some f \<Rightarrow> Inr (length f) | None \<Rightarrow> abiE (fw t))"
  proof (cases "f = f'")
    case False
    then obtain ks where "fl t = Inr ks" "length ks \<le> maxFlatWidth" "f \<in> {None, Some ks}" "f' \<in> {None, Some ks}" using f by (auto simp: flats_rel_def)
    moreover have "fw t = Inr (length ks)" using w calculation unfolding widths_def by blast
    ultimately show ?thesis by (auto simp: abiE_def)
  qed simp
  show ?thesis unfolding liftFlatOption_def eq
    by (auto intro!: bindE_rel_iter [OF Next_rel [OF i]] bindE_rel_eq bindE_rel [OF skip_rel] lift_relD [OF c _ f])
qed

lemma lift_body_rel:
  assumes c: "lift_rel fl li" and w: "widths fw fl" "positive_lists r" and i: "iter_rel vi vi'" and f: "flats_rel (Flatten_body r fw fl t) f f'"
  shows "same_lift (lift_body r fw fl al sz ld li mem vi t f) (lift_body r fw fl al sz ld li mem vi' t f')"
proof (cases t)
  case (PrimitiveDesc p)
  then show ?thesis by (auto simp: lift_body_def liftFlatPrimitive_def liftFlatString_def
      intro!: bindE_rel_iter [OF Next_rel [OF i]] bindE_rel_eq bindE_rel [OF next_pair_rel [OF i]])
next
  case (OptionDesc e)
  have "same_lift (bindE (tail_flat f) (liftFlatOption fw li vi u)) (bindE (tail_flat f') (liftFlatOption fw li vi' u))"
    if u: "resolveType r (Some e) = Inr u" for u
    by (rule bindE_rel [OF tail_flat_rel [OF f [unfolded OptionDesc] u]]) (rule liftFlatOption_rel [OF c w(1) resolve_nonempty [OF w(2) u] i])
  then show ?thesis using OptionDesc by (auto simp: lift_body_def intro!: bindE_rel_eq)
next
  case (VariantDesc cs)
  then show ?thesis by (auto simp: lift_body_def liftFlatVariant_def own_flat_rel [OF f [unfolded VariantDesc]]
      intro!: bindE_rel_eq bindE_rel_iter [OF Next_rel [OF i]] bindE_rel_iter [OF lift_payload_rel [OF c]])
next
  case (ResultDesc ok er)
  then show ?thesis by (auto simp: lift_body_def liftFlatResult_def own_flat_rel [OF f [unfolded ResultDesc]]
      intro!: bindE_rel_eq bindE_rel_iter [OF Next_rel [OF i]] bindE_rel_iter [OF lift_payload_rel [OF c]])
qed (auto simp: lift_body_def liftFlatList_def liftFlatRecord_def liftFlatTuple_def liftFlatFlags_def liftFlatEnum_def lift_handle_def
    intro!: bindE_rel_eq bindE_rel_iter [OF Next_rel [OF i]] bindE_rel [OF next_pair_rel [OF i]] bindE_rel_iter [OF lift_fields_rel [OF c i]]
      liftFlatFixedList_rel [OF c i])

lemma liftFlatImpl_rel: "positive_lists r \<Longrightarrow> lift_rel (Flatten n r) (liftFlatImpl n r m)"
proof (induction n)
  case (Suc n)
  then show ?case unfolding lift_rel_def by (auto intro!: lift_body_rel [OF Suc.IH] FlatWidth_widths)
qed (simp add: lift_rel_def)

lemma value_rel: "same_lift a b \<Longrightarrow> bindE a (\<lambda>(v, _). Inr v) = bindE b (\<lambda>(v, _). Inr v)"
  by (cases a; cases b) auto

lemma LiftFlatKinds_agrees:
  assumes p: "positive_lists r" "nonempty_list t" and ks: "Flatten n r t = Inr ks" "length ks \<le> maxFlatWidth"
    and bits: "length bits = length (if MaxFlatParams < length ks then [''i32''] else ks)"
  shows "LiftFlatKinds n r ks bits t mem = LiftFlat n r (tagged (if MaxFlatParams < length ks then [''i32''] else ks) bits) t mem"
proof (cases "MaxFlatParams < length ks")
  case True
  then obtain b where "bits = [b]" using bits by (cases bits) auto
  then show ?thesis using True width_flatten [OF p ks] by (simp add: LiftFlatKinds_def LiftFlat_def abiE_def tagged_def AsI32_def)
next
  case False
  have "same_lift (liftFlatImpl n r mem (CoreValueIter (tagged ks bits) 0) t None) (liftFlatImpl n r mem (stackValueIter ks bits 0) t (Some ks))"
    by (rule lift_relD [OF liftFlatImpl_rel [OF p(1)] stack]) (use bits False ks in \<open>auto simp: flats_rel_def\<close>)
  from value_rel [OF this] show ?thesis
    using False width_flatten [OF p ks] bits by (simp add: LiftFlatKinds_def LiftFlat_def abiE_def)
qed

text \<open>Results have one slot: a plan lifts it directly, or follows the pointer in it.\<close>

lemma bindE_id: "bindE m Inr = m"
  by (cases m) auto

lemma plan_lifts:
  assumes p: "positive_lists r" "nonempty_list t" and ks: "Flatten n r t = Inr ks" "length ks \<le> maxFlatWidth"
  shows "bindE (CompileLift n r t) (\<lambda>s. Lift n r s [cv] mem) =
    (if length ks \<le> MaxFlatResults then LiftFlat n r [cv] t mem else bindE (AsI32 cv) (\<lambda>ptr. Load n r mem ptr t))"
proof -
  obtain n' where n: "n = Suc n'" using ks(1) by (cases n) auto
  note w = width_flatten [OF p ks]
  have agg: "bindE (liftFlatImpl n r mem (CoreValueIter [cv] 0) t (Some ks)) (\<lambda>(v, _). Inr v) = LiftFlat n r [cv] t mem" if "length ks \<le> 1"
    using value_rel [OF lift_relD [OF liftFlatImpl_rel [OF p(1)] same, of n t "Some ks" None mem "[cv]" 0]] that ks w
    by (simp add: LiftFlat_def abiE_def MaxFlatParams_def flats_rel_def)
  have one: "length ks = 1" "LiftFlat n r [cv] t mem = bindE (AsI32 cv) (\<lambda>h. Inr (VU32 h))" if "t \<in> {OwnDesc a, BorrowDesc b, StreamDesc c, FutureDesc d}" for a b c d
    using that ks(1) n w by (auto simp: Flatten_body_def flatKinds_defs LiftFlat_def lift_body_def lift_handle_def MaxFlatParams_def abiE_def bindE_assoc)
  show ?thesis
  proof (cases t)
    case (PrimitiveDesc q)
    then have q: "flattenPrimitive q = Inr ks" using ks(1) n by (simp add: Flatten_body_def)
    show ?thesis
    proof (cases "q = ''string''")
      case True
      then show ?thesis using PrimitiveDesc q by (auto simp: CompileLift_def Lift_def first_result_def flattenPrimitive_def flatKinds_defs MaxFlatResults_def)
    next
      case False
      have "length ks = 1" using flattenPrimitive_prims [OF q] q False unfolding list.set
        by (elim insertE emptyE) (auto simp: flattenPrimitive_def flatKinds_defs)
      then show ?thesis using PrimitiveDesc False w n
        by (simp add: CompileLift_def Lift_def first_result_def MaxFlatResults_def MaxFlatParams_def LiftFlat_def abiE_def lift_body_def liftFlatPrimitive_def bindE_assoc bindE_id)
    qed
  qed (use ks one agg in \<open>simp_all add: CompileLift_def Lift_def first_result_def abiE_def MaxFlatResults_def\<close>)
qed

section \<open>Properties of plans and of raw slots\<close>

text \<open>
  C16. A compiled plan behaves as the direct call: lowering gives the same core values, the same
  memory and the same errors; lifting a result reads the one slot, or follows the pointer in it.
\<close>

theorem plans_agree:
  assumes "positive_lists r" "nonempty_list t" "Flatten n r t = Inr ks" "length ks \<le> maxFlatWidth"
  shows "bindE (CompileLower n r t) (\<lambda>s. Lower n r R s dst v st) = LowerFlatInto n r R dst v t st \<and>
    bindE (CompileLift n r t) (\<lambda>s. Lift n r s [cv] mem) =
    (if length ks \<le> MaxFlatResults then LiftFlat n r [cv] t mem else bindE (AsI32 cv) (\<lambda>ptr. Load n r mem ptr t))"
  using plan_lowers [OF assms] plan_lifts [OF assms] by blast

theorem plans_agree_witness:
  "bindE (CompileLower 4 sample_resolver sample_type) (\<lambda>s. Lower 4 sample_resolver bump_realloc s [] ok_value sample_store) = Inr (ok_core, ok_lowered) \<and>
   bindE (CompileLift 4 sample_resolver sample_type) (\<lambda>s. Lift 4 sample_resolver s [NewCoreValueI32 0] (fst sample_result)) = Inr sample_value"
proof -
  have k: "length ok_kinds \<le> maxFlatWidth" "\<not> length ok_kinds \<le> MaxFlatResults" by (simp_all add: ok_kinds_def maxFlatWidth_def MaxFlatResults_def)
  show ?thesis using ok_LowerFlat sample_Load k(2)
      plans_agree [OF sample_positive sample_flatten(1) k(1), of bump_realloc "[]" ok_value sample_store "NewCoreValueI32 0" "fst sample_result"]
    by (simp add: LowerFlat_def)
qed

text \<open>
  C17. Lifting straight from the raw 64-bit slots of the core stack gives the same value or the same error as
  lifting from the core values that carry these slots with the kinds of the flattened type.
\<close>

theorem LiftFlatKinds_is_LiftFlat:
  assumes "positive_lists r" "nonempty_list t" "Flatten n r t = Inr ks" "length ks \<le> maxFlatWidth"
    and "length bits = length (if MaxFlatParams < length ks then [''i32''] else ks)"
  shows "LiftFlatKinds n r ks bits t mem = LiftFlat n r (tagged (if MaxFlatParams < length ks then [''i32''] else ks) bits) t mem"
  using assms by (rule LiftFlatKinds_agrees)

theorem LiftFlatKinds_is_LiftFlat_witness:
  "LiftFlatKinds 4 sample_resolver ok_kinds [40, 2, 7, 1, 0, 5] sample_type (fst ok_lowered) = Inr ok_value"
proof -
  have k: "length ok_kinds \<le> maxFlatWidth" "\<not> MaxFlatParams < length ok_kinds" "length [40, 2, 7, 1, 0, 5 :: u64] = length ok_kinds"
    by (simp_all add: ok_kinds_def maxFlatWidth_def MaxFlatParams_def)
  have t: "tagged ok_kinds [40, 2, 7, 1, 0, 5] = ok_core"
    by (simp add: tagged_def ok_kinds_def ok_core_def NewCoreValueI32_def NewCoreValueI64_def)
  have "length (fst ok_lowered) < 2 ^ 32" by (simp add: ok_lowered_def)
  then have "LiftFlat 4 sample_resolver ok_core sample_type (fst ok_lowered) = Inr ok_value"
    using LowerFlat_stored [OF bump_ok sample_owned(2) sample_layout _ sample_positive ok_typed ok_LowerFlat] stored_later
    by (fastforce simp: fits_def)
  then show ?thesis using LiftFlatKinds_is_LiftFlat [OF sample_positive sample_flatten(1) k(1), of "[40, 2, 7, 1, 0, 5]"] k t by simp
qed

end
