(* ===== verification/Handle_Table.thy ===== *)
theory Handle_Table
  imports Table_Interface
begin

text \<open>
  The per-instance handle table of \<^verbatim>\<open>src/internal/component/instance/resource.go\<close>. One index
  space holds resource handles and the other table entries (waitable sets, subtasks,
  stream and future ends, error contexts). Resource entries are heap objects: a lender
  keeps the pointer beyond the life of the handle, so the model has a store of entries by
  address and a batch of unspent addresses (the slab). Destructors act on a host state
  \<open>'w\<close>; errors carry the data of the messages. The mutex makes each method atomic, so the
  methods are the steps of the transition relation \<open>ht_step\<close>.
\<close>

section \<open>State\<close>

record resourceEntry =
  typeIdx :: u32
  rep :: u32
  own :: bool
  lendCount :: int
  borrowScope :: "nat option"

definition zero_entry :: resourceEntry where
  "zero_entry = \<lparr>typeIdx = 0, rep = 0, own = False, lendCount = 0, borrowScope = None\<rparr>"

text \<open>The kinds of table entries; the numbers are addresses of the other kinds' objects.\<close>

datatype tableEntry =
    Res nat
  | WaitableSet nat
  | Subtask nat
  | StreamEnd nat
  | FutureEnd nat
  | ErrorContext nat

text \<open>A destructor maps the host state and the representation to an error, if any, and a new host state.\<close>

type_synonym 'w dtor = "'w \<Rightarrow> u32 \<Rightarrow> string option \<times> 'w"

record 'w handleTable =
  entries :: "u32 \<Rightarrow> tableEntry option"
  nextH :: u32
  free :: "u32 list"
  slab :: "nat list"
  dtors :: "u32 \<Rightarrow> 'w dtor option"
  names :: "u32 \<Rightarrow> string option"

text \<open>The heap: resource entries by address, the first unused address, and the open borrows per task.\<close>

record heap =
  objs :: "nat \<Rightarrow> resourceEntry"
  brk :: nat
  numBorrows :: "nat \<Rightarrow> int"

datatype ht_error =
    Unknown_never_issued u32 u32
  | Unknown_dropped u32 u32 nat
  | Not_a_resource u32
  | Wrong_type u32 u32 u32
  | Is_borrow u32
  | Outstanding u32 int
  | Unscoped_borrow u32
  | Not_live u32
  | No_lends u32
  | Nil_scope

section \<open>Names and destructors\<close>

text \<open>Go ranges over the tag map in an unspecified order, so the registrations come as a list in that order.\<close>

definition setResourceNames :: "(u32 \<times> string \<times> string) list \<Rightarrow> 'w handleTable \<Rightarrow> 'w handleTable" where
  "setResourceNames tags t =
     t\<lparr>names := foldl (\<lambda>m (tag, name, iface).
        if m tag = None then m(tag \<mapsto> name @ '' ('' @ iface @ '')'') else m) (names t) tags\<rparr>"

fun decimal :: "nat \<Rightarrow> string" where
  "decimal n = (if n < 10 then [char_of (48 + n)] else decimal (n div 10) @ [char_of (48 + n mod 10)])"

declare decimal.simps [simp del]

definition typeName :: "'w handleTable \<Rightarrow> u32 \<Rightarrow> string" where
  "typeName t ti = (case names t ti of Some n \<Rightarrow> n | None \<Rightarrow> ''resource type '' @ decimal (unat ti))"

definition shortTypeName :: "'w handleTable \<Rightarrow> u32 \<Rightarrow> string" where
  "shortTypeName t ti =
     (case names t ti of
        Some n \<Rightarrow>
          (if CHR '' '' \<in> set n \<and> hd n \<noteq> CHR '' '' then takeWhile (\<lambda>c. c \<noteq> CHR '' '') n else n)
      | None \<Rightarrow> ''resource type '' @ decimal (unat ti))"

definition registerDtor :: "u32 \<Rightarrow> 'w dtor \<Rightarrow> 'w handleTable \<Rightarrow> 'w handleTable" where
  "registerDtor ti dtor t =
     (case dtors t ti of
        None \<Rightarrow> t\<lparr>dtors := (dtors t)(ti \<mapsto> dtor)\<rparr>
      | Some prev \<Rightarrow> t\<lparr>dtors := (dtors t)(ti \<mapsto> (\<lambda>w rp.
          let (err, w1) = prev w rp; (err2, w2) = dtor w1 rp
          in (if err = None then err2 else err, w2)))\<rparr>)"

definition dtorFor :: "'w handleTable \<Rightarrow> u32 \<Rightarrow> 'w dtor option" where
  "dtorFor t ti = dtors t ti"

text \<open>A guest destructor is looked up when it runs; a nil function means the drop only removes the entry.\<close>

definition resourceDtor :: "('w \<Rightarrow> 'w dtor option) \<Rightarrow> 'w dtor" where
  "resourceDtor resolve w rp = (case resolve w of None \<Rightarrow> (None, w) | Some fn \<Rightarrow> fn w rp)"

section \<open>Allocation\<close>

definition newHandleTable :: "'w handleTable" where
  "newHandleTable = \<lparr>entries = Map.empty, nextH = 1, free = [], slab = [], dtors = Map.empty, names = Map.empty\<rparr>"

definition resourceEntrySlab :: nat where "resourceEntrySlab = 32"

definition newResourceEntry ::
  "u32 \<Rightarrow> u32 \<Rightarrow> bool \<Rightarrow> 'w handleTable \<Rightarrow> heap \<Rightarrow> nat \<times> 'w handleTable \<times> heap" where
  "newResourceEntry ti rp ow t h =
     (let (sl, h) =
        (if slab t = [] then
           ([brk h..<brk h + resourceEntrySlab],
            h\<lparr>brk := brk h + resourceEntrySlab,
              objs := (\<lambda>a. if brk h \<le> a \<and> a < brk h + resourceEntrySlab then zero_entry else objs h a)\<rparr>)
         else (slab t, h));
        e = hd sl
      in (e, t\<lparr>slab := tl sl\<rparr>, h\<lparr>objs := (objs h)(e := (objs h e)\<lparr>typeIdx := ti, rep := rp, own := ow\<rparr>)\<rparr>))"

definition addEntry :: "tableEntry \<Rightarrow> 'w handleTable \<Rightarrow> u32 \<times> 'w handleTable" where
  "addEntry e t =
     (if free t \<noteq> [] then
        let h = last (free t) in (h, t\<lparr>free := butlast (free t), entries := (entries t)(h \<mapsto> e)\<rparr>)
      else
        let h = nextH t in (h, t\<lparr>nextH := nextH t + 1, entries := (entries t)(h \<mapsto> e)\<rparr>))"

definition add_handle :: "u32 \<Rightarrow> u32 \<Rightarrow> bool \<Rightarrow> 'w handleTable \<Rightarrow> heap \<Rightarrow> u32 \<times> 'w handleTable \<times> heap" where
  "add_handle ti rp ow t h =
     (let (e, t, h) = newResourceEntry ti rp ow t h; (i, t) = addEntry (Res e) t in (i, t, h))"

definition getEntry :: "u32 \<Rightarrow> 'w handleTable \<Rightarrow> tableEntry option" where
  "getEntry i t = entries t i"

definition remove_index :: "u32 \<Rightarrow> 'w handleTable \<Rightarrow> 'w handleTable" where
  "remove_index i t = t\<lparr>entries := (entries t)(i := None), free := free t @ [i]\<rparr>"

definition removeEntry :: "u32 \<Rightarrow> 'w handleTable \<Rightarrow> tableEntry option \<times> 'w handleTable" where
  "removeEntry i t =
     (case entries t i of None \<Rightarrow> (None, t) | Some e \<Rightarrow> (Some e, remove_index i t))"

definition NewOwn :: "u32 \<Rightarrow> u32 \<Rightarrow> 'w handleTable \<Rightarrow> heap \<Rightarrow> u32 \<times> 'w handleTable \<times> heap" where
  "NewOwn ti rp t h = add_handle ti rp True t h"

definition NewBorrow :: "u32 \<Rightarrow> u32 \<Rightarrow> 'w handleTable \<Rightarrow> heap \<Rightarrow> u32 \<times> 'w handleTable \<times> heap" where
  "NewBorrow ti rp t h = add_handle ti rp False t h"

definition NewBorrowScoped ::
  "u32 \<Rightarrow> u32 \<Rightarrow> nat option \<Rightarrow> 'w handleTable \<Rightarrow> heap \<Rightarrow> ht_error + u32 \<times> 'w handleTable \<times> heap" where
  "NewBorrowScoped ti rp scope t h =
     (case scope of
        None \<Rightarrow> Inl Nil_scope
      | Some k \<Rightarrow>
          let h = h\<lparr>numBorrows := (numBorrows h)(k := numBorrows h k + 1)\<rparr>;
              e = brk h;
              h = h\<lparr>brk := brk h + 1, objs := (objs h)(e := \<lparr>typeIdx = ti, rep = rp, own = False,
                 lendCount = 0, borrowScope = Some k\<rparr>)\<rparr>;
              (i, t) = addEntry (Res e) t
          in Inr (i, t, h))"

section \<open>Lookup and the handle operations\<close>

text \<open>The live handles of a type, counted over the indices handed out so far.\<close>

definition liveCount :: "u32 \<Rightarrow> 'w handleTable \<Rightarrow> heap \<Rightarrow> nat" where
  "liveCount ti t h =
     length (filter (\<lambda>i. case entries t (of_nat i) of Some (Res a) \<Rightarrow> typeIdx (objs h a) = ti | _ \<Rightarrow> False)
       [0..<unat (nextH t)])"

definition lookup_handle :: "u32 \<Rightarrow> u32 \<Rightarrow> 'w handleTable \<Rightarrow> heap \<Rightarrow> ht_error + nat" where
  "lookup_handle ti i t h =
     (case entries t i of
        None \<Rightarrow>
          (let live = liveCount ti t h in
           if live = 0 then Inl (Unknown_never_issued i ti) else Inl (Unknown_dropped i ti live))
      | Some (Res a) \<Rightarrow>
          (if typeIdx (objs h a) \<noteq> ti then Inl (Wrong_type i (typeIdx (objs h a)) ti) else Inr a)
      | Some _ \<Rightarrow> Inl (Not_a_resource i))"

definition Rep :: "u32 \<Rightarrow> u32 \<Rightarrow> 'w handleTable \<Rightarrow> heap \<Rightarrow> ht_error + u32" where
  "Rep ti i t h = bindE (lookup_handle ti i t h) (\<lambda>a. Inr (rep (objs h a)))"

definition TakeOwn :: "u32 \<Rightarrow> u32 \<Rightarrow> 'w handleTable \<Rightarrow> heap \<Rightarrow> ht_error + u32 \<times> 'w handleTable" where
  "TakeOwn ti i t h =
     bindE (lookup_handle ti i t h) (\<lambda>a.
     let e = objs h a in
     if \<not> own e then Inl (Is_borrow i)
     else if lendCount e \<noteq> 0 then Inl (Outstanding i (lendCount e))
     else Inr (rep e, remove_index i t))"

definition Drop :: "u32 \<Rightarrow> u32 \<Rightarrow> 'w handleTable \<Rightarrow> heap \<Rightarrow> ht_error + 'w handleTable \<times> heap" where
  "Drop ti i t h =
     bindE (lookup_handle ti i t h) (\<lambda>a.
     let e = objs h a in
     if lendCount e \<noteq> 0 then Inl (Outstanding i (lendCount e))
     else if \<not> own e then
       (case borrowScope e of
          None \<Rightarrow> Inl (Unscoped_borrow i)
        | Some k \<Rightarrow> Inr (remove_index i t, h\<lparr>numBorrows := (numBorrows h)(k := numBorrows h k - 1)\<rparr>))
     else Inr (remove_index i t, h))"

definition IsOwn :: "u32 \<Rightarrow> u32 \<Rightarrow> 'w handleTable \<Rightarrow> heap \<Rightarrow> ht_error + bool" where
  "IsOwn ti i t h = bindE (lookup_handle ti i t h) (\<lambda>a. Inr (own (objs h a)))"

definition DropOwned :: "u32 \<Rightarrow> 'w handleTable \<Rightarrow> heap \<Rightarrow> ht_error + u32 \<times> 'w handleTable" where
  "DropOwned i t h =
     (case entries t i of
        None \<Rightarrow> Inl (Not_live i)
      | Some (Res a) \<Rightarrow>
          (let e = objs h a in
           if \<not> own e then Inl (Is_borrow i)
           else if lendCount e \<noteq> 0 then Inl (Outstanding i (lendCount e))
           else Inr (rep e, remove_index i t))
      | Some _ \<Rightarrow> Inl (Not_a_resource i))"

definition set_lends :: "nat \<Rightarrow> int \<Rightarrow> heap \<Rightarrow> heap" where
  "set_lends a d h = h\<lparr>objs := (objs h)(a := (objs h a)\<lparr>lendCount := lendCount (objs h a) + d\<rparr>)\<rparr>"

definition Lend :: "u32 \<Rightarrow> u32 \<Rightarrow> 'w handleTable \<Rightarrow> heap \<Rightarrow> ht_error + heap" where
  "Lend ti i t h = bindE (lookup_handle ti i t h) (\<lambda>a. Inr (set_lends a 1 h))"

definition entryForLend :: "u32 \<Rightarrow> u32 \<Rightarrow> 'w handleTable \<Rightarrow> heap \<Rightarrow> ht_error + nat" where
  "entryForLend ti i t h = lookup_handle ti i t h"

definition Unlend :: "u32 \<Rightarrow> u32 \<Rightarrow> 'w handleTable \<Rightarrow> heap \<Rightarrow> ht_error + heap" where
  "Unlend ti i t h =
     bindE (lookup_handle ti i t h) (\<lambda>a.
     if lendCount (objs h a) = 0 then Inl (No_lends i) else Inr (set_lends a (-1) h))"

section \<open>Steps and invariants\<close>

text \<open>The methods that change state, as the steps of the table; \<open>alloc_ok\<close> excludes the wrap of the index counter.\<close>

definition alloc_ok :: "'w handleTable \<Rightarrow> bool" where
  "alloc_ok t \<longleftrightarrow> free t \<noteq> [] \<or> nextH t + 1 \<noteq> 0"

fun is_res :: "tableEntry \<Rightarrow> bool" where
  "is_res (Res a) = True"
| "is_res _ = False"

inductive ht_step :: "'w handleTable \<times> heap \<Rightarrow> 'w handleTable \<times> heap \<Rightarrow> bool" where
  new_own: "alloc_ok t \<Longrightarrow> NewOwn ti rp t h = (i, t', h') \<Longrightarrow> ht_step (t, h) (t', h')"
| new_borrow: "alloc_ok t \<Longrightarrow> NewBorrow ti rp t h = (i, t', h') \<Longrightarrow> ht_step (t, h) (t', h')"
| new_scoped: "alloc_ok t \<Longrightarrow> NewBorrowScoped ti rp scope t h = Inr (i, t', h') \<Longrightarrow> ht_step (t, h) (t', h')"
| take_own: "TakeOwn ti i t h = Inr (rp, t') \<Longrightarrow> ht_step (t, h) (t', h)"
| drop: "Drop ti i t h = Inr (t', h') \<Longrightarrow> ht_step (t, h) (t', h')"
| drop_owned: "DropOwned i t h = Inr (rp, t') \<Longrightarrow> ht_step (t, h) (t', h)"
| lend: "Lend ti i t h = Inr h' \<Longrightarrow> ht_step (t, h) (t, h')"
| unlend: "Unlend ti i t h = Inr h' \<Longrightarrow> ht_step (t, h) (t, h')"
| add_other: "alloc_ok t \<Longrightarrow> \<not> is_res e \<Longrightarrow> addEntry e t = (i, t') \<Longrightarrow> ht_step (t, h) (t', h)"
| remove_other: "removeEntry i t = (Some e, t') \<Longrightarrow> \<not> is_res e \<Longrightarrow> ht_step (t, h) (t', h)"
| register: "ht_step (t, h) (registerDtor ti d t, h)"
| name: "ht_step (t, h) (setResourceNames tags t, h)"

text \<open>The index discipline: every index below \<open>nextH\<close> but 0 is live or free, never both.\<close>

definition index_inv :: "'w handleTable \<Rightarrow> bool" where
  "index_inv t \<longleftrightarrow> nextH t \<noteq> 0 \<and> distinct (free t) \<and> set (free t) \<inter> dom (entries t) = {} \<and>
     set (free t) \<union> dom (entries t) = {i. 0 < i \<and> i < nextH t}"

definition live_at :: "'w handleTable \<Rightarrow> u32 \<Rightarrow> nat \<Rightarrow> bool" where
  "live_at t i a \<longleftrightarrow> entries t i = Some (Res a)"

text \<open>The borrow handles scoped to task \<open>k\<close>.\<close>

definition scoped :: "'w handleTable \<Rightarrow> heap \<Rightarrow> nat \<Rightarrow> u32 set" where
  "scoped t h k = {i. \<exists>a. live_at t i a \<and> borrowScope (objs h a) = Some k}"

text \<open>
  The heap discipline: live handles own distinct addresses that no future allocation
  reuses, unspent slab entries are zero, owning handles have no scope, lend counts are not
  negative, and each task counts exactly its live scoped borrows.
\<close>

definition heap_inv :: "'w handleTable \<Rightarrow> heap \<Rightarrow> bool" where
  "heap_inv t h \<longleftrightarrow>
     (\<forall>i a. live_at t i a \<longrightarrow> a < brk h \<and> a \<notin> set (slab t)) \<and>
     (\<forall>i j a. live_at t i a \<longrightarrow> live_at t j a \<longrightarrow> i = j) \<and>
     distinct (slab t) \<and> (\<forall>a \<in> set (slab t). a < brk h \<and> objs h a = zero_entry) \<and>
     (\<forall>i a. live_at t i a \<longrightarrow> 0 \<le> lendCount (objs h a) \<and> (own (objs h a) \<longrightarrow> borrowScope (objs h a) = None)) \<and>
     (\<forall>k. numBorrows h k = int (card (scoped t h k)))"

definition empty_heap :: heap where
  "empty_heap = \<lparr>objs = (\<lambda>_. zero_entry), brk = 0, numBorrows = (\<lambda>_. 0)\<rparr>"

inductive ht_reachable :: "'w handleTable \<times> heap \<Rightarrow> bool" where
  init: "ht_reachable (newHandleTable, empty_heap)"
| step: "ht_reachable s \<Longrightarrow> ht_step s s' \<Longrightarrow> ht_reachable s'"

section \<open>Specification vocabulary\<close>

definition handle_view :: "'w handleTable \<Rightarrow> nat \<Rightarrow> tableEntry option" where
  "handle_view t k = (if k < 2 ^ 32 then entries t (of_nat k) else None)"

definition handle_alloc :: "'w handleTable \<Rightarrow> tableEntry \<Rightarrow> (nat \<times> 'w handleTable) option" where
  "handle_alloc t e = (if alloc_ok t then let (i, t') = addEntry e t in Some (unat i, t') else None)"

definition handle_release :: "'w handleTable \<Rightarrow> nat \<Rightarrow> 'w handleTable" where
  "handle_release t k = (if k < 2 ^ 32 then snd (removeEntry (of_nat k) t) else t)"

fun first_err :: "string option list \<Rightarrow> string option" where
  "first_err [] = None"
| "first_err (e # es) = (if e = None then first_err es else e)"

text \<open>The destructors run one after the other: the errors in order and the last host state.\<close>

fun run_dtors :: "'w dtor list \<Rightarrow> 'w \<Rightarrow> u32 \<Rightarrow> string option list \<times> 'w" where
  "run_dtors [] w rp = ([], w)"
| "run_dtors (d # ds) w rp = (let (e, w1) = d w rp; (es, w2) = run_dtors ds w1 rp in (e # es, w2))"

text \<open>A sequence of lends (\<open>True\<close>) and unlends (\<open>False\<close>) of one handle.\<close>

definition lend_op :: "u32 \<Rightarrow> u32 \<Rightarrow> 'w handleTable \<Rightarrow> heap \<Rightarrow> bool \<Rightarrow> ht_error + heap" where
  "lend_op ti i t h b = (if b then Lend ti i t h else Unlend ti i t h)"

definition balance :: "bool list \<Rightarrow> int" where
  "balance bs = (\<Sum>b\<leftarrow>bs. if b then 1 else -1)"

section \<open>Indices\<close>

lemma word_less_Suc: "n + 1 \<noteq> 0 \<Longrightarrow> i < n + 1 \<longleftrightarrow> i \<le> n" for i n :: "'a::len word"
  by (simp add: word_less_nat_alt word_le_nat_alt unatSuc add.commute [of n 1] less_Suc_eq_le)

lemma addEntry_spec:
  assumes inv: "index_inv t" and ok: "alloc_ok t" and add: "addEntry e t = (i, t')"
  shows "entries t i = None \<and> 0 < i \<and> entries t' = (entries t)(i \<mapsto> e) \<and> slab t' = slab t \<and> index_inv t'"
proof (cases "free t = []")
  case True
  with ok have n: "nextH t + 1 \<noteq> 0" by (simp add: alloc_ok_def)
  have t': "i = nextH t" "t' = t\<lparr>nextH := nextH t + 1, entries := (entries t)(i \<mapsto> e)\<rparr>"
    using add True by (auto simp: addEntry_def Let_def)
  have dom: "dom (entries t) = {i. 0 < i \<and> i < nextH t}" using inv True by (simp add: index_inv_def)
  have "entries t i = None" using dom t' by (auto simp: dom_def)
  moreover have "index_inv t'"
    using inv True n dom by (auto simp: index_inv_def t' word_less_Suc word_gt_0)
  ultimately show ?thesis using t' inv by (auto simp: index_inv_def word_gt_0)
next
  case False
  then obtain fs where f: "free t = fs @ [last (free t)]" by (metis append_butlast_last_id)
  have t': "i = last (free t)" "t' = t\<lparr>free := butlast (free t), entries := (entries t)(i \<mapsto> e)\<rparr>"
    using add False by (auto simp: addEntry_def Let_def)
  have "i \<in> set (free t)" using t'(1) False by simp
  then have i: "entries t i = None" "0 < i" using inv by (auto simp: index_inv_def)
  have b: "butlast (free t) = fs" using f by (metis butlast_snoc)
  have "distinct (fs @ [i])" "set (free t) = insert i (set fs)"
    using f inv t'(1) by (metis index_inv_def) (metis f list.set(2) rotate1.simps(2) set_rotate1 t'(1))
  then have "set (butlast (free t)) = set (free t) - {i}" "distinct (butlast (free t))" by (auto simp: b)
  then have "index_inv t'" using inv \<open>i \<in> set (free t)\<close> by (auto simp: index_inv_def t')
  with i t' show ?thesis by simp
qed

lemma remove_index_inv:
  assumes "index_inv t" "entries t i \<noteq> None"
  shows "index_inv (remove_index i t)"
  using assms by (auto simp: index_inv_def remove_index_def)

lemma live_at_upd [simp]:
  "live_at (t\<lparr>entries := m\<rparr>) i a \<longleftrightarrow> m i = Some (Res a)"
  "live_at (t\<lparr>slab := sl\<rparr>) i a \<longleftrightarrow> live_at t i a"
  by (simp_all add: live_at_def)

lemma scoped_finite [simp]: "finite (scoped t h k)"
  by (rule finite_subset [OF subset_UNIV]) simp

lemma heap_inv_grow:
  assumes inv: "heap_inv t h" and live: "live_at t' = live_at t"
    and h': "brk h \<le> brk h'" "\<forall>i a. live_at t i a \<longrightarrow> objs h' a = objs h a" "numBorrows h' = numBorrows h"
    and sl: "distinct (slab t')" "\<forall>a \<in> set (slab t'). a < brk h' \<and> objs h' a = zero_entry \<and> (\<forall>i. \<not> live_at t i a)"
  shows "heap_inv t' h'"
proof -
  have "scoped t' h' = scoped t h" using h'(2) by (intro ext) (auto simp: scoped_def live)
  moreover have "\<forall>i a. live_at t i a \<longrightarrow> a < brk h'" using inv h'(1) by (meson heap_inv_def order.strict_trans2)
  ultimately show ?thesis using inv h' sl unfolding heap_inv_def live by metis
qed

lemma newResourceEntry_spec:
  assumes inv: "heap_inv t h" and new: "newResourceEntry ti rp ow t h = (e, t', h')"
  shows "heap_inv t' h' \<and> entries t' = entries t \<and> index_inv t' = index_inv t \<and> alloc_ok t' = alloc_ok t \<and>
     (\<forall>i. \<not> live_at t i e) \<and> e < brk h' \<and> e \<notin> set (slab t') \<and>
     objs h' e = \<lparr>typeIdx = ti, rep = rp, own = ow, lendCount = 0, borrowScope = None\<rparr> \<and>
     (\<forall>i a. live_at t i a \<longrightarrow> objs h' a = objs h a) \<and> numBorrows h' = numBorrows h"
proof (cases "slab t")
  case Nil
  have n: "0 < resourceEntrySlab" by (simp add: resourceEntrySlab_def)
  have e: "e = brk h" and t': "t' = t\<lparr>slab := [Suc (brk h)..<brk h + resourceEntrySlab]\<rparr>"
    and h': "h' = h\<lparr>brk := brk h + resourceEntrySlab, objs := (\<lambda>a. if brk h \<le> a \<and> a < brk h + resourceEntrySlab then zero_entry else objs h a)
       (e := \<lparr>typeIdx = ti, rep = rp, own = ow, lendCount = 0, borrowScope = None\<rparr>)\<rparr>"
    using new Nil n by (auto simp: newResourceEntry_def Let_def hd_upt tl_upt zero_entry_def)
  have live: "live_at t' i a \<longleftrightarrow> live_at t i a" for i a by (simp add: t')
  have low: "live_at t i a \<Longrightarrow> a < brk h" for i a using inv by (simp add: heap_inv_def)
  have same: "live_at t i a \<Longrightarrow> objs h' a = objs h a" for i a using low [of i a] by (auto simp: h' e)
  have "heap_inv t' h'"
  proof (rule heap_inv_grow [OF inv])
    show "live_at t' = live_at t" using live by (intro ext) simp
    show "\<forall>a \<in> set (slab t'). a < brk h' \<and> objs h' a = zero_entry \<and> (\<forall>i. \<not> live_at t i a)"
      using low by (fastforce simp: t' h' e)
    show "\<forall>i a. live_at t i a \<longrightarrow> objs h' a = objs h a" using same by simp
  qed (simp_all add: h' t')
  then show ?thesis using same low n by (auto simp: t' h' e index_inv_def alloc_ok_def)
next
  case (Cons x xs)
  have e: "e = x" and t': "t' = t\<lparr>slab := xs\<rparr>"
    and h': "h' = h\<lparr>objs := (objs h)(e := (objs h e)\<lparr>typeIdx := ti, rep := rp, own := ow\<rparr>)\<rparr>"
    using new Cons by (auto simp: newResourceEntry_def)
  have z: "objs h x = zero_entry" "x < brk h" "x \<notin> set xs" using inv Cons by (auto simp: heap_inv_def)
  have live: "live_at t' i a \<longleftrightarrow> live_at t i a" for i a by (simp add: t')
  have fr: "\<not> live_at t i x" for i using inv Cons by (auto simp: heap_inv_def)
  then have same: "live_at t i a \<Longrightarrow> objs h' a = objs h a" for i a by (auto simp: h' e)
  have "heap_inv t' h'"
  proof (rule heap_inv_grow [OF inv])
    show "live_at t' = live_at t" using live by (intro ext) simp
    show "\<forall>a \<in> set (slab t'). a < brk h' \<and> objs h' a = zero_entry \<and> (\<forall>i. \<not> live_at t i a)"
      using inv Cons z by (fastforce simp: t' h' e heap_inv_def)
    show "\<forall>i a. live_at t i a \<longrightarrow> objs h' a = objs h a" using same by simp
    show "distinct (slab t')" using inv Cons by (simp add: heap_inv_def t')
  qed (simp_all add: h' t')
  then show ?thesis using same z fr by (auto simp: t' h' e index_inv_def alloc_ok_def zero_entry_def)
qed

text \<open>Adding the handle of a fresh address, with the borrow counted in its scope.\<close>

lemma heap_inv_add:
  assumes inv: "heap_inv t h" and fresh: "entries t i = None" "\<forall>j. \<not> live_at t j e"
    and e: "e < brk h'" "e \<notin> set (slab t)" "0 \<le> lendCount (objs h' e)" "own (objs h' e) \<longrightarrow> borrowScope (objs h' e) = None"
    and t': "entries t' = (entries t)(i \<mapsto> Res e)" "slab t' = slab t"
    and h': "brk h \<le> brk h'" "\<forall>a. a \<noteq> e \<longrightarrow> objs h' a = objs h a"
      "\<forall>k. numBorrows h' k = numBorrows h k + (if borrowScope (objs h' e) = Some k then 1 else 0)"
  shows "heap_inv t' h'"
proof -
  have live: "live_at t' j a \<longleftrightarrow> (if j = i then a = e else live_at t j a)" for j a
    by (auto simp: live_at_def t')
  have ni: "\<not> live_at t i a" for a using fresh by (simp add: live_at_def)
  have ne: "live_at t j a \<Longrightarrow> a \<noteq> e" for j a using fresh(2) by auto
  have sc: "scoped t' h' k = (if borrowScope (objs h' e) = Some k then insert i (scoped t h k) else scoped t h k)" for k
    using h'(2) ne ni by (auto simp: scoped_def live split: if_splits)
  have "i \<notin> scoped t h k" for k using ni by (simp add: scoped_def)
  then have "\<forall>k. numBorrows h' k = int (card (scoped t' h' k))"
    using inv h'(3) by (simp add: heap_inv_def sc)
  moreover have "\<forall>j a. live_at t' j a \<longrightarrow> a < brk h' \<and> a \<notin> set (slab t')"
    using inv e(1,2) h'(1) unfolding heap_inv_def live t' by (metis order.strict_trans2)
  moreover have "\<forall>j l a. live_at t' j a \<longrightarrow> live_at t' l a \<longrightarrow> j = l"
    using inv ne unfolding heap_inv_def live by metis
  moreover have "distinct (slab t')" "\<forall>a \<in> set (slab t'). a < brk h' \<and> objs h' a = zero_entry"
    using inv e(2) h'(1,2) unfolding heap_inv_def t' by (metis, metis order.strict_trans2)
  moreover have "\<forall>j a. live_at t' j a \<longrightarrow> 0 \<le> lendCount (objs h' a) \<and> (own (objs h' a) \<longrightarrow> borrowScope (objs h' a) = None)"
    using inv e h'(2) ne by (auto simp: heap_inv_def live)
  ultimately show ?thesis unfolding heap_inv_def by blast
qed

lemma heap_inv_remove:
  assumes inv: "heap_inv t h" and at: "live_at t i a"
    and h': "objs h' = objs h" "brk h' = brk h"
      "\<forall>k. numBorrows h' k = numBorrows h k - (if borrowScope (objs h a) = Some k then 1 else 0)"
  shows "heap_inv (remove_index i t) h'"
proof -
  have live: "live_at (remove_index i t) j b \<longleftrightarrow> j \<noteq> i \<and> live_at t j b" for j b
    by (auto simp: live_at_def remove_index_def)
  have sc: "scoped (remove_index i t) h' k = scoped t h k - {i}" for k
    by (auto simp: scoped_def live h')
  have "i \<in> scoped t h k \<longleftrightarrow> borrowScope (objs h a) = Some k" for k
    using at by (auto simp: scoped_def live_at_def)
  then have "int (card (scoped t h k - {i})) = int (card (scoped t h k)) - (if borrowScope (objs h a) = Some k then 1 else 0)" for k
    using card_gt_0_iff [of "scoped t h k"] by (auto simp: card_Diff_singleton_if of_nat_diff Suc_le_eq)
  then show ?thesis using inv h' by (auto simp: heap_inv_def live sc) (simp_all add: remove_index_def)
qed

lemma heap_inv_other:
  assumes "heap_inv t h" "slab t' = slab t" "live_at t' = live_at t"
  shows "heap_inv t' h"
  by (rule heap_inv_grow [OF assms(1,3)]) (use assms in \<open>auto simp: heap_inv_def\<close>)

lemma heap_inv_set_lends:
  assumes "heap_inv t h" "live_at t i a" "0 \<le> lendCount (objs h a) + d"
  shows "heap_inv t (set_lends a d h)"
proof -
  have "scoped t (set_lends a d h) k = scoped t h k" for k
    by (auto simp: scoped_def set_lends_def)
  then show ?thesis using assms by (auto simp: heap_inv_def set_lends_def)
qed

lemma lookup_handle_Inr:
  "lookup_handle ti i t h = Inr a \<longleftrightarrow> live_at t i a \<and> typeIdx (objs h a) = ti"
  by (auto simp: lookup_handle_def live_at_def Let_def split: option.splits tableEntry.splits if_splits)

lemma live_at_cong: "entries t' = entries t \<Longrightarrow> live_at t' = live_at t"
  by (intro ext) (simp add: live_at_def)

lemma add_handle_inv:
  assumes inv: "index_inv t" "heap_inv t h" and ok: "alloc_ok t" and add: "add_handle ti rp ow t h = (i, t', h')"
  shows "\<exists>e. entries t i = None \<and> 0 < i \<and> entries t' = (entries t)(i \<mapsto> Res e) \<and>
      objs h' e = \<lparr>typeIdx = ti, rep = rp, own = ow, lendCount = 0, borrowScope = None\<rparr> \<and>
      (\<forall>j a. live_at t j a \<longrightarrow> objs h' a = objs h a) \<and> numBorrows h' = numBorrows h \<and> index_inv t' \<and> heap_inv t' h'"
proof -
  obtain e u where new: "newResourceEntry ti rp ow t h = (e, u, h')" and a: "addEntry (Res e) u = (i, t')"
    using add by (auto simp: add_handle_def split: prod.splits)
  note n = newResourceEntry_spec [OF inv(2) new]
  note s = addEntry_spec [OF _ _ a]
  have s: "entries t i = None \<and> 0 < i \<and> entries t' = (entries t)(i \<mapsto> Res e) \<and> slab t' = slab u \<and> index_inv t'"
    using n s inv ok by simp
  have "heap_inv t' h'"
    by (rule heap_inv_add [of u h' i e h' t']) (use n s in \<open>auto simp: live_at_def\<close>)
  with n s show ?thesis by blast
qed

lemma NewBorrowScoped_inv:
  assumes inv: "index_inv t" "heap_inv t h" and ok: "alloc_ok t" and new: "NewBorrowScoped ti rp scope t h = Inr (i, t', h')"
  shows "index_inv t' \<and> heap_inv t' h'"
proof -
  obtain k where k: "scope = Some k" using new by (cases scope) (simp_all add: NewBorrowScoped_def)
  have a: "addEntry (Res (brk h)) t = (i, t')" and
    h': "h' = h\<lparr>numBorrows := (numBorrows h)(k := numBorrows h k + 1), brk := brk h + 1,
       objs := (objs h)(brk h := \<lparr>typeIdx = ti, rep = rp, own = False, lendCount = 0, borrowScope = Some k\<rparr>)\<rparr>"
    using new by (auto simp: NewBorrowScoped_def k Let_def split: prod.splits)
  note s = addEntry_spec [OF inv(1) ok a]
  have "heap_inv t' h'"
    by (rule heap_inv_add [OF inv(2), of i "brk h"]) (use s inv(2) in \<open>auto simp: heap_inv_def h'\<close>)
  with s show ?thesis by simp
qed

lemma remove_own_inv:
  assumes "index_inv t" "heap_inv t h" "live_at t i a" "own (objs h a)"
  shows "index_inv (remove_index i t) \<and> heap_inv (remove_index i t) h"
proof -
  have "borrowScope (objs h a) = None" using assms by (simp add: heap_inv_def)
  then show ?thesis using assms heap_inv_remove [of t h i a h] remove_index_inv [of t i] by (simp add: live_at_def)
qed

lemma Drop_inv:
  assumes inv: "index_inv t" "heap_inv t h" and drop: "Drop ti i t h = Inr (t', h')"
  shows "index_inv t' \<and> heap_inv t' h'"
proof -
  obtain a where a: "live_at t i a" using drop by (auto simp: Drop_def lookup_handle_Inr)
  then have l: "lookup_handle (typeIdx (objs h a)) i t h = Inr a" by (simp add: lookup_handle_Inr)
  have ti: "ti = typeIdx (objs h a)" using drop a by (auto simp: Drop_def lookup_handle_Inr live_at_def)
  show ?thesis
  proof (cases "own (objs h a)")
    case True
    with remove_own_inv [OF inv a] drop show ?thesis by (auto simp: Drop_def ti l Let_def split: if_splits)
  next
    case False
    then obtain k where k: "borrowScope (objs h a) = Some k"
      and t': "t' = remove_index i t" "h' = h\<lparr>numBorrows := (numBorrows h)(k := numBorrows h k - 1)\<rparr>"
      using drop by (auto simp: Drop_def ti l Let_def split: if_splits option.splits)
    have "heap_inv t' h'" unfolding t'(1)
      by (rule heap_inv_remove [OF inv(2) a]) (simp_all add: t' k)
    then show ?thesis using remove_index_inv [of t i] inv a by (simp add: t' live_at_def)
  qed
qed

lemma is_res_live: "entries t i = Some e \<Longrightarrow> \<not> is_res e \<Longrightarrow> \<not> live_at t i a"
  by (cases e) (simp_all add: live_at_def)

lemma registerDtor_frame [simp]:
  "entries (registerDtor ti d t) = entries t" "slab (registerDtor ti d t) = slab t"
  "free (registerDtor ti d t) = free t" "nextH (registerDtor ti d t) = nextH t"
  by (simp_all add: registerDtor_def split: option.splits)

lemma setResourceNames_frame [simp]:
  "entries (setResourceNames tags t) = entries t" "slab (setResourceNames tags t) = slab t"
  "free (setResourceNames tags t) = free t" "nextH (setResourceNames tags t) = nextH t"
  by (simp_all add: setResourceNames_def)

lemma ht_step_inv:
  assumes "ht_step (t, h) (t', h')" and inv: "index_inv t" "heap_inv t h"
  shows "index_inv t' \<and> heap_inv t' h'"
  using assms(1)
proof (cases rule: ht_step.cases)
  case (new_own ti rp i)
  then show ?thesis using add_handle_inv [OF inv] by (metis NewOwn_def)
next
  case (new_borrow ti rp i)
  then show ?thesis using add_handle_inv [OF inv] by (metis NewBorrow_def)
next
  case (new_scoped ti rp scope i)
  then show ?thesis using NewBorrowScoped_inv [OF inv] by blast
next
  case (take_own ti i rp)
  then obtain a where "live_at t i a" "own (objs h a)" "t' = remove_index i t"
    by (auto simp: TakeOwn_def lookup_handle_Inr Let_def split: if_splits)
  then show ?thesis using remove_own_inv [OF inv] take_own by simp
next
  case (drop ti i)
  then show ?thesis using Drop_inv [OF inv] by blast
next
  case (drop_owned i rp)
  then obtain a where "live_at t i a" "own (objs h a)" "t' = remove_index i t"
    by (auto simp: DropOwned_def live_at_def Let_def split: if_splits option.splits tableEntry.splits)
  then show ?thesis using remove_own_inv [OF inv] drop_owned by simp
next
  case (lend ti i)
  then obtain a where a: "live_at t i a" "h' = set_lends a 1 h" by (auto simp: Lend_def lookup_handle_Inr)
  then have "0 \<le> lendCount (objs h a) + 1" using inv(2) unfolding heap_inv_def by fastforce
  then show ?thesis using heap_inv_set_lends [OF inv(2) a(1)] lend inv a by simp
next
  case (unlend ti i)
  then obtain a where a: "live_at t i a" "h' = set_lends a (-1) h" "lendCount (objs h a) \<noteq> 0"
    by (auto simp: Unlend_def lookup_handle_Inr split: if_splits)
  then have "0 \<le> lendCount (objs h a)" using inv(2) by (auto simp: heap_inv_def)
  then show ?thesis using heap_inv_set_lends [OF inv(2) a(1), of "-1"] unlend inv a by simp
next
  case (add_other e i)
  note s = addEntry_spec [OF inv(1) add_other(2,4)]
  then have "live_at t' = live_at t" using add_other(3) by (intro ext) (auto simp: live_at_def)
  then show ?thesis using heap_inv_other [OF inv(2), of t'] s add_other by simp
next
  case (remove_other i e)
  then have e: "entries t i = Some e" "t' = remove_index i t" by (auto simp: removeEntry_def split: option.splits)
  have "live_at t' = live_at t" using remove_other(3) e by (intro ext) (auto simp: live_at_def remove_index_def)
  then show ?thesis using heap_inv_other [OF inv(2), of t'] remove_index_inv [OF inv(1), of i] remove_other e
    by (simp add: remove_index_def)
next
  case (register ti d)
  then show ?thesis using inv heap_inv_other [OF inv(2), of t'] live_at_cong [of t' t] by (simp add: index_inv_def)
next
  case (name tags)
  then show ?thesis using inv heap_inv_other [OF inv(2), of t'] live_at_cong [of t' t] by (simp add: index_inv_def)
qed

lemma initial_inv [simp]: "index_inv newHandleTable" "heap_inv newHandleTable empty_heap" "alloc_ok newHandleTable"
proof -
  have "{i::u32. 0 < i \<and> i < 1} = {}" using word_less_1 by auto
  then show "index_inv newHandleTable" "heap_inv newHandleTable empty_heap" "alloc_ok newHandleTable"
    by (simp_all add: index_inv_def heap_inv_def newHandleTable_def empty_heap_def live_at_def scoped_def alloc_ok_def)
qed

lemma ht_reachable_inv: "ht_reachable s \<Longrightarrow> index_inv (fst s) \<and> heap_inv (fst s) (snd s)"
proof (induction rule: ht_reachable.induct)
  case (step s s')
  then show ?case using ht_step_inv [of "fst s" "snd s" "fst s'" "snd s'"] by simp
qed simp

section \<open>The table as a provider of indices\<close>

lemma unat_of_nat_u32: "k < 2 ^ 32 \<Longrightarrow> unat (of_nat k :: u32) = k"
  by (simp add: unat_of_nat)

lemma of_nat_u32_eq: "k < 2 ^ 32 \<Longrightarrow> (of_nat k :: u32) = i \<longleftrightarrow> k = unat i"
  using unat_of_nat_u32 [of k] by auto

lemma unat_u32_less [simp]: "unat (i :: u32) < 4294967296"
  using unsigned_less [of i, where 'a = nat] by simp

lemma handle_view_upd:
  "entries t' = (entries t)(i := x) \<Longrightarrow> handle_view t' = (handle_view t)(unat i := x)"
  by (intro ext) (auto simp: handle_view_def of_nat_u32_eq)

lemma handle_view_bound: "handle_view t k = Some e \<Longrightarrow> k < 2 ^ 32"
  by (simp add: handle_view_def split: if_splits)

lemma handle_view_0: "index_inv t \<Longrightarrow> handle_view t 0 = None"
  by (auto simp: handle_view_def index_inv_def dom_def)

lemma getEntry_view: "getEntry i t = handle_view t (unat i)"
  by (simp add: getEntry_def handle_view_def)

lemma handle_alloc_spec:
  assumes "index_inv t" "handle_alloc t e = Some (k, t')"
  shows "handle_view t k = None \<and> handle_view t' = (handle_view t)(k \<mapsto> e) \<and> index_inv t'"
proof -
  obtain i where a: "alloc_ok t" "addEntry e t = (i, t')" "k = unat i"
    using assms(2) by (auto simp: handle_alloc_def split: if_splits prod.splits)
  from addEntry_spec [OF assms(1) a(1,2)] show ?thesis
    using handle_view_upd [of t' t i "Some e"] by (simp add: a(3)) (simp add: handle_view_def)
qed

lemma handle_release_spec:
  assumes "index_inv t"
  shows "handle_view (handle_release t k) = (handle_view t)(k := None) \<and> index_inv (handle_release t k)"
proof (cases "k < 2 ^ 32 \<and> entries t (of_nat k) \<noteq> None")
  case True
  then have "handle_release t k = remove_index (of_nat k) t"
    by (auto simp: handle_release_def removeEntry_def)
  then show ?thesis using True remove_index_inv [OF assms, of "of_nat k"]
      handle_view_upd [of "remove_index (of_nat k) t" t "of_nat k" None]
    by (auto simp: remove_index_def unat_of_nat_u32)
next
  case False
  then have "handle_release t k = t" by (auto simp: handle_release_def removeEntry_def)
  then show ?thesis using False assms by (auto simp: handle_view_def fun_eq_iff)
qed

interpretation ht: index_table index_inv handle_view handle_alloc handle_release
proof unfold_locales
qed (use handle_alloc_spec handle_release_spec in blast)+

section \<open>Counting, destructors and lends\<close>

lemma liveCount_card:
  assumes "index_inv t"
  shows "liveCount ti t h = card {i. \<exists>a. live_at t i a \<and> typeIdx (objs h a) = ti}"
proof -
  define P where "P = (\<lambda>i. case entries t i of Some (Res a) \<Rightarrow> typeIdx (objs h a) = ti | _ \<Rightarrow> False)"
  have P: "P i \<longleftrightarrow> (\<exists>a. live_at t i a \<and> typeIdx (objs h a) = ti)" for i
    by (auto simp: P_def live_at_def split: option.splits tableEntry.splits)
  have lt: "P i \<Longrightarrow> unat i < unat (nextH t)" for i
    using assms by (auto simp: P live_at_def index_inv_def word_less_nat_alt)
  let ?N = "{n. n < unat (nextH t) \<and> P (of_nat n)}"
  have "n < 2 ^ 32" if "n < unat (nextH t)" for n using order.strict_trans [OF that unat_u32_less] by simp
  then have inj: "inj_on (of_nat :: nat \<Rightarrow> u32) ?N"
    by (intro inj_onI) (metis (mono_tags, lifting) mem_Collect_eq unat_of_nat_u32)
  have "liveCount ti t h = card ?N"
    unfolding liveCount_def by (simp add: distinct_length_filter Int_def conj_commute P_def)
  also have "\<dots> = card (of_nat ` ?N :: u32 set)" by (rule card_image [OF inj, symmetric])
  also have "of_nat ` ?N = {i. P i}"
  proof (rule set_eqI)
    fix i show "i \<in> of_nat ` ?N \<longleftrightarrow> i \<in> {i. P i}"
      using lt [of i] by (auto intro!: image_eqI [of _ _ "unat i"])
  qed
  finally show ?thesis by (simp add: P)
qed

lemma first_err_append: "first_err (xs @ ys) = (if first_err xs = None then first_err ys else first_err xs)"
  by (induction xs) auto

lemma run_dtors_append:
  "run_dtors (xs @ ys) w rp = (let (es, w1) = run_dtors xs w rp; (fs, w2) = run_dtors ys w1 rp in (es @ fs, w2))"
  by (induction xs arbitrary: w) (auto simp: Let_def split: prod.splits)

lemma register_all:
  assumes "dtors t ti = None" "ds \<noteq> []"
  shows "dtors (foldl (\<lambda>t d. registerDtor ti d t) t ds) ti =
     Some (\<lambda>w rp. let (es, w') = run_dtors ds w rp in (first_err es, w'))"
  using assms(2)
proof (induction ds rule: rev_nonempty_induct)
  case (single d)
  then show ?case using assms(1) by (auto simp: registerDtor_def split_def Let_def fun_eq_iff prod_eq_iff)
next
  case (snoc d ds)
  then show ?case
    by (auto simp: registerDtor_def Let_def split_def run_dtors_append first_err_append fun_eq_iff)
qed

lemma register_other: "ti' \<noteq> ti \<Longrightarrow> dtors (foldl (\<lambda>t d. registerDtor ti d t) t ds) ti' = dtors t ti'"
  by (induction ds arbitrary: t) (auto simp: registerDtor_def split: option.splits)

lemma balance_simps [simp]: "balance [] = 0" "balance (b # bs) = (if b then 1 else -1) + balance bs"
  by (simp_all add: balance_def)

lemma set_lends_simps [simp]:
  "typeIdx (objs (set_lends a d h) b) = typeIdx (objs h b)" "own (objs (set_lends a d h) b) = own (objs h b)"
  "rep (objs (set_lends a d h) b) = rep (objs h b)" "lendCount (objs (set_lends a d h) a) = lendCount (objs h a) + d"
  "set_lends a d (set_lends a d' h) = set_lends a (d' + d) h" "set_lends a 0 h = h"
  by (simp_all add: set_lends_def add.assoc)

lemma all_le_Suc: "(\<forall>n \<le> Suc m. P n) \<longleftrightarrow> P 0 \<and> (\<forall>n \<le> m. P (Suc n))"
  by (metis le0 Suc_le_mono not0_implies_Suc)

lemma lend_ops:
  assumes "live_at t i a" "typeIdx (objs h a) = ti" "0 \<le> lendCount (objs h a)"
  shows "foldE (lend_op ti i t) h bs =
    (if \<forall>n \<le> length bs. 0 \<le> lendCount (objs h a) + balance (take n bs) then Inr (set_lends a (balance bs) h)
     else Inl (No_lends i))"
  using assms(2,3)
proof (induction bs arbitrary: h)
  case (Cons b bs)
  have l: "lookup_handle ti i t h = Inr a" using assms(1) Cons.prems by (simp add: lookup_handle_Inr)
  have all: "(\<forall>n \<le> length (b # bs). 0 \<le> lendCount (objs h a) + balance (take n (b # bs))) \<longleftrightarrow>
    (\<forall>n \<le> length bs. 0 \<le> lendCount (objs h a) + ((if b then 1 else -1) + balance (take n bs)))"
    using Cons.prems(2) by (simp add: all_le_Suc)
  show ?case
  proof (cases "b \<or> lendCount (objs h a) \<noteq> 0")
    case True
    then have "lend_op ti i t h b = Inr (set_lends a (if b then 1 else -1) h)"
      using l by (auto simp: lend_op_def Lend_def Unlend_def)
    moreover have "0 \<le> lendCount (objs h a) + (if b then 1 else -1)" using True Cons.prems(2) by auto
    ultimately show ?thesis unfolding all using Cons.IH Cons.prems(1) by (simp add: add.assoc)
  next
    case False
    then show ?thesis unfolding all using l by (auto simp: lend_op_def Unlend_def)
  qed
qed simp

section \<open>Properties\<close>

text \<open>
  C9. In every state the handle table can reach, index 0 is never allocated, each index
  below the counter is live or free and not both, live handles refer to distinct entries,
  owning handles carry no scope, lend counts are not negative, and each task's count of
  borrows is the number of live handles scoped to it.
\<close>

theorem handle_table_invariant:
  assumes "ht_reachable (t, h)"
  shows "index_inv t \<and> heap_inv t h"
  using ht_reachable_inv [OF assms] by simp

theorem handle_table_invariant_witness:
  "case NewOwn 7 42 (newHandleTable :: unit handleTable) empty_heap of (i, t, h) \<Rightarrow>
     index_inv t \<and> heap_inv t h \<and> entries t 1 = Some (Res 0)"
proof (cases "NewOwn 7 42 (newHandleTable :: unit handleTable) empty_heap")
  case (fields i t h)
  have "ht_reachable (t, h)"
    by (rule ht_reachable.step [OF ht_reachable.init ht_step.new_own [OF _ fields]]) simp
  from handle_table_invariant [OF this] fields show ?thesis
    by (auto simp: NewOwn_def add_handle_def newResourceEntry_def addEntry_def newHandleTable_def empty_heap_def
        resourceEntrySlab_def Let_def upt_conv_Cons)
qed

text \<open>
  A fresh owning handle round-trips: its index was not live and is not 0, it answers
  with its representation under its own type and with a type error under any other, taking
  it back gives the representation and the table's old contents, and afterwards every use of
  the index fails as unknown.
\<close>

theorem NewOwn_TakeOwn_roundtrip:
  assumes "index_inv t" "heap_inv t h" "alloc_ok t" and new: "NewOwn ti rp t h = (i, t', h')"
  shows "entries t i = None \<and> i \<noteq> 0 \<and> Rep ti i t' h' = Inr rp \<and>
    (\<forall>tj. tj \<noteq> ti \<longrightarrow> Rep tj i t' h' = Inl (Wrong_type i ti tj)) \<and>
    (\<exists>u. TakeOwn ti i t' h' = Inr (rp, u) \<and> entries u = entries t \<and> free u = free t' @ [i] \<and>
       (\<forall>tj. isl (Rep tj i u h') \<and> isl (TakeOwn tj i u h') \<and> isl (Drop tj i u h') \<and> isl (Lend tj i u h')))"
proof -
  obtain e where e: "entries t i = None" "0 < i" "entries t' = (entries t)(i \<mapsto> Res e)"
    "objs h' e = \<lparr>typeIdx = ti, rep = rp, own = True, lendCount = 0, borrowScope = None\<rparr>"
    using add_handle_inv [OF assms(1-3)] new unfolding NewOwn_def by blast
  have l: "lookup_handle tj i t' h' = (if tj = ti then Inr e else Inl (Wrong_type i ti tj))" for tj
    using e by (auto simp: lookup_handle_def)
  have u: "isl (lookup_handle tj i u h')" if "entries u i = None" for tj u
    using that by (simp add: lookup_handle_def Let_def)
  have gone: "isl (Rep tj i u h') \<and> isl (TakeOwn tj i u h') \<and> isl (Drop tj i u h') \<and> isl (Lend tj i u h')"
    if "entries u i = None" for tj u
    using u [OF that, of tj] by (auto simp: Rep_def TakeOwn_def Drop_def Lend_def isl_def)
  have "TakeOwn ti i t' h' = Inr (rp, remove_index i t')" using e by (simp add: TakeOwn_def l)
  moreover have "entries (remove_index i t') = entries t" using e by (auto simp: remove_index_def)
  ultimately show ?thesis using e gone [of "remove_index i t'"]
    by (auto simp: Rep_def l remove_index_def word_gt_0)
qed

theorem NewOwn_TakeOwn_roundtrip_witness:
  "case NewOwn 7 42 (newHandleTable :: unit handleTable) empty_heap of (i, t, h) \<Rightarrow>
     i = 1 \<and> Rep 7 i t h = Inr 42 \<and> Rep 8 i t h = Inl (Wrong_type 1 7 8) \<and>
     (\<exists>u. TakeOwn 7 i t h = Inr (42, u) \<and> isl (Rep 7 i u h))"
proof (cases "NewOwn 7 42 (newHandleTable :: unit handleTable) empty_heap")
  case (fields i t h)
  have "i = 1" using fields
    by (auto simp: NewOwn_def add_handle_def newResourceEntry_def addEntry_def newHandleTable_def Let_def)
  then show ?thesis
    using NewOwn_TakeOwn_roundtrip [OF initial_inv fields] fields by auto
qed

text \<open>
  C24. Dropping succeeds exactly for a live handle of the named type with no outstanding
  lends that owns its resource or is scoped to a call. It then removes that index and no
  other, makes it the next index to be handed out, leaves every entry as it was, and
  leaves each task with the number of borrows that remain.
\<close>

theorem Drop_exact:
  assumes "heap_inv t h"
  shows "Drop ti i t h = Inr (t', h') \<longleftrightarrow>
    (\<exists>a. live_at t i a \<and> typeIdx (objs h a) = ti \<and> lendCount (objs h a) = 0 \<and>
       (own (objs h a) \<or> borrowScope (objs h a) \<noteq> None)) \<and>
    t' = t\<lparr>entries := (entries t)(i := None), free := free t @ [i]\<rparr> \<and> (\<forall>e. fst (addEntry e t') = i) \<and>
    h' = h\<lparr>numBorrows := (\<lambda>k. int (card (scoped t h k - {i})))\<rparr>"
proof (cases "\<exists>a. lookup_handle ti i t h = Inr a")
  case True
  then obtain a where l: "lookup_handle ti i t h = Inr a" and a: "live_at t i a" "typeIdx (objs h a) = ti"
    by (auto simp: lookup_handle_Inr)
  have u: "live_at t i b \<longleftrightarrow> b = a" for b using a(1) by (auto simp: live_at_def)
  have sc: "i \<in> scoped t h k \<longleftrightarrow> borrowScope (objs h a) = Some k" for k using a(1) by (auto simp: scoped_def live_at_def)
  have n: "numBorrows h k = int (card (scoped t h k))" for k using assms by (simp add: heap_inv_def)
  have own: "own (objs h a) \<Longrightarrow> borrowScope (objs h a) = None" using assms a(1) by (simp add: heap_inv_def)
  have keep: "borrowScope (objs h a) = None \<Longrightarrow> h\<lparr>numBorrows := (\<lambda>k. int (card (scoped t h k - {i})))\<rparr> = h"
    using sc n by (simp add: Diff_insert0 [symmetric] flip: n)
  have less: "h\<lparr>numBorrows := (\<lambda>k. int (card (scoped t h k - {i})))\<rparr> =
      h\<lparr>numBorrows := (numBorrows h)(k := numBorrows h k - 1)\<rparr>" if "borrowScope (objs h a) = Some k" for k
  proof -
    have "int (card (scoped t h j - {i})) = ((numBorrows h)(k := numBorrows h k - 1)) j" for j
      using sc [of j] that card_gt_0_iff [of "scoped t h j"]
      by (auto simp: n card_Diff_singleton_if of_nat_diff Suc_le_eq)
    then show ?thesis by presburger
  qed
  show ?thesis
    using own keep less by (auto simp: Drop_def l u a Let_def remove_index_def addEntry_def split: option.splits)
next
  case False
  then show ?thesis by (auto simp: Drop_def lookup_handle_Inr)
qed

theorem Drop_exact_witness:
  "case NewBorrowScoped 7 42 (Some 3) (newHandleTable :: unit handleTable) empty_heap of
     Inl _ \<Rightarrow> False
   | Inr (i, t, h) \<Rightarrow> i = 1 \<and> numBorrows h 3 = 1 \<and>
       (case Drop 7 i t h of Inl _ \<Rightarrow> False | Inr (t', h') \<Rightarrow> entries t' 1 = None \<and> numBorrows h' 3 = 0)"
proof -
  obtain i t h where new: "NewBorrowScoped 7 42 (Some 3) (newHandleTable :: unit handleTable) empty_heap = Inr (i, t, h)"
    by (cases "addEntry (Res (brk empty_heap)) (newHandleTable :: unit handleTable)")
      (simp add: NewBorrowScoped_def Let_def)
  have inv: "heap_inv t h"
    using NewBorrowScoped_inv [OF initial_inv new] by simp
  have i: "i = 1" "entries t = [1 \<mapsto> Res 0]" "numBorrows h 3 = 1"
    "objs h 0 = \<lparr>typeIdx = 7, rep = 42, own = False, lendCount = 0, borrowScope = Some 3\<rparr>"
    using new by (auto simp: NewBorrowScoped_def Let_def newHandleTable_def empty_heap_def addEntry_def)
  have "scoped t h 3 - {i} = {}" by (auto simp: scoped_def live_at_def i split: if_splits)
  moreover have "Drop 7 i t h = Inr (t\<lparr>entries := (entries t)(i := None), free := free t @ [i]\<rparr>,
      h\<lparr>numBorrows := (\<lambda>k. int (card (scoped t h k - {i})))\<rparr>)"
    by (subst Drop_exact [OF inv]) (simp add: live_at_def addEntry_def i)
  ultimately show ?thesis using new i by simp
qed

text \<open>
  C31. Lends and returns of an owning handle in any order: a return without a matching
  lend is an error, otherwise the handle can be taken or dropped exactly when every lend
  has been returned, and is refused with the number of outstanding lends before that.
\<close>

theorem lends_block_transfer:
  assumes "live_at t i a" "typeIdx (objs h a) = ti" "own (objs h a)" "lendCount (objs h a) = 0"
  shows "case foldE (lend_op ti i t) h ops of
      Inl e \<Rightarrow> e = No_lends i \<and> (\<exists>n \<le> length ops. balance (take n ops) < 0)
    | Inr h' \<Rightarrow> (\<forall>n \<le> length ops. 0 \<le> balance (take n ops)) \<and>
        (if balance ops = 0 then h' = h \<and> TakeOwn ti i t h' = Inr (rep (objs h a), remove_index i t) \<and> Drop ti i t h' = Inr (remove_index i t, h)
         else TakeOwn ti i t h' = Inl (Outstanding i (balance ops)) \<and> Drop ti i t h' = Inl (Outstanding i (balance ops)))"
proof -
  have l: "lookup_handle ti i t (set_lends a d h) = Inr a" for d using assms by (simp add: lookup_handle_Inr)
  show ?thesis
    using lend_ops [OF assms(1,2), of ops] assms(3,4) l [of 0] l [of "balance ops"]
    by (auto simp: TakeOwn_def Drop_def Let_def not_le)
qed

theorem lends_block_transfer_witness:
  "case NewOwn 7 42 (newHandleTable :: unit handleTable) empty_heap of (i, t, h) \<Rightarrow>
     (case foldE (lend_op 7 1 t) h [True, True, False] of
        Inl _ \<Rightarrow> False
      | Inr h' \<Rightarrow> TakeOwn 7 1 t h' = Inl (Outstanding 1 1)) \<and>
     foldE (lend_op 7 1 t) h [True, False] = Inr h \<and> foldE (lend_op 7 1 t) h [False] = Inl (No_lends 1)"
proof (cases "NewOwn 7 42 (newHandleTable :: unit handleTable) empty_heap")
  case (fields i t h)
  have a: "live_at t 1 0" "typeIdx (objs h 0) = 7" "own (objs h 0)" "lendCount (objs h 0) = 0"
    using fields by (auto simp: NewOwn_def add_handle_def newResourceEntry_def addEntry_def newHandleTable_def
        empty_heap_def resourceEntrySlab_def Let_def upt_conv_Cons zero_entry_def live_at_def)
  note l = lends_block_transfer [OF a]
  have le: "n \<le> 1 \<longleftrightarrow> n = 0 \<or> n = 1" for n :: nat by auto
  show ?thesis using l [of "[True, True, False]"] l [of "[True, False]"] l [of "[False]"]
    by (auto simp: fields all_le_Suc le split: sum.splits)
       (auto simp: le_Suc_eq)
qed

text \<open>
  Registering destructors for a tag composes them: they all run in registration order
  on the dropped representation, each on the host state the previous one left, and the
  first error is returned after the rest have run. Other tags keep theirs.
\<close>

theorem registerDtor_composes:
  assumes "dtorFor t ti = None" "ds \<noteq> []"
  shows "(case dtorFor (foldl (\<lambda>t d. registerDtor ti d t) t ds) ti of
      None \<Rightarrow> False
    | Some d \<Rightarrow> \<forall>w rp. d w rp = (first_err (fst (run_dtors ds w rp)), snd (run_dtors ds w rp))) \<and>
    (\<forall>tj. tj \<noteq> ti \<longrightarrow> dtorFor (foldl (\<lambda>t d. registerDtor ti d t) t ds) tj = dtorFor t tj)"
  using register_all [of t ti ds] assms by (simp add: dtorFor_def register_other split_def Let_def)

theorem registerDtor_composes_witness:
  "case dtorFor (foldl (\<lambda>t d. registerDtor 5 d t) newHandleTable
       [\<lambda>w rp. (Some ''a'', w @ [rp]), \<lambda>w rp. (Some ''b'', w @ [rp + 1])]) 5 of
     None \<Rightarrow> False | Some d \<Rightarrow> d [] 9 = (Some ''a'', [9, 10])"
  using registerDtor_composes [of "newHandleTable :: u32 list handleTable" 5
      "[\<lambda>w rp. (Some ''a'', w @ [rp]), \<lambda>w rp. (Some ''b'', w @ [rp + 1])]"]
  by (simp add: dtorFor_def newHandleTable_def split: option.splits)

text \<open>
  Entries added in a row get pairwise distinct indices, none of them 0 and none live
  before, each finds its entry again, and no other index changes.
\<close>

theorem handles_distinct:
  assumes "index_inv t" "ht.run (map Alloc es) t = Some (ks, t')"
  shows "distinct ks \<and> length ks = length es \<and> 0 \<notin> set ks \<and> (\<forall>k \<in> set ks. getEntry (of_nat k) t = None) \<and>
    (\<forall>n < length es. getEntry (of_nat (ks ! n)) t' = Some (es ! n)) \<and>
    (\<forall>i. unat i \<notin> set ks \<longrightarrow> getEntry i t' = getEntry i t)"
proof -
  note d = ht.allocs_distinct [OF assms] and inv = ht.run_refines [OF assms]
  have at: "\<exists>e. handle_view t' k = Some e" if "k \<in> set ks" for k
    using d that by (metis in_set_conv_nth)
  then have k: "unat (of_nat k :: u32) = k" if "k \<in> set ks" for k
    using handle_view_bound that unat_of_nat_u32 by blast
  have "0 \<notin> set ks" using at [of 0] handle_view_0 [of t'] inv by auto
  moreover have "\<forall>k \<in> set ks. getEntry (of_nat k) t = None" using d k by (simp add: getEntry_view)
  moreover have "\<forall>n < length es. getEntry (of_nat (ks ! n)) t' = Some (es ! n)"
    using d k by (simp add: getEntry_view)
  moreover have "\<forall>i. unat i \<notin> set ks \<longrightarrow> getEntry i t' = getEntry i t" using d by (simp add: getEntry_view)
  ultimately show ?thesis using d by blast
qed

theorem handles_distinct_witness:
  "case ht.run (map Alloc [Subtask 4, WaitableSet 5]) (newHandleTable :: unit handleTable) of
     None \<Rightarrow> False | Some (ks, t) \<Rightarrow> ks = [1, 2] \<and> getEntry 2 t = Some (WaitableSet 5)"
proof -
  obtain t where r: "ht.run (map Alloc [Subtask 4, WaitableSet 5]) (newHandleTable :: unit handleTable) = Some ([1, 2], t)"
    by (simp add: handle_alloc_def alloc_ok_def addEntry_def newHandleTable_def)
  from handles_distinct [OF initial_inv(1) r]
  have "\<forall>n < 2. getEntry (of_nat ([1, 2] ! n)) t = Some ([Subtask 4, WaitableSet 5] ! n)" by simp
  then have "getEntry (of_nat ([1, 2] ! 1)) t = Some ([Subtask 4, WaitableSet 5] ! 1)" by (rule allE [of _ 1]) simp
  then show ?thesis by (simp add: r del: list.map)
qed

text \<open>
  The diagnosis of an index that is not live is exact: it says that no handle of the
  type was ever live exactly when none is live now, and otherwise gives their number; a
  live index is refused exactly when it is not a resource or a resource of another type.
\<close>

theorem lookup_handle_diagnosis:
  assumes "index_inv t"
  shows "lookup_handle ti i t h =
    (case getEntry i t of
       None \<Rightarrow> (let n = card {j. \<exists>a. live_at t j a \<and> typeIdx (objs h a) = ti} in
          Inl (if n = 0 then Unknown_never_issued i ti else Unknown_dropped i ti n))
     | Some e \<Rightarrow> (if \<not> is_res e then Inl (Not_a_resource i)
          else case e of Res a \<Rightarrow> if typeIdx (objs h a) = ti then Inr a else Inl (Wrong_type i (typeIdx (objs h a)) ti)))"
  unfolding lookup_handle_def getEntry_def liveCount_card [OF assms] Let_def
  by (cases "entries t i"; cases "the (entries t i)") simp_all

theorem lookup_handle_diagnosis_witness:
  "lookup_handle 7 3 (newHandleTable :: unit handleTable) empty_heap = Inl (Unknown_never_issued 3 7)"
  using lookup_handle_diagnosis [OF initial_inv(1), of 7 3 empty_heap]
  by (simp add: getEntry_def newHandleTable_def live_at_def)

end
