(* ===== verification/Waitables.thy ===== *)
theory Waitables
  imports Handle_Table
begin

text \<open>
  Waitables, waitable sets and subtasks of \<^verbatim>\<open>src/internal/component/instance/waitable.go\<close>, with
  the canonical built-ins on them (\<^verbatim>\<open>async_builtins.go\<close>) and the points of an async-lowered
  call that create, park and resolve a subtask (\<^verbatim>\<open>async_host_import.go\<close>). A waitable is
  embedded in its table entry, so both share one address; sets and waitables point to each
  other, and subtasks point to the resource entries lent to them. The whole of it is one
  explicit store, \<open>astate\<close>.
\<close>

section \<open>State\<close>

datatype eventCode =
    eventNone
  | eventSubtask
  | eventStreamRead
  | eventStreamWrite
  | eventFutureRead
  | eventFutureWrite
  | eventTaskCancelled

record eventTuple =
  code :: eventCode
  p1 :: u32
  p2 :: u32

text \<open>A deferred event is a closure \<open>'t\<close>, run at delivery on the rest of the instance's state \<open>'x\<close>.\<close>

record 't waitable =
  pendingEvent :: "'t option"
  pendingSub :: "nat option"
  pendingSubSi :: u32
  wset :: "nat option"
  syncWaiter :: bool

record waitableSet =
  elems :: "nat list"
  numWaiting :: int

datatype subtaskState =
    subtaskStarting
  | subtaskStarted
  | subtaskReturned
  | subtaskCancelledBeforeStarted
  | subtaskCancelledBeforeReturned

fun state_num :: "subtaskState \<Rightarrow> u32" where
  "state_num subtaskStarting = 0"
| "state_num subtaskStarted = 1"
| "state_num subtaskReturned = 2"
| "state_num subtaskCancelledBeforeStarted = 3"
| "state_num subtaskCancelledBeforeReturned = 4"

text \<open>\<open>lenders = None\<close> is Go's nil slice, the mark of a delivered resolution.\<close>

record subtask =
  sub_state :: subtaskState
  lenders :: "nat list option"
  flatResults :: "u64 list"
  cancellationRequested :: bool
  subtaski :: u32

record ('x, 't, 'w) astate =
  resources :: "'w handleTable"
  hp :: heap
  waitables :: "nat \<Rightarrow> 't waitable"
  sets :: "nat \<Rightarrow> waitableSet"
  subtasks :: "nat \<Rightarrow> subtask"
  obrk :: nat
  ext :: 'x
  mayLeave :: bool

datatype as_error =
    May_not_leave
  | Not_a_waitable u32
  | Not_a_waitable_set u32
  | Not_a_subtask u32
  | Has_sync_waiter u32
  | Still_joined nat
  | Still_waiting int
  | Not_yet_resolved
  | Panic_pending_event
  | Panic_no_event
  | Panic_flat_results
  | Lowering_failed string

definition zero_waitable :: "'t waitable" where
  "zero_waitable = \<lparr>pendingEvent = None, pendingSub = None, pendingSubSi = 0, wset = None, syncWaiter = False\<rparr>"

definition newSubtask :: subtask where
  "newSubtask = \<lparr>sub_state = subtaskStarting, lenders = Some [], flatResults = [], cancellationRequested = False, subtaski = 0\<rparr>"

definition upd_w :: "nat \<Rightarrow> ('t waitable \<Rightarrow> 't waitable) \<Rightarrow> ('x, 't, 'w) astate \<Rightarrow> ('x, 't, 'w) astate" where
  "upd_w w f st = st\<lparr>waitables := (waitables st)(w := f (waitables st w))\<rparr>"

definition upd_s :: "nat \<Rightarrow> (waitableSet \<Rightarrow> waitableSet) \<Rightarrow> ('x, 't, 'w) astate \<Rightarrow> ('x, 't, 'w) astate" where
  "upd_s s f st = st\<lparr>sets := (sets st)(s := f (sets st s))\<rparr>"

definition upd_t :: "nat \<Rightarrow> (subtask \<Rightarrow> subtask) \<Rightarrow> ('x, 't, 'w) astate \<Rightarrow> ('x, 't, 'w) astate" where
  "upd_t s f st = st\<lparr>subtasks := (subtasks st)(s := f (subtasks st s))\<rparr>"

section \<open>Subtasks\<close>

definition resolved :: "subtask \<Rightarrow> bool" where
  "resolved s \<longleftrightarrow> 2 \<le> state_num (sub_state s)"

definition resolveDelivered :: "subtask \<Rightarrow> bool" where
  "resolveDelivered s \<longleftrightarrow> lenders s = None"

definition setSubtaski :: "nat \<Rightarrow> u32 \<Rightarrow> ('x, 't, 'w) astate \<Rightarrow> ('x, 't, 'w) astate" where
  "setSubtaski s i = upd_t s (\<lambda>x. x\<lparr>subtaski := i\<rparr>)"

definition addLender :: "nat \<Rightarrow> nat \<Rightarrow> ('x, 't, 'w) astate \<Rightarrow> ('x, 't, 'w) astate" where
  "addLender s a st =
     (let st = st\<lparr>hp := set_lends a 1 (hp st)\<rparr>
      in upd_t s (\<lambda>x. x\<lparr>lenders := Some (case lenders x of None \<Rightarrow> [a] | Some l \<Rightarrow> l @ [a])\<rparr>) st)"

definition resolve_subtask ::
  "nat \<Rightarrow> subtaskState \<Rightarrow> u64 list \<Rightarrow> ('x, 't, 'w) astate \<Rightarrow> as_error + ('x, 't, 'w) astate" where
  "resolve_subtask s state fl st =
     (if state \<noteq> subtaskReturned \<and> fl \<noteq> [] then Inl Panic_flat_results
      else Inr (upd_t s (\<lambda>x. x\<lparr>sub_state := state, flatResults := fl\<rparr>) st))"

definition deliverResolve :: "nat \<Rightarrow> ('x, 't, 'w) astate \<Rightarrow> ('x, 't, 'w) astate" where
  "deliverResolve s st =
     (let ls = (case lenders (subtasks st s) of None \<Rightarrow> [] | Some l \<Rightarrow> l);
          st = st\<lparr>hp := foldl (\<lambda>h a. set_lends a (-1) h) (hp st) ls\<rparr>
      in upd_t s (\<lambda>x. x\<lparr>lenders := None\<rparr>) st)"

section \<open>Waitables\<close>

definition setPendingEvent :: "nat \<Rightarrow> 't \<Rightarrow> ('x, 't, 'w) astate \<Rightarrow> ('x, 't, 'w) astate" where
  "setPendingEvent w ev = upd_w w (\<lambda>x. x\<lparr>pendingEvent := Some ev\<rparr>)"

definition setPendingSubtaskEvent :: "nat \<Rightarrow> nat \<Rightarrow> u32 \<Rightarrow> ('x, 't, 'w) astate \<Rightarrow> ('x, 't, 'w) astate" where
  "setPendingSubtaskEvent w s i = upd_w w (\<lambda>x. x\<lparr>pendingSub := Some s, pendingSubSi := i\<rparr>)"

definition hasPendingEvent :: "'t waitable \<Rightarrow> bool" where
  "hasPendingEvent x \<longleftrightarrow> pendingEvent x \<noteq> None \<or> pendingSub x \<noteq> None"

text \<open>Calling a nil closure panics.\<close>

definition getPendingEvent ::
  "('t \<Rightarrow> 'x \<Rightarrow> eventTuple \<times> 'x) \<Rightarrow> nat \<Rightarrow> ('x, 't, 'w) astate \<Rightarrow> as_error + eventTuple \<times> ('x, 't, 'w) astate" where
  "getPendingEvent run w st =
     (case pendingSub (waitables st w) of
        Some s \<Rightarrow>
          let i = pendingSubSi (waitables st w);
              st = upd_w w (\<lambda>x. x\<lparr>pendingSub := None, pendingSubSi := 0\<rparr>) st;
              st = (if resolved (subtasks st s) \<and> \<not> resolveDelivered (subtasks st s) then deliverResolve s st else st)
          in Inr (\<lparr>code = eventSubtask, p1 = i, p2 = state_num (sub_state (subtasks st s))\<rparr>, st)
      | None \<Rightarrow>
          let ev = pendingEvent (waitables st w);
              st = upd_w w (\<lambda>x. x\<lparr>pendingEvent := None\<rparr>) st
          in case ev of
               None \<Rightarrow> Inl Panic_no_event
             | Some t \<Rightarrow> (let (e, y) = run t (ext st) in Inr (e, st\<lparr>ext := y\<rparr>)))"

definition inWaitableSet :: "'t waitable \<Rightarrow> bool" where
  "inWaitableSet x \<longleftrightarrow> wset x \<noteq> None"

text \<open>\<^verbatim>\<open>append(elems[:i], elems[i+1:]...)\<close> at the first occurrence.\<close>

definition set_remove :: "nat \<Rightarrow> nat \<Rightarrow> ('x, 't, 'w) astate \<Rightarrow> ('x, 't, 'w) astate" where
  "set_remove s w = upd_s s (\<lambda>x. x\<lparr>elems := remove1 w (elems x)\<rparr>)"

definition waitable_join :: "nat \<Rightarrow> nat option \<Rightarrow> ('x, 't, 'w) astate \<Rightarrow> ('x, 't, 'w) astate" where
  "waitable_join w ws st =
     (let st = (case wset (waitables st w) of None \<Rightarrow> st | Some s \<Rightarrow> set_remove s w st);
          st = upd_w w (\<lambda>x. x\<lparr>wset := ws\<rparr>) st
      in case ws of None \<Rightarrow> st | Some s \<Rightarrow> upd_s s (\<lambda>x. x\<lparr>elems := elems x @ [w]\<rparr>) st)"

definition dropWaitable :: "nat \<Rightarrow> ('x, 't, 'w) astate \<Rightarrow> as_error + ('x, 't, 'w) astate" where
  "dropWaitable w st =
     (if hasPendingEvent (waitables st w) then Inl Panic_pending_event else Inr (waitable_join w None st))"

definition dropSubtask :: "nat \<Rightarrow> ('x, 't, 'w) astate \<Rightarrow> as_error + ('x, 't, 'w) astate" where
  "dropSubtask s st =
     (if \<not> resolveDelivered (subtasks st s) then Inl Not_yet_resolved else dropWaitable s st)"

section \<open>Waitable sets\<close>

definition set_hasPendingEvent :: "nat \<Rightarrow> ('x, 't, 'w) astate \<Rightarrow> bool" where
  "set_hasPendingEvent s st \<longleftrightarrow> list_ex (\<lambda>w. hasPendingEvent (waitables st w)) (elems (sets st s))"

definition set_getPendingEvent ::
  "('t \<Rightarrow> 'x \<Rightarrow> eventTuple \<times> 'x) \<Rightarrow> nat \<Rightarrow> ('x, 't, 'w) astate \<Rightarrow> as_error + eventTuple \<times> ('x, 't, 'w) astate" where
  "set_getPendingEvent run s st =
     (case List.find (\<lambda>w. hasPendingEvent (waitables st w)) (elems (sets st s)) of
        None \<Rightarrow> Inl Panic_no_event
      | Some w \<Rightarrow> getPendingEvent run w st)"

definition poll ::
  "('t \<Rightarrow> 'x \<Rightarrow> eventTuple \<times> 'x) \<Rightarrow> nat \<Rightarrow> ('x, 't, 'w) astate \<Rightarrow> as_error + eventTuple \<times> ('x, 't, 'w) astate" where
  "poll run s st =
     (if \<not> set_hasPendingEvent s st then Inr (\<lparr>code = eventNone, p1 = 0, p2 = 0\<rparr>, st)
      else set_getPendingEvent run s st)"

definition dropSet :: "waitableSet \<Rightarrow> as_error + unit" where
  "dropSet s =
     (if elems s \<noteq> [] then Inl (Still_joined (length (elems s)))
      else if 0 < numWaiting s then Inl (Still_waiting (numWaiting s))
      else Inr ())"

section \<open>Built-ins\<close>

definition requireMayLeave :: "('x, 't, 'w) astate \<Rightarrow> as_error + unit" where
  "requireMayLeave st = (if mayLeave st then Inr () else Inl May_not_leave)"

definition waitableSetNew :: "('x, 't, 'w) astate \<Rightarrow> as_error + u32 \<times> ('x, 't, 'w) astate" where
  "waitableSetNew st =
     bindE (requireMayLeave st) (\<lambda>_.
     let s = obrk st;
         st = st\<lparr>obrk := s + 1, sets := (sets st)(s := \<lparr>elems = [], numWaiting = 0\<rparr>)\<rparr>;
         (i, t) = addEntry (WaitableSet s) (resources st)
     in Inr (i, st\<lparr>resources := t\<rparr>))"

definition requireWaitableSet :: "u32 \<Rightarrow> ('x, 't, 'w) astate \<Rightarrow> as_error + nat" where
  "requireWaitableSet i st =
     (case getEntry i (resources st) of Some (WaitableSet s) \<Rightarrow> Inr s | _ \<Rightarrow> Inl (Not_a_waitable_set i))"

text \<open>The entries that embed a waitable, with its address.\<close>

fun waitablePtr :: "tableEntry \<Rightarrow> nat option" where
  "waitablePtr (Subtask w) = Some w"
| "waitablePtr (StreamEnd w) = Some w"
| "waitablePtr (FutureEnd w) = Some w"
| "waitablePtr _ = None"

definition waitableSetDrop :: "u32 \<Rightarrow> ('x, 't, 'w) astate \<Rightarrow> as_error + ('x, 't, 'w) astate" where
  "waitableSetDrop i st =
     bindE (requireMayLeave st) (\<lambda>_.
     bindE (requireWaitableSet i st) (\<lambda>s.
     bindE (dropSet (sets st s)) (\<lambda>_.
     Inr (st\<lparr>resources := snd (removeEntry i (resources st))\<rparr>))))"

definition waitableJoin :: "u32 \<Rightarrow> u32 \<Rightarrow> ('x, 't, 'w) astate \<Rightarrow> as_error + ('x, 't, 'w) astate" where
  "waitableJoin wi si st =
     bindE (requireMayLeave st) (\<lambda>_.
     case Option.bind (getEntry wi (resources st)) waitablePtr of
       None \<Rightarrow> Inl (Not_a_waitable wi)
     | Some w \<Rightarrow>
         (if syncWaiter (waitables st w) then Inl (Has_sync_waiter wi)
          else if si = 0 then Inr (waitable_join w None st)
          else bindE (requireWaitableSet si st) (\<lambda>s. Inr (waitable_join w (Some s) st))))"

definition subtaskDrop :: "u32 \<Rightarrow> ('x, 't, 'w) astate \<Rightarrow> as_error + ('x, 't, 'w) astate" where
  "subtaskDrop i st =
     bindE (requireMayLeave st) (\<lambda>_.
     case getEntry i (resources st) of
       Some (Subtask s) \<Rightarrow>
         bindE (dropSubtask s st) (\<lambda>st'. Inr (st'\<lparr>resources := snd (removeEntry i (resources st'))\<rparr>))
     | _ \<Rightarrow> Inl (Not_a_subtask i))"

section \<open>The life of an async-lowered call\<close>

text \<open>A fresh subtask, at an address of its own.\<close>

definition begin_call :: "('x, 't, 'w) astate \<Rightarrow> nat \<times> ('x, 't, 'w) astate" where
  "begin_call st = (obrk st, st\<lparr>obrk := obrk st + 1,
     waitables := (waitables st)(obrk st := zero_waitable), subtasks := (subtasks st)(obrk st := newSubtask)\<rparr>)"

definition call_started :: "nat \<Rightarrow> ('x, 't, 'w) astate \<Rightarrow> ('x, 't, 'w) astate" where
  "call_started s = upd_t s (\<lambda>x. x\<lparr>sub_state := subtaskStarted\<rparr>)"

text \<open>
  The resolution of a call: a cancelled call takes its state from how far it got; the results
  of one that returned have been converted and lowered into the caller's memory, which may have
  failed (\<open>lowered\<close>); a parked subtask gets its event.
\<close>

definition on_resolve ::
  "nat \<Rightarrow> bool \<Rightarrow> as_error + u64 list \<Rightarrow> ('x, 't, 'w) astate \<Rightarrow> as_error + ('x, 't, 'w) astate" where
  "on_resolve s cancelled lowered st =
     bindE (if cancelled then
              (if sub_state (subtasks st s) = subtaskStarting
               then resolve_subtask s subtaskCancelledBeforeStarted [] st
               else resolve_subtask s subtaskCancelledBeforeReturned [] st)
            else bindE lowered (\<lambda>fl. resolve_subtask s subtaskReturned fl st)) (\<lambda>st.
     let i = subtaski (subtasks st s) in
     Inr (if i \<noteq> 0 then setPendingSubtaskEvent s s i st else st))"

text \<open>The end of the wrapper: deliver at once, or park the subtask and pack its index above the state.\<close>

definition finish_call :: "nat \<Rightarrow> ('x, 't, 'w) astate \<Rightarrow> u64 \<times> ('x, 't, 'w) astate" where
  "finish_call s st =
     (if resolved (subtasks st s) then
        let st = deliverResolve s st in (ucast (state_num (sub_state (subtasks st s))), st)
      else
        let (i, t) = addEntry (Subtask s) (resources st);
            st = setSubtaski s i (st\<lparr>resources := t\<rparr>)
        in (ucast (state_num (sub_state (subtasks st s))) OR push_bit 4 (ucast i), st))"

section \<open>Steps and invariant\<close>

text \<open>
  One step of an instance as far as its waitables go: the guest's built-ins, the stages of an
  async-lowered call (which is in flight while \<open>lenders\<close> is not nil), and stream and future
  ends that enter the table and have an event armed.
\<close>

inductive as_step :: "('t \<Rightarrow> 'x \<Rightarrow> eventTuple \<times> 'x) \<Rightarrow> ('x, 't, 'w) astate \<Rightarrow> ('x, 't, 'w) astate \<Rightarrow> bool"
  for run where
  set_new: "alloc_ok (resources st) \<Longrightarrow> waitableSetNew st = Inr (i, st') \<Longrightarrow> as_step run st st'"
| set_drop: "waitableSetDrop i st = Inr st' \<Longrightarrow> as_step run st st'"
| set_poll: "requireWaitableSet i st = Inr s \<Longrightarrow> poll run s st = Inr (ev, st') \<Longrightarrow> as_step run st st'"
| joined: "waitableJoin wi si st = Inr st' \<Longrightarrow> as_step run st st'"
| sub_drop: "subtaskDrop i st = Inr st' \<Longrightarrow> as_step run st st'"
| call_begin: "begin_call st = (s, st') \<Longrightarrow> as_step run st st'"
| call_lend: "s < obrk st \<Longrightarrow> lenders (subtasks st s) \<noteq> None \<Longrightarrow> sub_state (subtasks st s) = subtaskStarting \<Longrightarrow>
    as_step run st (addLender s a st)"
| call_start: "lenders (subtasks st s) \<noteq> None \<Longrightarrow> sub_state (subtasks st s) = subtaskStarting \<Longrightarrow>
    as_step run st (call_started s st)"
| call_resolve: "lenders (subtasks st s) \<noteq> None \<Longrightarrow> \<not> resolved (subtasks st s) \<Longrightarrow>
    on_resolve s cancelled lowered st = Inr st' \<Longrightarrow> as_step run st st'"
| call_finish: "alloc_ok (resources st) \<Longrightarrow> lenders (subtasks st s) \<noteq> None \<Longrightarrow> subtaski (subtasks st s) = 0 \<Longrightarrow>
    finish_call s st = (rv, st') \<Longrightarrow> as_step run st st'"
| end_new: "alloc_ok (resources st) \<Longrightarrow> e = StreamEnd (obrk st) \<or> e = FutureEnd (obrk st) \<Longrightarrow>
    addEntry e (resources st) = (i, t) \<Longrightarrow>
    as_step run st (st\<lparr>obrk := obrk st + 1, waitables := (waitables st)(obrk st := zero_waitable), resources := t\<rparr>)"
| end_arm: "getEntry i (resources st) = Some (StreamEnd w) \<or> getEntry i (resources st) = Some (FutureEnd w) \<Longrightarrow>
    as_step run st (setPendingEvent w ev st)"

definition init_astate :: "'w handleTable \<Rightarrow> heap \<Rightarrow> 'x \<Rightarrow> ('x, 't, 'w) astate" where
  "init_astate t h x = \<lparr>resources = t, hp = h, waitables = (\<lambda>_. zero_waitable),
     sets = (\<lambda>_. \<lparr>elems = [], numWaiting = 0\<rparr>), subtasks = (\<lambda>_. newSubtask\<lparr>lenders := None\<rparr>),
     obrk = 0, ext = x, mayLeave = True\<rparr>"

inductive as_reachable :: "('t \<Rightarrow> 'x \<Rightarrow> eventTuple \<times> 'x) \<Rightarrow> ('x, 't, 'w) astate \<Rightarrow> ('x, 't, 'w) astate \<Rightarrow> bool"
  for run and init where
  start: "as_reachable run init init"
| step: "as_reachable run init st \<Longrightarrow> as_step run st st' \<Longrightarrow> as_reachable run init st'"

text \<open>Sets and waitables agree on membership, without duplicates.\<close>

definition members_agree :: "('x, 't, 'w) astate \<Rightarrow> bool" where
  "members_agree st \<longleftrightarrow> (\<forall>s. distinct (elems (sets st s))) \<and>
     (\<forall>w s. w \<in> set (elems (sets st s)) \<longleftrightarrow> wset (waitables st w) = Some s)"

text \<open>A joined waitable and the set it is in are both live in the table.\<close>

definition no_dangling :: "('x, 't, 'w) astate \<Rightarrow> bool" where
  "no_dangling st \<longleftrightarrow> (\<forall>w s. wset (waitables st w) = Some s \<longrightarrow>
     (\<exists>i. entries (resources st) i = Some (WaitableSet s)) \<and>
     (\<exists>i e. entries (resources st) i = Some e \<and> waitablePtr e = Some w))"

text \<open>Table entries and subtask records agree, and addresses in use are below the allocation mark.\<close>

definition entries_agree :: "('x, 't, 'w) astate \<Rightarrow> bool" where
  "entries_agree st \<longleftrightarrow> (\<forall>i s. entries (resources st) i = Some (Subtask s) \<longrightarrow>
       subtaski (subtasks st s) = i \<and> pendingEvent (waitables st s) = None) \<and>
     (\<forall>i w. entries (resources st) i \<in> {Some (StreamEnd w), Some (FutureEnd w)} \<longrightarrow>
       w < obrk st \<and> subtaski (subtasks st w) = 0 \<and> lenders (subtasks st w) = None) \<and>
     (\<forall>i s. entries (resources st) i = Some (WaitableSet s) \<longrightarrow> s < obrk st) \<and>
     (\<forall>s. subtaski (subtasks st s) \<noteq> 0 \<longrightarrow> s < obrk st) \<and>
     (\<forall>s. lenders (subtasks st s) \<noteq> None \<longrightarrow> s < obrk st \<and> (subtaski (subtasks st s) = 0 \<longrightarrow> pendingEvent (waitables st s) = None))"

text \<open>A pending subtask event belongs to its own subtask, which is parked, resolved and not yet delivered.\<close>

definition events_agree :: "('x, 't, 'w) astate \<Rightarrow> bool" where
  "events_agree st \<longleftrightarrow> (\<forall>w s. pendingSub (waitables st w) = Some s \<longrightarrow>
     s = w \<and> pendingSubSi (waitables st w) = subtaski (subtasks st w) \<and> subtaski (subtasks st w) \<noteq> 0 \<and>
     resolved (subtasks st w) \<and> lenders (subtasks st w) \<noteq> None)"

definition async_inv :: "('x, 't, 'w) astate \<Rightarrow> bool" where
  "async_inv st \<longleftrightarrow> index_inv (resources st) \<and> members_agree st \<and> no_dangling st \<and> entries_agree st \<and> events_agree st"

definition lent_by :: "subtask \<Rightarrow> nat list" where
  "lent_by s = (case lenders s of None \<Rightarrow> [] | Some l \<Rightarrow> l)"

text \<open>The lends of entry \<open>a\<close> that subtasks hold.\<close>

definition owed :: "('x, 't, 'w) astate \<Rightarrow> nat \<Rightarrow> nat" where
  "owed st a = (\<Sum>s<obrk st. count_list (lent_by (subtasks st s)) a)"

definition debt :: "('x, 't, 'w) astate \<Rightarrow> nat \<Rightarrow> int" where
  "debt st a = lendCount (objs (hp st) a) - int (owed st a)"

text \<open>A call that borrows a handle, parks and resolves, for the witnesses.\<close>

definition demo_run :: "unit \<Rightarrow> unit \<Rightarrow> eventTuple \<times> unit" where
  "demo_run t x = (\<lparr>code = eventStreamRead, p1 = 0, p2 = 0\<rparr>, x)"

definition demo_table :: "unit handleTable" where
  "demo_table = fst (snd (NewOwn 7 42 newHandleTable empty_heap))"

definition demo_heap :: heap where
  "demo_heap = snd (snd (NewOwn 7 42 (newHandleTable :: unit handleTable) empty_heap))"

definition demo_init :: "(unit, unit, unit) astate" where
  "demo_init = init_astate demo_table demo_heap ()"

definition demo_lent :: "(unit, unit, unit) astate" where
  "demo_lent = addLender 0 0 (snd (begin_call demo_init))"

definition demo_parked :: "(unit, unit, unit) astate" where
  "demo_parked = snd (finish_call 0 (call_started 0 demo_lent))"

definition demo_resolved :: "(unit, unit, unit) astate" where
  "demo_resolved = projr (on_resolve 0 False (Inr []) demo_parked)"

section \<open>Joining and leaving\<close>

lemma upd_simps [simp]:
  "waitables (upd_w w f st) = (waitables st)(w := f (waitables st w))"
  "sets (upd_w w f st) = sets st" "subtasks (upd_w w f st) = subtasks st" "resources (upd_w w f st) = resources st"
  "hp (upd_w w f st) = hp st" "obrk (upd_w w f st) = obrk st" "mayLeave (upd_w w f st) = mayLeave st"
  "ext (upd_w w f st) = ext st"
  "sets (upd_s s g st) = (sets st)(s := g (sets st s))"
  "waitables (upd_s s g st) = waitables st" "subtasks (upd_s s g st) = subtasks st" "resources (upd_s s g st) = resources st"
  "hp (upd_s s g st) = hp st" "obrk (upd_s s g st) = obrk st" "mayLeave (upd_s s g st) = mayLeave st"
  "ext (upd_s s g st) = ext st"
  "subtasks (upd_t s k st) = (subtasks st)(s := k (subtasks st s))"
  "waitables (upd_t s k st) = waitables st" "sets (upd_t s k st) = sets st" "resources (upd_t s k st) = resources st"
  "hp (upd_t s k st) = hp st" "obrk (upd_t s k st) = obrk st" "mayLeave (upd_t s k st) = mayLeave st"
  "ext (upd_t s k st) = ext st"
  by (simp_all add: upd_w_def upd_s_def upd_t_def)

lemma waitable_join_frame [simp]:
  "subtasks (waitable_join w ws st) = subtasks st" "resources (waitable_join w ws st) = resources st"
  "hp (waitable_join w ws st) = hp st" "obrk (waitable_join w ws st) = obrk st"
  "pendingSub (waitables (waitable_join w ws st) v) = pendingSub (waitables st v)"
  "pendingSubSi (waitables (waitable_join w ws st) v) = pendingSubSi (waitables st v)"
  "pendingEvent (waitables (waitable_join w ws st) v) = pendingEvent (waitables st v)"
  "wset (waitables (waitable_join w ws st) v) = (if v = w then ws else wset (waitables st v))"
  by (simp_all add: waitable_join_def set_remove_def Let_def split: option.splits)

lemma waitable_join_elems:
  "elems (sets (waitable_join w ws st) s) =
     (let old = (if wset (waitables st w) = Some s then remove1 w (elems (sets st s)) else elems (sets st s))
      in if ws = Some s then old @ [w] else old)"
  by (auto simp: waitable_join_def set_remove_def Let_def split: option.splits)

lemma waitable_join_members:
  assumes "members_agree st"
  shows "members_agree (waitable_join w ws st)"
proof -
  have d: "distinct (elems (sets st s))" and m: "v \<in> set (elems (sets st s)) \<longleftrightarrow> wset (waitables st v) = Some s" for v s
    using assms by (auto simp: members_agree_def)
  have old: "w \<notin> set (if wset (waitables st w) = Some s then remove1 w (elems (sets st s)) else elems (sets st s))" for s
    using d [of s] m [of w s] by auto
  have "distinct (elems (sets (waitable_join w ws st) s))" for s
    using d [of s] old [of s] by (auto simp: waitable_join_elems Let_def)
  moreover have "v \<in> set (elems (sets (waitable_join w ws st) s)) \<longleftrightarrow> wset (waitables (waitable_join w ws st) v) = Some s" for v s
    using old [of s] d [of s] m [of v s] by (auto simp: waitable_join_elems Let_def)
  ultimately show ?thesis unfolding members_agree_def by blast
qed

lemmas inv_defs = async_inv_def members_agree_def no_dangling_def entries_agree_def events_agree_def

lemma members_cong:
  assumes "members_agree st" "\<And>s. elems (sets st' s) = elems (sets st s)" "\<And>w. wset (waitables st' w) = wset (waitables st w)"
  shows "members_agree st'"
  using assms by (simp add: members_agree_def)

lemma dangling_cong:
  assumes "no_dangling st" "\<And>i e. entries (resources st) i = Some e \<Longrightarrow> entries (resources st') i = Some e"
    "\<And>w. wset (waitables st' w) = wset (waitables st w)"
  shows "no_dangling st'"
  using assms unfolding no_dangling_def by metis

lemma removeEntry_live: "entries t i = Some e \<Longrightarrow> removeEntry i t = (Some e, remove_index i t)"
  by (simp add: removeEntry_def)

lemma joined_inv:
  assumes inv: "async_inv st" and j: "waitableJoin wi si st = Inr st'"
  shows "async_inv st'"
proof -
  obtain w e where w: "entries (resources st) wi = Some e" "waitablePtr e = Some w"
    and ws: "st' = waitable_join w None st \<or> (\<exists>s. entries (resources st) si = Some (WaitableSet s) \<and> st' = waitable_join w (Some s) st)"
    using j by (auto simp: waitableJoin_def getEntry_def requireWaitableSet_def bind_eq_Some_conv
        split: option.splits if_splits tableEntry.splits)
  have "members_agree st'" using inv ws waitable_join_members by (auto simp: async_inv_def)
  moreover have "no_dangling st'" using inv w ws unfolding async_inv_def no_dangling_def
    by (auto split: if_splits) (use w in blast)
  moreover have "entries_agree st'" "events_agree st'" "index_inv (resources st')"
    using inv ws by (auto simp: async_inv_def entries_agree_def events_agree_def)
  ultimately show ?thesis by (simp add: async_inv_def)
qed

lemma set_new_inv:
  assumes inv: "async_inv st" and ok: "alloc_ok (resources st)" and new: "waitableSetNew st = Inr (i, st')"
  shows "async_inv st'"
proof -
  obtain t where a: "addEntry (WaitableSet (obrk st)) (resources st) = (i, t)"
    and st': "st' = st\<lparr>obrk := obrk st + 1, sets := (sets st)(obrk st := \<lparr>elems = [], numWaiting = 0\<rparr>), resources := t\<rparr>"
    using new by (auto simp: waitableSetNew_def Let_def split: prod.splits)
  have s: "entries (resources st) i = None" "0 < i" "entries t = (entries (resources st))(i \<mapsto> WaitableSet (obrk st))" "index_inv t"
    using addEntry_spec [OF _ ok a] inv by (auto simp: async_inv_def)
  have unused: "wset (waitables st w) \<noteq> Some (obrk st)" for w
    using inv by (auto simp: inv_defs) (metis less_irrefl)
  then have "elems (sets st (obrk st)) = []"
    using inv by (simp add: async_inv_def members_agree_def) (metis equals0I set_empty)
  then have "members_agree st'" using inv unused by (auto simp: async_inv_def st' members_agree_def)
  moreover have "no_dangling st'"
    by (rule dangling_cong [of st]) (use inv s in \<open>auto simp: async_inv_def st'\<close>)
  moreover have "entries_agree st'"
    using inv s by (auto simp: async_inv_def entries_agree_def st' less_Suc_eq)
  moreover have "events_agree st'" using inv by (simp add: async_inv_def events_agree_def st')
  ultimately show ?thesis using s by (simp add: async_inv_def st')
qed

lemma set_drop_inv:
  assumes inv: "async_inv st" and d: "waitableSetDrop i st = Inr st'"
  shows "async_inv st'"
proof -
  obtain s where s: "entries (resources st) i = Some (WaitableSet s)" "elems (sets st s) = []"
    and st': "st' = st\<lparr>resources := remove_index i (resources st)\<rparr>"
    using d by (auto simp: waitableSetDrop_def requireWaitableSet_def getEntry_def dropSet_def removeEntry_live
        split: option.splits tableEntry.splits if_splits)
  have m: "w \<in> set (elems (sets st r)) \<longleftrightarrow> wset (waitables st w) = Some r" for w r
    using inv by (simp add: async_inv_def members_agree_def)
  have none: "wset (waitables st w) \<noteq> Some s" for w using s(2) m [of w s] by simp
  have e: "entries (resources st') j = (if j = i then None else entries (resources st) j)" for j
    by (simp add: st' remove_index_def)
  have "no_dangling st'"
    using inv none s(1) unfolding async_inv_def no_dangling_def e
    by (simp add: st') (metis option.sel tableEntry.inject(2) waitablePtr.simps(5) option.distinct(1))
  moreover have "entries_agree st'" using inv by (simp add: async_inv_def entries_agree_def e) (simp add: st')
  moreover have "members_agree st'" "events_agree st'" using inv by (simp_all add: async_inv_def members_agree_def events_agree_def st')
  moreover have "index_inv (resources st')" using inv s remove_index_inv [of "resources st" i] by (simp add: async_inv_def st')
  ultimately show ?thesis by (simp add: async_inv_def)
qed

lemma sub_drop_inv:
  assumes inv: "async_inv st" and d: "subtaskDrop i st = Inr st'"
  shows "async_inv st'"
proof -
  obtain s where s: "entries (resources st) i = Some (Subtask s)"
    and st': "st' = (waitable_join s None st)\<lparr>resources := remove_index i (resources st)\<rparr>"
    using d by (auto simp: subtaskDrop_def getEntry_def dropSubtask_def dropWaitable_def removeEntry_live
        split: option.splits tableEntry.splits if_splits)
  have e: "entries (resources st') j = (if j = i then None else entries (resources st) j)" for j
    by (simp add: st' remove_index_def)
  have w: "wset (waitables st' v) = (if v = s then None else wset (waitables st v))" for v
    by (simp add: st')
  have "no_dangling st'"
    using inv s unfolding async_inv_def no_dangling_def e w
    by simp (metis option.sel tableEntry.distinct(11) waitablePtr.simps(1) option.distinct(1))
  moreover have "entries_agree st'" using inv by (simp add: async_inv_def entries_agree_def e) (simp add: st')
  moreover have "members_agree st'" using waitable_join_members [of st s None] inv
    by (simp add: async_inv_def members_agree_def st')
  moreover have "events_agree st'" using inv by (simp add: async_inv_def events_agree_def st')
  moreover have "index_inv (resources st')" using inv s remove_index_inv [of "resources st" i] by (simp add: async_inv_def st')
  ultimately show ?thesis by (simp add: async_inv_def)
qed

lemma deliverResolve_simps [simp]:
  "waitables (deliverResolve s st) = waitables st" "sets (deliverResolve s st) = sets st"
  "resources (deliverResolve s st) = resources st" "obrk (deliverResolve s st) = obrk st"
  "subtasks (deliverResolve s st) = (subtasks st)(s := (subtasks st s)\<lparr>lenders := None\<rparr>)"
  "ext (deliverResolve s st) = ext st" "mayLeave (deliverResolve s st) = mayLeave st"
  by (simp_all add: deliverResolve_def Let_def)

lemma resolved_upd [simp]: "resolved (x\<lparr>lenders := l\<rparr>) = resolved x" "resolved (x\<lparr>subtaski := i\<rparr>) = resolved x"
  by (simp_all add: resolved_def)

text \<open>Taking the subtask event of a waitable in a state that satisfies the invariant.\<close>

lemma getPendingEvent_subtask:
  assumes inv: "async_inv st" and p: "pendingSub (waitables st w) = Some s"
  shows "getPendingEvent run w st =
    Inr (\<lparr>code = eventSubtask, p1 = subtaski (subtasks st w), p2 = state_num (sub_state (subtasks st w))\<rparr>,
         deliverResolve w (upd_w w (\<lambda>x. x\<lparr>pendingSub := None, pendingSubSi := 0\<rparr>) st))"
proof -
  have "s = w" "pendingSubSi (waitables st w) = subtaski (subtasks st w)" "resolved (subtasks st w)" "lenders (subtasks st w) \<noteq> None"
    using inv p by (auto simp: async_inv_def events_agree_def)
  then show ?thesis using p by (simp add: getPendingEvent_def Let_def resolveDelivered_def)
qed

lemma getPendingEvent_thunk:
  assumes p: "pendingSub (waitables st w) = None" "pendingEvent (waitables st w) = Some t" and r: "run t (ext st) = (ev, y)"
  shows "getPendingEvent run w st = Inr (ev, (upd_w w (\<lambda>x. x\<lparr>pendingEvent := None\<rparr>) st)\<lparr>ext := y\<rparr>)"
  using p r by (simp add: getPendingEvent_def Let_def)

lemma getPendingEvent_inv:
  assumes inv: "async_inv st" and g: "getPendingEvent run w st = Inr (ev, st')"
  shows "async_inv st'"
proof (cases "pendingSub (waitables st w)")
  case None
  then obtain t y where st': "st' = (upd_w w (\<lambda>x. x\<lparr>pendingEvent := None\<rparr>) st)\<lparr>ext := y\<rparr>"
    using g by (auto simp: getPendingEvent_def Let_def split: option.splits prod.splits)
  have "members_agree st'" by (rule members_cong [of st]) (use inv in \<open>auto simp: async_inv_def st'\<close>)
  moreover have "no_dangling st'" by (rule dangling_cong [of st]) (use inv in \<open>auto simp: async_inv_def st'\<close>)
  moreover have "entries_agree st'" "events_agree st'" "index_inv (resources st')"
    using inv by (auto simp: async_inv_def entries_agree_def events_agree_def st')
  ultimately show ?thesis by (simp add: async_inv_def)
next
  case (Some s)
  have st': "st' = deliverResolve w (upd_w w (\<lambda>x. x\<lparr>pendingSub := None, pendingSubSi := 0\<rparr>) st)"
    using getPendingEvent_subtask [OF inv Some, of run] g by simp
  have "members_agree st'" by (rule members_cong [of st]) (use inv in \<open>auto simp: async_inv_def st'\<close>)
  moreover have "no_dangling st'" by (rule dangling_cong [of st]) (use inv in \<open>auto simp: async_inv_def st'\<close>)
  moreover have "entries_agree st'" "events_agree st'" "index_inv (resources st')"
    using inv by (auto simp: async_inv_def entries_agree_def events_agree_def st')
  ultimately show ?thesis by (simp add: async_inv_def)
qed

lemma poll_inv:
  assumes "async_inv st" "poll run s st = Inr (ev, st')"
  shows "async_inv st'"
  using assms getPendingEvent_inv [of st run _ ev st']
  by (auto simp: poll_def set_getPendingEvent_def split: if_splits option.splits)

lemma upd_t_inv:
  assumes inv: "async_inv st" and l: "lenders (subtasks st s) \<noteq> None" "\<not> resolved (subtasks st s) \<or> resolved (f (subtasks st s))"
    and f: "subtaski (f (subtasks st s)) = subtaski (subtasks st s)" "lenders (f (subtasks st s)) \<noteq> None"
  shows "async_inv (upd_t s f (st\<lparr>hp := h\<rparr>))"
proof -
  have "members_agree (upd_t s f (st\<lparr>hp := h\<rparr>))" by (rule members_cong [of st]) (use inv in \<open>auto simp: async_inv_def\<close>)
  moreover have "no_dangling (upd_t s f (st\<lparr>hp := h\<rparr>))" by (rule dangling_cong [of st]) (use inv in \<open>auto simp: async_inv_def\<close>)
  moreover have "entries_agree (upd_t s f (st\<lparr>hp := h\<rparr>))"
    using inv l f by (auto simp: async_inv_def entries_agree_def)
  moreover have "events_agree (upd_t s f (st\<lparr>hp := h\<rparr>))"
    using inv l f by (auto simp: async_inv_def events_agree_def)
  ultimately show ?thesis using inv by (simp add: async_inv_def)
qed

lemma on_resolve_inv:
  assumes inv: "async_inv st" and s: "lenders (subtasks st s) \<noteq> None" "\<not> resolved (subtasks st s)"
    and r: "on_resolve s cancelled lowered st = Inr st'"
  shows "async_inv st'"
proof -
  define state where "state = (if \<not> cancelled then subtaskReturned
    else if sub_state (subtasks st s) = subtaskStarting then subtaskCancelledBeforeStarted else subtaskCancelledBeforeReturned)"
  define fl' where "fl' = (if cancelled then [] else projr lowered)"
  have v: "2 \<le> state_num state" by (simp add: state_def)
  have st': "st' = (let u = upd_t s (\<lambda>x. x\<lparr>sub_state := state, flatResults := fl'\<rparr>) st in
        if subtaski (subtasks st s) \<noteq> 0 then setPendingSubtaskEvent s s (subtaski (subtasks st s)) u else u)"
    using r by (cases cancelled; cases lowered)
      (simp_all add: on_resolve_def resolve_subtask_def Let_def state_def fl'_def split: if_splits)
  define u where "u = upd_t s (\<lambda>x. x\<lparr>sub_state := state, flatResults := fl'\<rparr>) st"
  have u: "async_inv u"
    using upd_t_inv [OF inv s(1), of "\<lambda>x. x\<lparr>sub_state := state, flatResults := fl'\<rparr>" "hp st"] s by (simp add: u_def)
  show ?thesis
  proof (cases "subtaski (subtasks st s) = 0")
    case True
    then show ?thesis using u by (simp add: st' Let_def u_def)
  next
    case False
    then have w: "st' = setPendingSubtaskEvent s s (subtaski (subtasks st s)) u" by (simp add: st' Let_def u_def)
    have "members_agree st'" by (rule members_cong [of u]) (use u in \<open>auto simp: async_inv_def w setPendingSubtaskEvent_def\<close>)
    moreover have "no_dangling st'" by (rule dangling_cong [of u]) (use u in \<open>auto simp: async_inv_def w setPendingSubtaskEvent_def\<close>)
    moreover have "entries_agree st'" using u by (auto simp: async_inv_def entries_agree_def w setPendingSubtaskEvent_def)
    moreover have "events_agree st'" using u False s v
      by (auto simp: async_inv_def events_agree_def w setPendingSubtaskEvent_def) (auto simp: u_def resolved_def)
    ultimately show ?thesis using u by (simp add: async_inv_def w setPendingSubtaskEvent_def)
  qed
qed

lemma finish_call_inv:
  assumes inv: "async_inv st" and ok: "alloc_ok (resources st)"
    and s: "lenders (subtasks st s) \<noteq> None" "subtaski (subtasks st s) = 0" and f: "finish_call s st = (rv, st')"
  shows "async_inv st'"
proof (cases "resolved (subtasks st s)")
  case True
  then have st': "st' = deliverResolve s st" using f by (simp add: finish_call_def Let_def)
  have "members_agree st'" by (rule members_cong [of st]) (use inv in \<open>auto simp: async_inv_def st'\<close>)
  moreover have "no_dangling st'" by (rule dangling_cong [of st]) (use inv in \<open>auto simp: async_inv_def st'\<close>)
  moreover have "entries_agree st'" "events_agree st'" "index_inv (resources st')"
    using inv s by (auto simp: async_inv_def entries_agree_def events_agree_def st')
  ultimately show ?thesis by (simp add: async_inv_def)
next
  case False
  obtain i t where a: "addEntry (Subtask s) (resources st) = (i, t)" by fastforce
  have st': "st' = setSubtaski s i (st\<lparr>resources := t\<rparr>)" using f False a by (simp add: finish_call_def Let_def)
  have e: "entries (resources st) i = None" "0 < i" "entries t = (entries (resources st))(i \<mapsto> Subtask s)" "index_inv t"
    using addEntry_spec [OF _ ok a] inv by (auto simp: async_inv_def)
  have "pendingSub (waitables st s) = None"
    using inv s(2) unfolding async_inv_def events_agree_def by (metis option.exhaust)
  moreover have "pendingEvent (waitables st s) = None" "s < obrk st"
    using inv s by (auto simp: async_inv_def entries_agree_def)
  ultimately have pend: "pendingSub (waitables st s) = None" "pendingEvent (waitables st s) = None" "s < obrk st" by simp_all
  have unp: "entries (resources st) j \<noteq> Some (Subtask s)" for j
    using inv s(2) by (auto simp: async_inv_def entries_agree_def index_inv_def dom_def)
  have "members_agree st'" by (rule members_cong [of st]) (use inv in \<open>auto simp: async_inv_def st' setSubtaski_def\<close>)
  moreover have "no_dangling st'" by (rule dangling_cong [of st]) (use inv e in \<open>auto simp: async_inv_def st' setSubtaski_def\<close>)
  moreover have "entries_agree st'"
    using inv e s pend unp by (auto simp: async_inv_def entries_agree_def st' setSubtaski_def)
  moreover have "events_agree st'" using inv pend by (auto simp: async_inv_def events_agree_def st' setSubtaski_def)
  ultimately show ?thesis using e by (simp add: async_inv_def st' setSubtaski_def)
qed

lemma fresh_unjoined:
  assumes "async_inv st"
  shows "wset (waitables st (obrk st)) = None"
proof (rule ccontr)
  assume "wset (waitables st (obrk st)) \<noteq> None"
  then obtain i e where e: "entries (resources st) i = Some e" "waitablePtr e = Some (obrk st)"
    using assms unfolding async_inv_def no_dangling_def by (metis not_None_eq)
  then have "i \<noteq> 0" using assms by (auto simp: async_inv_def index_inv_def dom_def)
  then show False using e assms by (cases e) (auto simp: async_inv_def entries_agree_def, metis less_irrefl)
qed

lemma begin_call_inv:
  assumes inv: "async_inv st" and b: "begin_call st = (s, st')"
  shows "async_inv st'"
proof -
  have st': "st' = st\<lparr>obrk := obrk st + 1, waitables := (waitables st)(obrk st := zero_waitable),
      subtasks := (subtasks st)(obrk st := newSubtask)\<rparr>" using b by (auto simp: begin_call_def)
  have unj: "wset (waitables st' w) = wset (waitables st w)" for w
    using fresh_unjoined [OF inv] by (simp add: st' zero_waitable_def)
  have old: "subtaski (subtasks st (obrk st)) = 0" using inv by (auto simp: async_inv_def entries_agree_def)
  then have nsub: "entries (resources st) i \<noteq> Some (Subtask (obrk st))" for i
    using inv by (auto simp: async_inv_def entries_agree_def index_inv_def dom_def)
  have "members_agree st'" by (rule members_cong [of st]) (use inv unj in \<open>auto simp: async_inv_def\<close>, simp add: st')
  moreover have "no_dangling st'" by (rule dangling_cong [of st]) (use inv unj in \<open>auto simp: async_inv_def\<close>, simp add: st')
  moreover have "entries_agree st'"
    using inv nsub by (auto simp: async_inv_def entries_agree_def st' newSubtask_def zero_waitable_def less_Suc_eq)
  moreover have "events_agree st'"
    using inv by (auto simp: async_inv_def events_agree_def st' newSubtask_def zero_waitable_def)
  ultimately show ?thesis using inv by (simp add: async_inv_def st')
qed

lemma end_new_inv:
  assumes inv: "async_inv st" and ok: "alloc_ok (resources st)"
    and e: "e = StreamEnd (obrk st) \<or> e = FutureEnd (obrk st)" and a: "addEntry e (resources st) = (i, t)"
    and st': "st' = st\<lparr>obrk := obrk st + 1, waitables := (waitables st)(obrk st := zero_waitable), resources := t\<rparr>"
  shows "async_inv st'"
proof -
  have s: "entries (resources st) i = None" "entries t = (entries (resources st))(i \<mapsto> e)" "index_inv t"
    using addEntry_spec [OF _ ok a] inv by (auto simp: async_inv_def)
  have unj: "wset (waitables st' w) = wset (waitables st w)" for w
    using fresh_unjoined [OF inv] by (simp add: st' zero_waitable_def)
  have old: "subtaski (subtasks st (obrk st)) = 0" "lenders (subtasks st (obrk st)) = None"
    using inv by (auto simp: async_inv_def entries_agree_def)
  have "members_agree st'" by (rule members_cong [of st]) (use inv unj in \<open>auto simp: async_inv_def\<close>, simp add: st')
  moreover have "no_dangling st'"
    by (rule dangling_cong [of st]) (use inv unj s in \<open>auto simp: async_inv_def\<close>, auto simp: st')
  moreover have "entries_agree st'"
    using inv e s old by (auto simp: async_inv_def entries_agree_def st' zero_waitable_def less_Suc_eq)
  moreover have "events_agree st'" using inv by (auto simp: async_inv_def events_agree_def st' zero_waitable_def)
  ultimately show ?thesis using s by (simp add: async_inv_def st')
qed

lemma end_arm_inv:
  assumes inv: "async_inv st" and e: "getEntry i (resources st) = Some (StreamEnd w) \<or> getEntry i (resources st) = Some (FutureEnd w)"
  shows "async_inv (setPendingEvent w ev st)"
proof -
  let ?u = "setPendingEvent w ev st"
  have w: "subtaski (subtasks st w) = 0" "lenders (subtasks st w) = None"
    using inv e by (auto simp: async_inv_def entries_agree_def getEntry_def)
  then have nsub: "entries (resources st) j \<noteq> Some (Subtask w)" for j
    using inv by (auto simp: async_inv_def entries_agree_def index_inv_def dom_def)
  have "members_agree ?u" by (rule members_cong [of st]) (use inv in \<open>auto simp: async_inv_def setPendingEvent_def\<close>)
  moreover have "no_dangling ?u" by (rule dangling_cong [of st]) (use inv in \<open>auto simp: async_inv_def setPendingEvent_def\<close>)
  moreover have "entries_agree ?u" using inv w nsub by (auto simp: async_inv_def entries_agree_def setPendingEvent_def)
  moreover have "events_agree ?u" using inv by (auto simp: async_inv_def events_agree_def setPendingEvent_def)
  ultimately show ?thesis using inv by (simp add: async_inv_def setPendingEvent_def)
qed

lemma as_step_inv: "as_step run st st' \<Longrightarrow> async_inv st \<Longrightarrow> async_inv st'"
proof (induction rule: as_step.induct)
  case (call_lend s st a)
  then show ?case
    using upd_t_inv [of st s "\<lambda>x. x\<lparr>lenders := Some (case lenders x of None \<Rightarrow> [a] | Some l \<Rightarrow> l @ [a])\<rparr>" "set_lends a 1 (hp st)"]
    by (simp add: addLender_def Let_def)
next
  case (call_start st s)
  then show ?case using upd_t_inv [of st s "\<lambda>x. x\<lparr>sub_state := subtaskStarted\<rparr>" "hp st"]
    by (auto simp: call_started_def resolved_def)
qed (rule set_new_inv set_drop_inv poll_inv joined_inv sub_drop_inv begin_call_inv on_resolve_inv finish_call_inv
       end_new_inv [OF _ _ _ _ refl] end_arm_inv; assumption)+

lemma init_inv:
  assumes "index_inv t" "\<forall>i e. entries t i = Some e \<longrightarrow> is_res e"
  shows "async_inv (init_astate t h x)"
proof -
  have "\<not> is_res (Subtask s)" "\<not> is_res (StreamEnd s)" "\<not> is_res (FutureEnd s)" "\<not> is_res (WaitableSet s)" for s by simp_all
  then have "entries t i \<noteq> Some (Subtask s)" "entries t i \<noteq> Some (StreamEnd s)" "entries t i \<noteq> Some (FutureEnd s)"
    "entries t i \<noteq> Some (WaitableSet s)" for i s using assms(2) by blast+
  then show ?thesis using assms(1)
    by (simp add: inv_defs init_astate_def zero_waitable_def newSubtask_def)
qed

lemma as_reachable_inv: "as_reachable run st st' \<Longrightarrow> async_inv st \<Longrightarrow> async_inv st'"
  by (induction rule: as_reachable.induct) (auto intro: as_step_inv)

section \<open>Lends held by subtasks\<close>

lemma lendCount_set_lends: "lendCount (objs (set_lends b d h) a) = lendCount (objs h a) + (if a = b then d else 0)"
  by (simp add: set_lends_def)

lemma lendCount_release:
  "lendCount (objs (foldl (\<lambda>h a. set_lends a (-1) h) h ls) a) = lendCount (objs h a) - int (count_list ls a)"
  by (induction ls arbitrary: h) (auto simp: lendCount_set_lends)

lemma owed_cong:
  assumes "obrk st' = obrk st" "\<And>s. s < obrk st \<Longrightarrow> lent_by (subtasks st' s) = lent_by (subtasks st s)"
  shows "owed st' = owed st"
  using assms by (intro ext) (simp add: owed_def)

lemma owed_Suc:
  assumes "obrk st' = Suc (obrk st)" "\<And>s. s < obrk st \<Longrightarrow> lent_by (subtasks st' s) = lent_by (subtasks st s)"
    "lent_by (subtasks st' (obrk st)) = []"
  shows "owed st' = owed st"
  using assms by (intro ext) (simp add: owed_def)

lemma owed_upd:
  assumes "obrk st' = obrk st" "s < obrk st" "\<And>r. r \<noteq> s \<Longrightarrow> lent_by (subtasks st' r) = lent_by (subtasks st r)"
  shows "int (owed st' a) = int (owed st a) - int (count_list (lent_by (subtasks st s)) a) + int (count_list (lent_by (subtasks st' s)) a)"
proof -
  have "owed u a = count_list (lent_by (subtasks u s)) a + (\<Sum>r\<in>{..<obrk u} - {s}. count_list (lent_by (subtasks u r)) a)"
    if "s < obrk u" for u :: "('x, 't, 'w) astate" using that by (simp add: owed_def sum.remove)
  from this [of st] this [of st'] assms show ?thesis by simp
qed

lemma debt_cong: "hp st' = hp st \<Longrightarrow> owed st' = owed st \<Longrightarrow> debt st' = debt st"
  by (intro ext) (simp add: debt_def)

lemma debt_deliver:
  assumes "s < obrk st"
  shows "debt (deliverResolve s st) = debt st"
proof (rule ext)
  fix a
  have "int (owed (deliverResolve s st) a) = int (owed st a) - int (count_list (lent_by (subtasks st s)) a)"
    using owed_upd [of "deliverResolve s st" st s a] assms by (simp add: lent_by_def)
  then show "debt (deliverResolve s st) a = debt st a"
    by (simp add: debt_def deliverResolve_def Let_def lendCount_release lent_by_def split: option.splits)
qed

lemma in_flight_below: "async_inv st \<Longrightarrow> lenders (subtasks st s) \<noteq> None \<Longrightarrow> s < obrk st"
  by (auto simp: async_inv_def entries_agree_def)

lemma fresh_lent: "async_inv st \<Longrightarrow> lent_by (subtasks st (obrk st)) = []"
  using in_flight_below [of st "obrk st"] by (auto simp: lent_by_def split: option.splits)

lemma debt_upd_w [simp]: "debt (upd_w w f st) = debt st" "debt (st\<lparr>ext := y\<rparr>) = debt st" "debt (upd_s s g st) = debt st"
  "debt (st\<lparr>resources := t\<rparr>) = debt st"
  by (rule debt_cong, simp, rule owed_cong, simp_all)+

lemma debt_join [simp]: "debt (waitable_join w ws st) = debt st"
  by (simp add: waitable_join_def set_remove_def Let_def split: option.splits)

lemma debt_getPendingEvent:
  assumes inv: "async_inv st" and g: "getPendingEvent run w st = Inr (ev, st')"
  shows "debt st' = debt st"
proof (cases "pendingSub (waitables st w)")
  case None
  then show ?thesis using g by (auto simp: getPendingEvent_def Let_def split: option.splits prod.splits)
next
  case (Some s)
  have "w < obrk st" using inv Some in_flight_below [OF inv, of w] by (auto simp: async_inv_def events_agree_def)
  then show ?thesis using getPendingEvent_subtask [OF inv Some, of run] g by (auto simp: debt_deliver)
qed

lemma debt_upd_t:
  assumes "lenders (f (subtasks st s)) = lenders (subtasks st s)"
  shows "debt (upd_t s f st) = debt st"
  by (rule debt_cong, simp, rule owed_cong) (use assms in \<open>simp_all add: lent_by_def\<close>)

lemma as_step_debt: "as_step run st st' \<Longrightarrow> async_inv st \<Longrightarrow> debt st' = debt st"
proof (induction rule: as_step.induct)
  case (set_new st i st')
  then show ?case using fresh_lent [of st]
    by (intro debt_cong owed_Suc) (auto simp: waitableSetNew_def Let_def split: prod.splits)
next
  case (set_drop i st st')
  then show ?case by (auto simp: waitableSetDrop_def)
next
  case (set_poll i st s ev st')
  then show ?case using debt_getPendingEvent [of st run _ ev st']
    by (auto simp: poll_def set_getPendingEvent_def split: if_splits option.splits)
next
  case (joined wi si st st')
  then show ?case by (auto simp: waitableJoin_def split: option.splits if_splits)
next
  case (sub_drop i st st')
  then show ?case by (auto simp: subtaskDrop_def dropSubtask_def dropWaitable_def split: option.splits tableEntry.splits if_splits)
next
  case (call_begin st s st')
  then show ?case by (intro debt_cong owed_Suc) (auto simp: begin_call_def newSubtask_def lent_by_def)
next
  case (call_lend s st a)
  show ?case
  proof (rule ext)
    fix b
    have "int (owed (addLender s a st) b) = int (owed st b) + (if a = b then 1 else 0)"
      using owed_upd [of "addLender s a st" st s b] call_lend
      by (auto simp: addLender_def Let_def lent_by_def)
    then show "debt (addLender s a st) b = debt st b"
      by (auto simp: debt_def addLender_def Let_def lendCount_set_lends)
  qed
next
  case (call_start st s)
  then show ?case by (simp add: call_started_def debt_upd_t)
next
  case (call_resolve st s cancelled lowered st')
  then show ?case
    by (auto simp: on_resolve_def resolve_subtask_def Let_def setPendingSubtaskEvent_def debt_upd_t split: if_splits)
next
  case (call_finish st s rv st')
  then show ?case using in_flight_below [of st s]
    by (auto simp: finish_call_def Let_def debt_deliver setSubtaski_def debt_upd_t split: if_splits prod.splits)
next
  case (end_new st e i t)
  then show ?case using fresh_lent [of st] by (intro debt_cong owed_Suc) auto
next
  case (end_arm i st w ev)
  then show ?case by (simp add: setPendingEvent_def)
qed

lemma as_reachable_debt: "as_reachable run st st' \<Longrightarrow> async_inv st \<Longrightarrow> debt st' = debt st"
  by (induction rule: as_reachable.induct) (auto simp: as_step_debt as_reachable_inv)

section \<open>Polling\<close>

lemma find_first:
  "List.find P xs = Some x \<longleftrightarrow> (\<exists>n < length xs. x = xs ! n \<and> P x \<and> (\<forall>m < n. \<not> P (xs ! m)))"
  by (auto simp: find_Some_iff)

lemma getPendingEvent_total:
  assumes "async_inv st" "hasPendingEvent (waitables st w)"
  shows "\<exists>ev st'. getPendingEvent run w st = Inr (ev, st')"
proof (cases "pendingSub (waitables st w)")
  case None
  then obtain t where t: "pendingEvent (waitables st w) = Some t" using assms(2) by (auto simp: hasPendingEvent_def)
  then show ?thesis using getPendingEvent_thunk [OF None t] by (metis prod.exhaust)
qed (use assms getPendingEvent_subtask in blast)

lemma debt_init: "debt (init_astate t h x) a = lendCount (objs h a)"
  by (simp add: debt_def owed_def init_astate_def)

section \<open>Packing\<close>

lemma state_num_bits:
  "take_bit 4 (ucast (state_num v) :: u64) = ucast (state_num v)" "drop_bit 4 (ucast (state_num v) :: u64) = 0"
  "take_bit 4 (ucast (state_num v) :: u32) = ucast (state_num v)" "drop_bit 4 (ucast (state_num v) :: u32) = 0"
  by (cases v; simp add: drop_bit_eq_div)+

lemma drop_push_u32: "drop_bit 4 (push_bit 4 i) = i \<longleftrightarrow> i < 2 ^ 28" for i :: u32
proof -
  have "drop_bit 4 (push_bit 4 i) = take_bit 28 i"
    by (rule bit_word_eqI) (auto simp: bit_simps)
  then have "drop_bit 4 (push_bit 4 i) = i \<longleftrightarrow> take_bit 28 (unat i) = unat i"
    by (metis unsigned_take_bit_eq unsigned_word_eqI)
  then show ?thesis by (simp add: take_bit_nat_eq_self_iff word_less_nat_alt)
qed

lemma pack_bits:
  fixes i :: u32 and rv :: u64
  assumes rv_def: "rv = ucast (state_num v) OR push_bit 4 (ucast i)"
  shows "take_bit 4 rv = ucast (state_num v) \<and> drop_bit 4 rv = ucast i \<and>
    (drop_bit 4 (ucast rv :: u32) = i \<longleftrightarrow> i < 2 ^ 28)"
proof -
  have "take_bit 4 (push_bit 4 (ucast i) :: u64) = 0" by (rule bit_word_eqI) (auto simp: bit_simps)
  then have t: "take_bit 4 rv = ucast (state_num v)" by (simp add: rv_def take_bit_or state_num_bits)
  have "drop_bit 4 (push_bit 4 (ucast i) :: u64) = ucast i" by (rule bit_word_eqI) (auto simp: bit_simps dest: bit_imp_le_length)
  then have d: "drop_bit 4 rv = ucast i" by (simp add: rv_def drop_bit_or state_num_bits)
  have "(ucast rv :: u32) = ucast (state_num v) OR push_bit 4 i"
    unfolding rv_def by (rule bit_word_eqI) (auto simp: bit_simps)
  then have "drop_bit 4 (ucast rv :: u32) = drop_bit 4 (push_bit 4 i)" by (simp only: drop_bit_or state_num_bits or.left_neutral)
  with t d show ?thesis by (simp only: drop_push_u32)
qed

section \<open>An example run\<close>

lemma resolved_alt: "resolved x \<longleftrightarrow> sub_state x \<noteq> subtaskStarting \<and> sub_state x \<noteq> subtaskStarted"
  by (cases "sub_state x") (simp_all add: resolved_def word_le_nat_alt)

lemma demo_start: "nextH demo_table = 2" "free demo_table = []" "entries demo_table = [1 \<mapsto> Res 0]"
  "objs demo_heap 0 = \<lparr>typeIdx = 7, rep = 42, own = True, lendCount = 0, borrowScope = None\<rparr>"
  by (simp_all add: demo_table_def demo_heap_def NewOwn_def add_handle_def newResourceEntry_def resourceEntrySlab_def
      addEntry_def newHandleTable_def empty_heap_def zero_entry_def Let_def upt_conv_Cons)

lemma demo_table_inv: "index_inv demo_table" "\<forall>i e. entries demo_table i = Some e \<longrightarrow> is_res e"
proof -
  obtain i t h where n: "NewOwn 7 42 (newHandleTable :: unit handleTable) empty_heap = (i, t, h)" by (metis prod.exhaust)
  then have "index_inv t" using add_handle_inv [OF initial_inv] by (metis NewOwn_def)
  then show "index_inv demo_table" by (simp add: demo_table_def n)
  show "\<forall>i e. entries demo_table i = Some e \<longrightarrow> is_res e" by (simp add: demo_start)
qed

lemma demo_lent_simps:
  "resources demo_lent = demo_table" "hp demo_lent = set_lends 0 1 demo_heap" "obrk demo_lent = 1"
  "subtasks demo_lent 0 = newSubtask\<lparr>lenders := Some [0]\<rparr>" "waitables demo_lent 0 = zero_waitable" "mayLeave demo_lent"
  by (simp_all add: demo_lent_def demo_init_def addLender_def begin_call_def init_astate_def newSubtask_def Let_def)

lemma demo_parked_simps:
  "entries (resources demo_parked) = [1 \<mapsto> Res 0, 2 \<mapsto> Subtask 0]" "hp demo_parked = set_lends 0 1 demo_heap"
  "subtasks demo_parked 0 = newSubtask\<lparr>lenders := Some [0], sub_state := subtaskStarted, subtaski := 2\<rparr>"
  "waitables demo_parked 0 = zero_waitable" "mayLeave demo_parked" "fst (finish_call 0 (call_started 0 demo_lent)) = 0x21"
  by (simp_all add: demo_parked_def finish_call_def call_started_def demo_lent_simps resolved_alt addEntry_def demo_start
      setSubtaski_def Let_def newSubtask_def)

lemma demo_resolve: "on_resolve 0 False (Inr []) demo_parked = Inr demo_resolved"
  by (simp add: demo_resolved_def on_resolve_def resolve_subtask_def Let_def)

lemma demo_resolved_simps:
  "resources demo_resolved = resources demo_parked" "mayLeave demo_resolved"
  "subtasks demo_resolved 0 = newSubtask\<lparr>lenders := Some [0], sub_state := subtaskReturned, subtaski := 2\<rparr>"
  "waitables demo_resolved 0 = zero_waitable\<lparr>pendingSub := Some 0, pendingSubSi := 2\<rparr>"
  by (simp_all add: demo_resolved_def on_resolve_def resolve_subtask_def demo_parked_simps setPendingSubtaskEvent_def
      Let_def newSubtask_def zero_waitable_def)

lemma demo_lent_reachable: "as_reachable demo_run demo_init demo_lent"
proof -
  have "as_reachable demo_run demo_init (snd (begin_call demo_init))"
    by (rule as_reachable.step [OF as_reachable.start], rule as_step.call_begin [of _ 0]) (simp add: begin_call_def demo_init_def init_astate_def)
  then show ?thesis unfolding demo_lent_def
    by (rule as_reachable.step, intro as_step.call_lend)
      (simp_all add: begin_call_def demo_init_def init_astate_def newSubtask_def)
qed

lemma demo_resolved_reachable: "as_reachable demo_run demo_init demo_resolved"
proof -
  have "as_reachable demo_run demo_init (call_started 0 demo_lent)"
    by (rule as_reachable.step [OF demo_lent_reachable], rule as_step.call_start) (simp_all add: demo_lent_simps newSubtask_def)
  then have "as_reachable demo_run demo_init demo_parked"
    by (rule as_reachable.step, intro as_step.call_finish [of _ 0 "fst (finish_call 0 (call_started 0 demo_lent))"])
      (simp_all add: call_started_def demo_lent_simps newSubtask_def demo_parked_def alloc_ok_def demo_start)
  then show ?thesis
    by (rule as_reachable.step, intro as_step.call_resolve [of _ 0 False "Inr []"])
      (simp_all add: demo_parked_simps newSubtask_def resolved_alt demo_resolve)
qed

lemma demo_resolved_inv: "async_inv demo_resolved"
  by (rule as_reachable_inv [OF demo_resolved_reachable]) (simp add: demo_init_def init_inv [OF demo_table_inv])

section \<open>Properties\<close>

text \<open>
  C7. In every state that an instance reaches from one with resource handles only: a waitable is listed in exactly
  the set it points to and only once, a joined waitable and its set are both live in the handle
  table, a subtask's table index is the one it records, and a pending subtask event belongs to a
  parked subtask that is resolved and not yet delivered.
\<close>

theorem waitables_invariant:
  assumes "index_inv t" "\<forall>i e. entries t i = Some e \<longrightarrow> is_res e" "as_reachable run (init_astate t h x) st"
  shows "async_inv st"
  using as_reachable_inv [OF assms(3) init_inv [OF assms(1,2)]] .

theorem waitables_invariant_witness:
  "async_inv demo_resolved \<and> pendingSub (waitables demo_resolved 0) = Some 0"
  using waitables_invariant [OF demo_table_inv demo_resolved_reachable [unfolded demo_init_def]]
  by (simp add: demo_resolved_simps)



text \<open>
  C23. While an instance runs, the lend count of a resource entry is what it was at the start
  plus the lends that undelivered subtasks hold: every lend is taken back exactly once. In
  particular a handle lent to such a subtask can neither be dropped nor taken.
\<close>

theorem lends_conserved:
  assumes "index_inv t" "\<forall>i e. entries t i = Some e \<longrightarrow> is_res e" "as_reachable run (init_astate t h x) st"
    "0 \<le> lendCount (objs h a)"
  shows "lendCount (objs (hp st) a) = lendCount (objs h a) + int (owed st a) \<and>
    (\<forall>s i ti. a \<in> set (lent_by (subtasks st s)) \<longrightarrow> live_at (resources st) i a \<longrightarrow>
       isl (Drop ti i (resources st) (hp st)) \<and> isl (TakeOwn ti i (resources st) (hp st)))"
proof -
  note inv = init_inv [OF assms(1,2), of h x]
  have c: "lendCount (objs (hp st) a) = lendCount (objs h a) + int (owed st a)"
    using fun_cong [OF as_reachable_debt [OF assms(3) inv], of a] by (simp add: debt_init) (simp add: debt_def)
  have "isl (Drop ti i (resources st) (hp st)) \<and> isl (TakeOwn ti i (resources st) (hp st))"
    if a: "a \<in> set (lent_by (subtasks st s))" and l: "live_at (resources st) i a" for s i ti
  proof -
    have "s < obrk st" using a in_flight_below [OF as_reachable_inv [OF assms(3) inv], of s]
      by (cases "lenders (subtasks st s)") (auto simp: lent_by_def)
    moreover have "0 < count_list (lent_by (subtasks st s)) a" using a count_list_0_iff by fastforce
    ultimately have "0 < owed st a" by (auto simp: owed_def intro!: sum_pos2 [of _ s])
    then have "lendCount (objs (hp st) a) \<noteq> 0" using c assms(4) by linarith
    moreover have "lookup_handle ti i (resources st) (hp st) =
        (if typeIdx (objs (hp st) a) = ti then Inr a else Inl (Wrong_type i (typeIdx (objs (hp st) a)) ti))"
      using l by (simp add: lookup_handle_def live_at_def)
    ultimately show ?thesis by (simp add: Drop_def TakeOwn_def Let_def)
  qed
  with c show ?thesis by blast
qed

theorem lends_conserved_witness:
  "lendCount (objs (hp demo_lent) 0) = 1 \<and> isl (Drop 7 1 (resources demo_lent) (hp demo_lent))"
proof -
  have "0 \<in> set (lent_by (subtasks demo_lent 0))" "live_at (resources demo_lent) 1 0"
    by (simp_all add: demo_lent_simps demo_start lent_by_def live_at_def newSubtask_def)
  moreover have "owed demo_lent 0 = 1" by (simp add: owed_def demo_lent_simps lent_by_def newSubtask_def)
  ultimately show ?thesis
    using lends_conserved [OF demo_table_inv demo_lent_reachable [unfolded demo_init_def], of 0] demo_start(4) by auto
qed

text \<open>
  A parked subtask with a pending event: until the event is taken it cannot be dropped;
  taking it reports the subtask's own index and its final state and releases its lends; after
  that the subtask can be dropped, which frees its index and leaves it in no set.
\<close>

theorem subtask_delivered_then_dropped:
  assumes "async_inv st" "mayLeave st" "entries (resources st) i = Some (Subtask s)" "hasPendingEvent (waitables st s)"
  shows "subtaskDrop i st = Inl Not_yet_resolved \<and>
    (\<exists>st1 st2. getPendingEvent run s st =
         Inr (\<lparr>code = eventSubtask, p1 = i, p2 = state_num (sub_state (subtasks st s))\<rparr>, st1) \<and>
       2 \<le> state_num (sub_state (subtasks st s)) \<and> lent_by (subtasks st1 s) = [] \<and>
       subtaskDrop i st1 = Inr st2 \<and> entries (resources st2) i = None \<and> (\<forall>r. s \<notin> set (elems (sets st2 r))))"
proof -
  have pe: "pendingEvent (waitables st s) = None" "subtaski (subtasks st s) = i"
    using assms(1,3) by (auto simp: async_inv_def entries_agree_def)
  then obtain r where r: "pendingSub (waitables st s) = Some r" using assms(4) by (auto simp: hasPendingEvent_def)
  have u: "resolved (subtasks st s)" "lenders (subtasks st s) \<noteq> None"
    using assms(1) r by (auto simp: async_inv_def events_agree_def)
  define st1 where "st1 = deliverResolve s (upd_w s (\<lambda>x. x\<lparr>pendingSub := None, pendingSubSi := 0\<rparr>) st)"
  have g: "getPendingEvent run s st =
      Inr (\<lparr>code = eventSubtask, p1 = i, p2 = state_num (sub_state (subtasks st s))\<rparr>, st1)"
    using getPendingEvent_subtask [OF assms(1) r, of run] pe by (simp add: st1_def)
  have inv1: "async_inv st1" using getPendingEvent_inv [OF assms(1) g] .
  have d: "subtaskDrop i st1 = Inr ((waitable_join s None st1)\<lparr>resources := remove_index i (resources st1)\<rparr>)"
    using assms(2,3) pe by (simp add: subtaskDrop_def requireMayLeave_def getEntry_def dropSubtask_def dropWaitable_def
        st1_def resolveDelivered_def hasPendingEvent_def removeEntry_live)
  have "s \<notin> set (elems (sets (waitable_join s None st1) q))" for q
    using waitable_join_members [of st1 s None] inv1 by (simp add: async_inv_def members_agree_def)
  moreover have "subtaskDrop i st = Inl Not_yet_resolved"
    using assms(2,3) u by (simp add: subtaskDrop_def requireMayLeave_def getEntry_def dropSubtask_def resolveDelivered_def)
  moreover have "lent_by (subtasks st1 s) = []" by (simp add: st1_def lent_by_def)
  ultimately show ?thesis using g d u by (simp add: resolved_def remove_index_def)
qed

theorem subtask_delivered_then_dropped_witness:
  "subtaskDrop 2 demo_resolved = Inl Not_yet_resolved \<and>
   (\<exists>st1 st2. getPendingEvent demo_run 0 demo_resolved = Inr (\<lparr>code = eventSubtask, p1 = 2, p2 = 2\<rparr>, st1) \<and>
      subtaskDrop 2 st1 = Inr st2 \<and> entries (resources st2) 2 = None)"
  using subtask_delivered_then_dropped [OF demo_resolved_inv, of 2 0 demo_run]
  by (auto simp: demo_resolved_simps demo_parked_simps hasPendingEvent_def newSubtask_def)

text \<open>
  The value an async-lowered call returns packs the state below the subtask index: a
  call that is not finished gives both back, and the index survives in the 32 bits the guest
  sees exactly when it is below \<open>2 ^ 28\<close>; a finished call gives its final state and no index.
\<close>

theorem finish_call_packing:
  assumes "finish_call s st = (rv, st')"
  shows "take_bit 4 rv = ucast (state_num (sub_state (subtasks st s))) \<and>
    (if resolved (subtasks st s) then drop_bit 4 rv = 0
     else drop_bit 4 rv = ucast (subtaski (subtasks st' s)) \<and>
       (drop_bit 4 (ucast rv :: u32) = subtaski (subtasks st' s) \<longleftrightarrow> subtaski (subtasks st' s) < 2 ^ 28))"
proof (cases "resolved (subtasks st s)")
  case True
  then have "rv = ucast (state_num (sub_state (subtasks st s)))" using assms by (auto simp: finish_call_def Let_def)
  with True show ?thesis using state_num_bits [of "sub_state (subtasks st s)"] by simp
next
  case False
  obtain i t where a: "addEntry (Subtask s) (resources st) = (i, t)" by fastforce
  then have rv: "rv = ucast (state_num (sub_state (subtasks st s))) OR push_bit 4 (ucast i)" and i: "subtaski (subtasks st' s) = i"
    using False assms by (auto simp: finish_call_def Let_def setSubtaski_def)
  show ?thesis using False pack_bits [OF rv] i by simp
qed

theorem finish_call_packing_witness:
  "take_bit 4 (fst (finish_call 0 (call_started 0 demo_lent))) = 1 \<and> drop_bit 4 (0x21 :: u64) = 2"
proof -
  have f: "finish_call 0 (call_started 0 demo_lent) = (0x21, demo_parked)"
    using demo_parked_simps(6) by (simp add: demo_parked_def prod_eq_iff)
  show ?thesis unfolding f using finish_call_packing [OF f]
    by (simp add: demo_parked_simps call_started_def demo_lent_simps resolved_alt newSubtask_def)
qed

end
