(* ===== verification/Tasks.thy ===== *)
theory Tasks
  imports Waitables
begin

text \<open>
  Tasks of an instance: the states and cancellation of \<^verbatim>\<open>task.go\<close>, callback tasks with their
  parking and callback loop (\<^verbatim>\<open>guest_task.go\<close>), stackful tasks (\<^verbatim>\<open>stackful_task.go\<close>), and the
  built-ins that act on the running task (\<^verbatim>\<open>async_builtins.go\<close>). Go runs guest code inside
  these functions; here each is cut at the call into the guest, so that what the guest does in
  between is a sequence of built-ins. The baton channels of a goroutine carry control only: the
  goroutine that holds the baton is the one whose task is running. All of it acts on one store,
  which contains the waitables and the handle table of the instance.
\<close>

section \<open>State\<close>

datatype taskState = taskInitial | taskStarted | taskPendingCancel | taskCancelDelivered | taskResolved

datatype parkKind = parkNone | parkEntry | parkWait | parkYield | parkBlocked

datatype task_error =
    Already_resolved
  | Borrows_remain int
  | No_cancellation_delivered
  | Bad_callback_code u32
  | Wait_on_non_set u32
  | Exit_before_return
  | Not_parked
  | Panic_cancel_resolved
  | No_active_task
  | Task_may_not_leave
  | Slot_out_of_range u32
  | Backpressure_overflow
  | Backpressure_underflow
  | Not_async
  | Event_error as_error
  | Host_error string

text \<open>
  A task together with its callback or stackful half, of which it has exactly one; the
  fields the two halves share have one name. \<open>forwards\<close> says that \<^verbatim>\<open>onResolve\<close> is set; stackful
  tasks use \<open>parkEntry\<close> and \<open>parkBlocked\<close> for their two parks.
\<close>

record 'v task =
  state :: taskState
  stackful :: bool
  asyncOpts :: bool
  promoted :: bool
  forwards :: bool
  cancelled :: bool
  result :: "'v list"
  ctxStorage :: "u64 list"
  park :: parkKind
  gwset :: "nat option"
  cancellable :: bool
  cancelWake :: bool
  finished :: bool
  failure :: "task_error option"

record inst =
  mayEnter :: bool
  activeTask :: "nat option"
  syncBase :: "nat option"
  exclusiveHeld :: bool
  exclusiveOwner :: "nat option"
  backpressure :: int
  numWaitingToEnter :: int
  poisoned :: bool

text \<open>The scheduler's parked list, and the results handed to \<^verbatim>\<open>onResolve\<close> so far.\<close>

record ('x, 't, 'w, 'v) tstate =
  asy :: "('x, 't, 'w) astate"
  instn :: inst
  tasks :: "nat \<Rightarrow> 'v task"
  parked :: "nat list"
  delivered :: "(nat \<times> 'v list \<times> bool) list"

definition upd_task :: "nat \<Rightarrow> ('v task \<Rightarrow> 'v task) \<Rightarrow> ('x, 't, 'w, 'v) tstate \<Rightarrow> ('x, 't, 'w, 'v) tstate" where
  "upd_task k f st = st\<lparr>tasks := (tasks st)(k := f (tasks st k))\<rparr>"

definition upd_inst :: "(inst \<Rightarrow> inst) \<Rightarrow> ('x, 't, 'w, 'v) tstate \<Rightarrow> ('x, 't, 'w, 'v) tstate" where
  "upd_inst f st = st\<lparr>instn := f (instn st)\<rparr>"

definition upd_asy :: "(('x, 't, 'w) astate \<Rightarrow> ('x, 't, 'w) astate) \<Rightarrow> ('x, 't, 'w, 'v) tstate \<Rightarrow> ('x, 't, 'w, 'v) tstate" where
  "upd_asy f st = st\<lparr>asy := f (asy st)\<rparr>"

definition sched_park :: "nat \<Rightarrow> ('x, 't, 'w, 'v) tstate \<Rightarrow> ('x, 't, 'w, 'v) tstate" where
  "sched_park k st = st\<lparr>parked := parked st @ [k]\<rparr>"

definition sched_unpark :: "nat \<Rightarrow> ('x, 't, 'w, 'v) tstate \<Rightarrow> ('x, 't, 'w, 'v) tstate" where
  "sched_unpark k st = st\<lparr>parked := remove1 k (parked st)\<rparr>"

section \<open>Resolution and cancellation\<close>

definition deliver :: "nat \<Rightarrow> 'v list \<Rightarrow> bool \<Rightarrow> ('x, 't, 'w, 'v) tstate \<Rightarrow> ('x, 't, 'w, 'v) tstate" where
  "deliver k vals c st = st\<lparr>delivered := delivered st @ [(k, vals, c)]\<rparr>"

definition borrows :: "nat \<Rightarrow> ('x, 't, 'w, 'v) tstate \<Rightarrow> int" where
  "borrows k st = numBorrows (hp (asy st)) k"

definition returnValues ::
  "nat \<Rightarrow> 'v list \<Rightarrow> ('x, 't, 'w, 'v) tstate \<Rightarrow> task_error + ('x, 't, 'w, 'v) tstate" where
  "returnValues k vals st =
     (if state (tasks st k) = taskResolved then Inl Already_resolved
      else if 0 < borrows k st then Inl (Borrows_remain (borrows k st))
      else
        let st = (if forwards (tasks st k) then deliver k vals False st
                  else upd_task k (\<lambda>t. t\<lparr>result := vals, cancelled := False\<rparr>) st)
        in Inr (upd_task k (\<lambda>t. t\<lparr>state := taskResolved\<rparr>) st))"

definition cancelDeliverable :: "'v task \<Rightarrow> bool" where
  "cancelDeliverable t \<longleftrightarrow> state t = taskPendingCancel"

definition deliverPendingCancel ::
  "nat \<Rightarrow> bool \<Rightarrow> ('x, 't, 'w, 'v) tstate \<Rightarrow> bool \<times> ('x, 't, 'w, 'v) tstate" where
  "deliverPendingCancel k c st =
     (if c \<and> state (tasks st k) = taskPendingCancel
      then (True, upd_task k (\<lambda>t. t\<lparr>state := taskCancelDelivered\<rparr>) st) else (False, st))"

definition cancelResolve :: "nat \<Rightarrow> ('x, 't, 'w, 'v) tstate \<Rightarrow> task_error + ('x, 't, 'w, 'v) tstate" where
  "cancelResolve k st =
     (if state (tasks st k) \<noteq> taskCancelDelivered then Inl No_cancellation_delivered
      else if 0 < borrows k st then Inl (Borrows_remain (borrows k st))
      else
        let st = (if forwards (tasks st k) then deliver k [] True st
                  else upd_task k (\<lambda>t. t\<lparr>result := []\<rparr>) st)
        in Inr (upd_task k (\<lambda>t. t\<lparr>cancelled := True, state := taskResolved\<rparr>) st))"

section \<open>Entering and leaving the instance\<close>

definition hasBackpressure :: "inst \<Rightarrow> bool" where
  "hasBackpressure i \<longleftrightarrow> 0 < backpressure i \<or> exclusiveHeld i"

definition tryEnter :: "nat \<Rightarrow> inst \<Rightarrow> bool \<times> inst" where
  "tryEnter k i =
     (if hasBackpressure i \<or> 0 < numWaitingToEnter i then (False, i)
      else (True, i\<lparr>activeTask := Some k, exclusiveHeld := True, exclusiveOwner := Some k\<rparr>))"

definition enterRun :: "nat \<Rightarrow> inst \<Rightarrow> inst" where
  "enterRun k i = i\<lparr>mayEnter := False, activeTask := Some k, exclusiveHeld := True, exclusiveOwner := Some k\<rparr>"

definition leaveRun :: "inst \<Rightarrow> inst" where
  "leaveRun i = i\<lparr>exclusiveHeld := False, exclusiveOwner := None, activeTask := syncBase i, mayEnter := True\<rparr>"

definition suspendRun :: "inst \<Rightarrow> inst" where
  "suspendRun i = i\<lparr>activeTask := syncBase i, mayEnter := True\<rparr>"

section \<open>Running a task up to and from its calls into the guest\<close>

definition fail :: "nat \<Rightarrow> task_error \<Rightarrow> ('x, 't, 'w, 'v) tstate \<Rightarrow> ('x, 't, 'w, 'v) tstate" where
  "fail k e = upd_task k (\<lambda>t. t\<lparr>finished := True, failure := Some e\<rparr>)"

definition leave_and_fail :: "nat \<Rightarrow> task_error \<Rightarrow> ('x, 't, 'w, 'v) tstate \<Rightarrow> ('x, 't, 'w, 'v) tstate" where
  "leave_and_fail k e st = fail k e (upd_inst leaveRun st)"

text \<open>
  The start of the first run, up to the call of the core function: lifting the arguments
  (\<open>start_err\<close>) and lowering them (\<open>lower_err\<close>) may fail.
\<close>

definition firstRun ::
  "nat \<Rightarrow> string option \<Rightarrow> string option \<Rightarrow> ('x, 't, 'w, 'v) tstate \<Rightarrow> ('x, 't, 'w, 'v) tstate" where
  "firstRun k start_err lower_err st =
     (let st = upd_inst (enterRun k) st in
      case start_err of
        Some e \<Rightarrow> leave_and_fail k (Host_error e) st
      | None \<Rightarrow>
          let st = upd_task k (\<lambda>t. t\<lparr>state := taskStarted\<rparr>) st in
          case lower_err of
            Some e \<Rightarrow> leave_and_fail k (Host_error e) st
          | None \<Rightarrow> st)"

text \<open>A trap in the core function or the callback.\<close>

definition guest_trap :: "nat \<Rightarrow> string \<Rightarrow> ('x, 't, 'w, 'v) tstate \<Rightarrow> ('x, 't, 'w, 'v) tstate" where
  "guest_trap k e st = fail k (Host_error e) (upd_inst (\<lambda>i. (leaveRun i)\<lparr>poisoned := True\<rparr>) st)"

text \<open>The start of a round of the callback loop, up to the call of the callback.\<close>

definition runLoop :: "nat \<Rightarrow> ('x, 't, 'w, 'v) tstate \<Rightarrow> ('x, 't, 'w, 'v) tstate" where
  "runLoop k = upd_inst (enterRun k)"

definition finishExit :: "nat \<Rightarrow> ('x, 't, 'w, 'v) tstate \<Rightarrow> ('x, 't, 'w, 'v) tstate" where
  "finishExit k st =
     (let st = upd_inst leaveRun st in
      if state (tasks st k) \<noteq> taskResolved then fail k Exit_before_return st
      else upd_task k (\<lambda>t. t\<lparr>finished := True\<rparr>) st)"

definition unpackCallbackResult :: "u32 \<Rightarrow> task_error + u32 \<times> u32" where
  "unpackCallbackResult packed =
     (let cc = packed AND 0xf in
      if 2 < cc then Inl (Bad_callback_code cc) else Inr (cc, drop_bit 4 packed))"

text \<open>What a callback task does with the packed value its guest code returned.\<close>

definition advance :: "nat \<Rightarrow> u32 \<Rightarrow> ('x, 't, 'w, 'v) tstate \<Rightarrow> ('x, 't, 'w, 'v) tstate" where
  "advance k packed st =
     (case unpackCallbackResult packed of
        Inl e \<Rightarrow> leave_and_fail k e st
      | Inr (cc, si) \<Rightarrow>
          if cc = 0 then finishExit k st
          else if cc = 1 then
            sched_park k (upd_inst leaveRun (upd_task k (\<lambda>t. t\<lparr>park := parkYield, cancellable := True\<rparr>) st))
          else
            (case getEntry si (resources (asy st)) of
               Some (WaitableSet s) \<Rightarrow>
                 (let st = upd_task k (\<lambda>t. t\<lparr>park := parkWait, gwset := Some s, cancellable := True\<rparr>) st;
                      st = upd_asy (upd_s s (\<lambda>x. x\<lparr>numWaiting := numWaiting x + 1\<rparr>)) st
                  in sched_park k (upd_inst leaveRun st))
             | _ \<Rightarrow> leave_and_fail k (Wait_on_non_set si) st))"

text \<open>
  What a stackful task does when its core function returns: with asynchronous options it must
  have resolved; otherwise its results are lifted (\<open>lifted\<close>), returned, and post-return is
  called (\<open>post\<close>: a missing function, or a trap).
\<close>

definition stackful_return ::
  "nat \<Rightarrow> string + 'v list \<Rightarrow> (bool \<times> string) option \<Rightarrow> ('x, 't, 'w, 'v) tstate \<Rightarrow> ('x, 't, 'w, 'v) tstate" where
  "stackful_return k lifted post st =
     (if asyncOpts (tasks st k) then finishExit k st
      else
        case lifted of
          Inl e \<Rightarrow> leave_and_fail k (Host_error e) st
        | Inr vals \<Rightarrow>
            (case returnValues k vals st of
               Inl e \<Rightarrow> leave_and_fail k e st
             | Inr st \<Rightarrow>
                 (case post of
                    Some (True, e) \<Rightarrow> guest_trap k e st
                  | Some (False, e) \<Rightarrow> leave_and_fail k (Host_error e) st
                  | None \<Rightarrow> upd_task k (\<lambda>t. t\<lparr>finished := True\<rparr>) (upd_inst leaveRun st))))"

section \<open>Parking and resuming\<close>

text \<open>The first half of \<^verbatim>\<open>block\<close>: a pending cancellation is delivered at once, otherwise the task suspends.\<close>

definition block_park :: "nat \<Rightarrow> bool \<Rightarrow> ('x, 't, 'w, 'v) tstate \<Rightarrow> bool \<times> ('x, 't, 'w, 'v) tstate" where
  "block_park k c st =
     (case deliverPendingCancel k c st of
        (True, st) \<Rightarrow> (True, st)
      | (False, st) \<Rightarrow>
          (False, sched_park k (upd_inst suspendRun (upd_task k (\<lambda>t. t\<lparr>park := parkBlocked, cancellable := c\<rparr>) st))))"

text \<open>The second half, when the baton comes back.\<close>

definition block_resume :: "nat \<Rightarrow> ('x, 't, 'w, 'v) tstate \<Rightarrow> ('x, 't, 'w, 'v) tstate" where
  "block_resume k st = upd_inst (enterRun k) (upd_task k (\<lambda>t. t\<lparr>park := parkNone, cancellable := False\<rparr>) st)"

text \<open>Whether the scheduler may resume a parked task; \<open>unblocked\<close> is the predicate a blocking built-in waits for.\<close>

definition ready :: "(nat \<Rightarrow> ('x, 't, 'w, 'v) tstate \<Rightarrow> bool) \<Rightarrow> nat \<Rightarrow> ('x, 't, 'w, 'v) tstate \<Rightarrow> bool" where
  "ready unblocked k st =
     (let t = tasks st k; held = exclusiveHeld (instn st) \<and> exclusiveOwner (instn st) \<noteq> Some k in
      case park t of
        parkEntry \<Rightarrow> \<not> hasBackpressure (instn st)
      | parkWait \<Rightarrow> \<not> held \<and> (cancelWake t \<or> cancelDeliverable t \<or>
          (case gwset t of None \<Rightarrow> False | Some s \<Rightarrow> set_hasPendingEvent s (asy st)))
      | parkYield \<Rightarrow> \<not> held
      | parkBlocked \<Rightarrow> cancelWake t \<or> cancelDeliverable t \<or> unblocked k st
      | parkNone \<Rightarrow> False)"

text \<open>What follows a resumption: nothing, a failure that is reported, the first run, a round of the callback loop, or the rest of a built-in.\<close>

datatype resumption = Over | Failed task_error | First_run | Round eventTuple | Unblock bool

definition start_task :: "nat \<Rightarrow> ('x, 't, 'w, 'v) tstate \<Rightarrow> resumption \<times> ('x, 't, 'w, 'v) tstate" where
  "start_task k st =
     (case tryEnter k (instn st) of
        (True, i) \<Rightarrow> (First_run, st\<lparr>instn := i\<rparr>)
      | (False, _) \<Rightarrow>
          (Over, sched_park k (upd_inst (\<lambda>i. i\<lparr>numWaitingToEnter := numWaitingToEnter i + 1\<rparr>)
             (upd_task k (\<lambda>t. t\<lparr>park := parkEntry, cancellable := True\<rparr>) st))))"

definition resumeReady ::
  "('t \<Rightarrow> 'x \<Rightarrow> eventTuple \<times> 'x) \<Rightarrow> nat \<Rightarrow> ('x, 't, 'w, 'v) tstate \<Rightarrow> task_error + resumption \<times> ('x, 't, 'w, 'v) tstate" where
  "resumeReady run k st =
     (case park (tasks st k) of
        parkEntry \<Rightarrow>
          (let st = sched_unpark k (upd_inst (\<lambda>i. i\<lparr>numWaitingToEnter := numWaitingToEnter i - 1\<rparr>) st);
               st = (if stackful (tasks st k) then upd_task k (\<lambda>t. t\<lparr>park := parkNone\<rparr>) st else st)
           in if cancelWake (tasks st k) then
                let st = upd_task k (\<lambda>t. t\<lparr>cancelWake := False\<rparr>) st in
                case cancelResolve k st of
                  Inl e \<Rightarrow> Inr (Failed e, fail k e st)
                | Inr st \<Rightarrow> Inr (Over, upd_task k (\<lambda>t. t\<lparr>finished := True\<rparr>) st)
              else Inr (First_run, st))
      | parkWait \<Rightarrow>
          (case gwset (tasks st k) of
             None \<Rightarrow> Inl Not_parked
           | Some s \<Rightarrow>
               let st = upd_asy (upd_s s (\<lambda>x. x\<lparr>numWaiting := numWaiting x - 1\<rparr>)) st;
                   cev = \<lparr>code = eventTaskCancelled, p1 = 0, p2 = 0\<rparr>
               in bindE (if cancelWake (tasks st k) then Inr (cev, st)
                         else case deliverPendingCancel k True st of
                           (True, st) \<Rightarrow> Inr (cev, st)
                         | (False, st) \<Rightarrow>
                             (case set_getPendingEvent run s (asy st) of
                                Inl e \<Rightarrow> Inl (Event_error e)
                              | Inr (ev, a) \<Rightarrow> Inr (ev, st\<lparr>asy := a\<rparr>)))
                    (\<lambda>(ev, st). Inr (Round ev,
                       sched_unpark k (upd_task k (\<lambda>t. t\<lparr>cancelWake := False, gwset := None\<rparr>) st))))
      | parkYield \<Rightarrow>
          (let (c, st) = (if cancelWake (tasks st k) then (True, st) else deliverPendingCancel k True st);
               ev = (if c then \<lparr>code = eventTaskCancelled, p1 = 0, p2 = 0\<rparr> else \<lparr>code = eventNone, p1 = 0, p2 = 0\<rparr>)
           in Inr (Round ev, sched_unpark k (upd_task k (\<lambda>t. t\<lparr>cancelWake := False\<rparr>) st)))
      | parkBlocked \<Rightarrow>
          (let st = sched_unpark k st; c = cancelWake (tasks st k)
           in Inr (Unblock c, upd_task k (\<lambda>t. t\<lparr>cancelWake := False\<rparr>) st))
      | parkNone \<Rightarrow> Inl Not_parked)"

definition requestCancellation ::
  "('t \<Rightarrow> 'x \<Rightarrow> eventTuple \<times> 'x) \<Rightarrow> nat \<Rightarrow> ('x, 't, 'w, 'v) tstate \<Rightarrow> task_error + resumption \<times> ('x, 't, 'w, 'v) tstate" where
  "requestCancellation run k st =
     (let t = tasks st k; i = instn st;
          heldByOther = exclusiveHeld i \<and> exclusiveOwner i \<noteq> Some k;
          now = upd_task k (\<lambda>t. t\<lparr>state := taskCancelDelivered, cancelWake := True\<rparr>) st;
          later = upd_task k (\<lambda>t. t\<lparr>state := taskPendingCancel\<rparr>) st
      in case state t of
           taskInitial \<Rightarrow> resumeReady run k now
         | taskStarted \<Rightarrow>
             (if stackful t \<or> park t = parkBlocked then
                if park t = parkBlocked \<and> cancellable t \<and> \<not> heldByOther \<and> mayEnter i
                then resumeReady run k now else Inr (Over, later)
              else if park t \<noteq> parkNone \<and> cancellable t \<and> \<not> exclusiveHeld i \<and> mayEnter i
              then resumeReady run k now
              else Inr (Over, later))
         | _ \<Rightarrow> Inl Panic_cancel_resolved)"

section \<open>Built-ins on the running task\<close>

definition requireActiveTask :: "('x, 't, 'w, 'v) tstate \<Rightarrow> task_error + nat" where
  "requireActiveTask st =
     (if \<not> mayLeave (asy st) then Inl Task_may_not_leave
      else case activeTask (instn st) of None \<Rightarrow> Inl No_active_task | Some k \<Rightarrow> Inr k)"

definition taskCancel :: "('x, 't, 'w, 'v) tstate \<Rightarrow> task_error + ('x, 't, 'w, 'v) tstate" where
  "taskCancel st =
     bindE (requireActiveTask st) (\<lambda>k.
     if stackful (tasks st k) \<and> \<not> asyncOpts (tasks st k) then Inl Not_async else cancelResolve k st)"

text \<open>The result has been checked against the declared type and lifted, which may have failed.\<close>

definition taskReturn :: "string + 'v list \<Rightarrow> ('x, 't, 'w, 'v) tstate \<Rightarrow> task_error + ('x, 't, 'w, 'v) tstate" where
  "taskReturn lifted st =
     bindE (requireActiveTask st) (\<lambda>k.
     case lifted of Inl e \<Rightarrow> Inl (Host_error e) | Inr vals \<Rightarrow> returnValues k vals st)"

definition contextGet :: "u32 \<Rightarrow> ('x, 't, 'w, 'v) tstate \<Rightarrow> task_error + u64" where
  "contextGet slot st =
     bindE (requireActiveTask st) (\<lambda>k.
     if length (ctxStorage (tasks st k)) \<le> unat slot then Inl (Slot_out_of_range slot)
     else Inr (ctxStorage (tasks st k) ! unat slot))"

definition contextSet :: "u32 \<Rightarrow> u64 \<Rightarrow> ('x, 't, 'w, 'v) tstate \<Rightarrow> task_error + ('x, 't, 'w, 'v) tstate" where
  "contextSet slot v st =
     bindE (requireActiveTask st) (\<lambda>k.
     if length (ctxStorage (tasks st k)) \<le> unat slot then Inl (Slot_out_of_range slot)
     else Inr (upd_task k (\<lambda>t. t\<lparr>ctxStorage := (ctxStorage t)[unat slot := v]\<rparr>) st))"

text \<open>The counter is changed before the check that traps.\<close>

definition backpressureInc :: "('x, 't, 'w, 'v) tstate \<Rightarrow> task_error + ('x, 't, 'w, 'v) tstate" where
  "backpressureInc st =
     bindE (requireActiveTask st) (\<lambda>_.
     let st = upd_inst (\<lambda>i. i\<lparr>backpressure := backpressure i + 1\<rparr>) st in
     if backpressure (instn st) = 2 ^ 16 then Inl Backpressure_overflow else Inr st)"

definition backpressureDec :: "('x, 't, 'w, 'v) tstate \<Rightarrow> task_error + ('x, 't, 'w, 'v) tstate" where
  "backpressureDec st =
     bindE (requireActiveTask st) (\<lambda>_.
     let st = upd_inst (\<lambda>i. i\<lparr>backpressure := backpressure i - 1\<rparr>) st in
     if backpressure (instn st) < 0 then Inl Backpressure_underflow else Inr st)"

end
