(* ===== verification/Task_Invariant.thy ===== *)
theory Task_Invariant
  imports Tasks
begin

text \<open>
  The steps of an instance as a transition relation on the tasks, waitables and handles of one
  instance, and the invariant it keeps: who holds the exclusive, who is parked, what the counters
  count, and that a task resolves once. A step is one stretch of the runtime between two calls
  into guest code, or one built-in that the running guest code calls.
\<close>

section \<open>Specification vocabulary\<close>

text \<open>Continuing a task after it was started, resumed or cancelled, up to its next call into the guest.\<close>

definition continue_task ::
  "nat \<Rightarrow> resumption \<Rightarrow> string option \<Rightarrow> string option \<Rightarrow> ('x, 't, 'w, 'v) tstate \<Rightarrow> ('x, 't, 'w, 'v) tstate" where
  "continue_task k r start_err lower_err st =
     (case r of
        First_run \<Rightarrow> firstRun k start_err lower_err st
      | Round ev \<Rightarrow> runLoop k st
      | Unblock c \<Rightarrow> block_resume k st
      | _ \<Rightarrow> st)"

text \<open>The task whose guest code is on the stack, and a task that was never started.\<close>

definition running :: "nat \<Rightarrow> ('x, 't, 'w, 'v) tstate \<Rightarrow> bool" where
  "running k st \<longleftrightarrow> \<not> mayEnter (instn st) \<and> activeTask (instn st) = Some k"

definition unstarted :: "'v task \<Rightarrow> bool" where
  "unstarted t \<longleftrightarrow> state t = taskInitial \<and> park t = parkNone \<and> \<not> finished t \<and> \<not> cancelWake t"

text \<open>
  The steps of an instance: tasks start, are resumed when ready, and are cancelled; the running
  one calls built-ins, blocks, returns to the runtime or traps; waitables and handles change
  in between.
\<close>

inductive t_step ::
  "('t \<Rightarrow> 'x \<Rightarrow> eventTuple \<times> 'x) \<Rightarrow> (nat \<Rightarrow> ('x, 't, 'w, 'v) tstate \<Rightarrow> bool) \<Rightarrow>
   ('x, 't, 'w, 'v) tstate \<Rightarrow> ('x, 't, 'w, 'v) tstate \<Rightarrow> bool"
  for run unblocked where
  begin_task: "mayEnter (instn st) \<Longrightarrow> \<not> poisoned (instn st) \<Longrightarrow> unstarted (tasks st k) \<Longrightarrow> start_task k st = (r, st1) \<Longrightarrow>
    t_step run unblocked st (continue_task k r oe le st1)"
| resume: "k \<in> set (parked st) \<Longrightarrow> ready unblocked k st \<Longrightarrow> resumeReady run k st = Inr (r, st1) \<Longrightarrow>
    t_step run unblocked st (continue_task k r oe le st1)"
| cancel: "k \<in> set (parked st) \<or> running k st \<Longrightarrow> requestCancellation run k st = Inr (r, st1) \<Longrightarrow>
    t_step run unblocked st (continue_task k r oe le st1)"
| task_return: "running k st \<Longrightarrow> taskReturn lifted st = Inr st' \<Longrightarrow> t_step run unblocked st st'"
| task_cancel: "running k st \<Longrightarrow> taskCancel st = Inr st' \<Longrightarrow> t_step run unblocked st st'"
| cancel_event: "running k st \<Longrightarrow> deliverPendingCancel k True st = (True, st') \<Longrightarrow> t_step run unblocked st st'"
| context_set: "running k st \<Longrightarrow> contextSet slot v st = Inr st' \<Longrightarrow> t_step run unblocked st st'"
| pressure_inc: "running k st \<Longrightarrow> backpressureInc st = Inr st' \<Longrightarrow> t_step run unblocked st st'"
| pressure_dec: "running k st \<Longrightarrow> backpressureDec st = Inr st' \<Longrightarrow> t_step run unblocked st st'"
| block: "running k st \<Longrightarrow> stackful (tasks st k) \<or> promoted (tasks st k) \<Longrightarrow> block_park k c st = (b, st') \<Longrightarrow>
    t_step run unblocked st st'"
| trap: "running k st \<Longrightarrow> t_step run unblocked st (guest_trap k e st)"
| callback_return: "running k st \<Longrightarrow> \<not> stackful (tasks st k) \<Longrightarrow> t_step run unblocked st (advance k packed st)"
| core_return: "running k st \<Longrightarrow> stackful (tasks st k) \<Longrightarrow> t_step run unblocked st (stackful_return k lifted post st)"
| waitables_step: "as_step run (asy st) a \<Longrightarrow> t_step run unblocked st (st\<lparr>asy := a\<rparr>)"
| handles_step: "ht_step (resources (asy st), hp (asy st)) (t, h) \<Longrightarrow>
    (\<And>i e. \<not> is_res e \<Longrightarrow> entries t i = Some e \<longleftrightarrow> entries (resources (asy st)) i = Some e) \<Longrightarrow>
    t_step run unblocked st (upd_asy (\<lambda>a. a\<lparr>resources := t, hp := h\<rparr>) st)"

definition idle_inst :: inst where
  "idle_inst = \<lparr>mayEnter = True, activeTask = None, syncBase = None, exclusiveHeld = False, exclusiveOwner = None,
     backpressure = 0, numWaitingToEnter = 0, poisoned = False\<rparr>"

definition init_tstate :: "('x, 't, 'w) astate \<Rightarrow> (nat \<Rightarrow> 'v task) \<Rightarrow> ('x, 't, 'w, 'v) tstate" where
  "init_tstate a ts = \<lparr>asy = a, instn = idle_inst, tasks = ts, parked = [], delivered = []\<rparr>"

inductive t_reachable ::
  "('t \<Rightarrow> 'x \<Rightarrow> eventTuple \<times> 'x) \<Rightarrow> (nat \<Rightarrow> ('x, 't, 'w, 'v) tstate \<Rightarrow> bool) \<Rightarrow> ('x, 't, 'w, 'v) tstate \<Rightarrow>
   ('x, 't, 'w, 'v) tstate \<Rightarrow> bool"
  for run unblocked init where
  start: "t_reachable run unblocked init init"
| step: "t_reachable run unblocked init st \<Longrightarrow> t_step run unblocked st st' \<Longrightarrow> t_reachable run unblocked init st'"

definition parked_at :: "('x, 't, 'w, 'v) tstate \<Rightarrow> ('v task \<Rightarrow> bool) \<Rightarrow> int" where
  "parked_at st P = int (length (filter (\<lambda>k. P (tasks st k)) (parked st)))"

text \<open>The exclusive has an owner, which is the running task or the one task parked in a blocking built-in.\<close>

definition exclusive_inv :: "('x, 't, 'w, 'v) tstate \<Rightarrow> bool" where
  "exclusive_inv st \<longleftrightarrow> (let i = instn st in
     (exclusiveHeld i \<longleftrightarrow> exclusiveOwner i \<noteq> None) \<and> syncBase i = None \<and> (mayEnter i \<longrightarrow> activeTask i = None) \<and>
     (\<not> mayEnter i \<longrightarrow> activeTask i \<noteq> None \<and> exclusiveOwner i = activeTask i) \<and>
     (\<forall>k. exclusiveOwner i = Some k \<longrightarrow> running k st \<or> k \<in> set (parked st) \<and> park (tasks st k) = parkBlocked) \<and>
     (\<forall>k \<in> set (parked st). park (tasks st k) = parkBlocked \<longrightarrow> exclusiveOwner i = Some k))"

text \<open>Parked tasks are listed once, wait somewhere, and are not finished; a running task is not parked.\<close>

definition parked_inv :: "('x, 't, 'w, 'v) tstate \<Rightarrow> bool" where
  "parked_inv st \<longleftrightarrow> distinct (parked st) \<and>
     (\<forall>k \<in> set (parked st). park (tasks st k) \<noteq> parkNone \<and> \<not> finished (tasks st k) \<and> \<not> cancelWake (tasks st k) \<and>
        (park (tasks st k) = parkEntry \<longleftrightarrow> state (tasks st k) = taskInitial) \<and>
        (park (tasks st k) = parkWait \<longrightarrow> (\<exists>s < obrk (asy st). gwset (tasks st k) = Some s))) \<and>
     (\<forall>k. running k st \<longrightarrow> k \<notin> set (parked st) \<and> \<not> finished (tasks st k) \<and> \<not> cancelWake (tasks st k) \<and>
        state (tasks st k) \<noteq> taskInitial \<and> park (tasks st k) \<noteq> parkBlocked)"

text \<open>The counters agree with the parked list.\<close>

definition counters_inv :: "('x, 't, 'w, 'v) tstate \<Rightarrow> bool" where
  "counters_inv st \<longleftrightarrow> numWaitingToEnter (instn st) = parked_at st (\<lambda>t. park t = parkEntry) \<and>
     (\<forall>s. numWaiting (sets (asy st) s) = parked_at st (\<lambda>t. park t = parkWait \<and> gwset t = Some s))"

definition sent :: "nat \<Rightarrow> (nat \<times> 'v list \<times> bool) list \<Rightarrow> nat" where
  "sent k ds = length (filter (\<lambda>d. fst d = k) ds)"

text \<open>A task forwards its result once, when it resolves; one that finished without failure has resolved.\<close>

definition results_inv :: "('x, 't, 'w, 'v) tstate \<Rightarrow> bool" where
  "results_inv st \<longleftrightarrow> (\<forall>k.
     sent k (delivered st) = (if state (tasks st k) = taskResolved \<and> forwards (tasks st k) then 1 else 0) \<and>
     (finished (tasks st k) \<and> failure (tasks st k) = None \<longrightarrow> state (tasks st k) = taskResolved) \<and>
     (failure (tasks st k) \<noteq> None \<longrightarrow> finished (tasks st k)))"

definition task_inv :: "('x, 't, 'w, 'v) tstate \<Rightarrow> bool" where
  "task_inv st \<longleftrightarrow> exclusive_inv st \<and> parked_inv st \<and> counters_inv st \<and> results_inv st"

text \<open>What a successful return or acknowledged cancellation changes.\<close>

definition resolves :: "nat \<Rightarrow> bool \<Rightarrow> ('x, 't, 'w, 'v) tstate \<Rightarrow> ('x, 't, 'w, 'v) tstate \<Rightarrow> bool" where
  "resolves k c st st' \<longleftrightarrow> state (tasks st k) \<noteq> taskResolved \<and> borrows k st \<le> 0 \<and>
     instn st' = instn st \<and> parked st' = parked st \<and> asy st' = asy st \<and> (\<forall>j. j \<noteq> k \<longrightarrow> tasks st' j = tasks st j) \<and>
     (\<exists>vals. delivered st' = (if forwards (tasks st k) then delivered st @ [(k, vals, c)] else delivered st)) \<and>
     state (tasks st' k) = taskResolved \<and> forwards (tasks st' k) = forwards (tasks st k) \<and>
     finished (tasks st' k) = finished (tasks st k) \<and> failure (tasks st' k) = failure (tasks st k) \<and>
     park (tasks st' k) = park (tasks st k) \<and> cancelWake (tasks st' k) = cancelWake (tasks st k)"

text \<open>The state of the instance while task \<open>k\<close> is between the scheduler and its guest code.\<close>

definition handed_over :: "nat \<Rightarrow> ('x, 't, 'w, 'v) tstate \<Rightarrow> bool" where
  "handed_over k st \<longleftrightarrow> parked_inv st \<and> counters_inv st \<and> results_inv st \<and> syncBase (instn st) = None \<and>
     (\<forall>j \<in> set (parked st). park (tasks st j) \<noteq> parkBlocked) \<and> k \<notin> set (parked st) \<and>
     \<not> finished (tasks st k) \<and> \<not> cancelWake (tasks st k) \<and> mayEnter (instn st)"

text \<open>Task \<open>k\<close> has been taken off the parked list, and the counters follow.\<close>

definition taken_off :: "nat \<Rightarrow> ('x, 't, 'w, 'v) tstate \<Rightarrow> ('x, 't, 'w, 'v) tstate \<Rightarrow> bool" where
  "taken_off k st st1 \<longleftrightarrow> parked st1 = remove1 k (parked st) \<and> (\<forall>j. j \<noteq> k \<longrightarrow> tasks st1 j = tasks st j) \<and>
     instn st1 = (instn st)\<lparr>numWaitingToEnter := numWaitingToEnter (instn st) - (if park (tasks st k) = parkEntry then 1 else 0)\<rparr> \<and>
     obrk (asy st1) = obrk (asy st) \<and>
     (\<forall>s. numWaiting (sets (asy st1) s) = numWaiting (sets (asy st) s) - (if park (tasks st k) = parkWait \<and> gwset (tasks st k) = Some s then 1 else 0))"

text \<open>The changes a cancellation makes before it resumes a task.\<close>

definition cancel_mark :: "'v task \<Rightarrow> 'v task" where
  "cancel_mark t = t\<lparr>state := taskCancelDelivered, cancelWake := True\<rparr>"

definition demo_task :: "nat task" where
  "demo_task = \<lparr>state = taskInitial, stackful = False, asyncOpts = True, promoted = False, forwards = True, cancelled = False,
     result = [], ctxStorage = [0, 0], park = parkNone, gwset = None, cancellable = False, cancelWake = False,
     finished = False, failure = None\<rparr>"

definition demo_none :: "nat \<Rightarrow> (unit, unit, unit, nat) tstate \<Rightarrow> bool" where
  "demo_none k st = False"

definition demo_idle :: "(unit, unit, unit, nat) tstate" where
  "demo_idle = init_tstate demo_init (\<lambda>_. demo_task)"

definition demo_entered :: "(unit, unit, unit, nat) tstate" where
  "demo_entered = continue_task 0 (fst (start_task 0 demo_idle)) None None (snd (start_task 0 demo_idle))"

definition demo_yielded :: "(unit, unit, unit, nat) tstate" where
  "demo_yielded = advance 0 1 demo_entered"

definition demo_again :: "(unit, unit, unit, nat) tstate" where
  "demo_again = (case resumeReady demo_run 0 demo_yielded of Inr (q, st) \<Rightarrow> continue_task 0 q None None st | Inl _ \<Rightarrow> demo_yielded)"

definition demo_returned :: "(unit, unit, unit, nat) tstate" where
  "demo_returned = (case taskReturn (Inr [7]) demo_again of Inr st \<Rightarrow> st | Inl _ \<Rightarrow> demo_again)"

definition demo_exited :: "(unit, unit, unit, nat) tstate" where
  "demo_exited = advance 0 0 demo_returned"

lemma sent_simps [simp]: "sent k [] = 0" "sent k (ds @ [(j, v, c)]) = sent k ds + (if j = k then 1 else 0)"
  by (simp_all add: sent_def)

lemma tupd_simps [simp]:
  "tasks (upd_task k f st) = (tasks st)(k := f (tasks st k))"
  "asy (upd_task k f st) = asy st" "instn (upd_task k f st) = instn st" "parked (upd_task k f st) = parked st"
  "delivered (upd_task k f st) = delivered st"
  "instn (upd_inst g st) = g (instn st)"
  "asy (upd_inst g st) = asy st" "tasks (upd_inst g st) = tasks st" "parked (upd_inst g st) = parked st"
  "delivered (upd_inst g st) = delivered st"
  "asy (upd_asy h st) = h (asy st)"
  "instn (upd_asy h st) = instn st" "tasks (upd_asy h st) = tasks st" "parked (upd_asy h st) = parked st"
  "delivered (upd_asy h st) = delivered st"
  "parked (sched_park k st) = parked st @ [k]" "parked (sched_unpark k st) = remove1 k (parked st)"
  "asy (sched_park k st) = asy st" "instn (sched_park k st) = instn st" "tasks (sched_park k st) = tasks st"
  "delivered (sched_park k st) = delivered st"
  "asy (sched_unpark k st) = asy st" "instn (sched_unpark k st) = instn st" "tasks (sched_unpark k st) = tasks st"
  "delivered (sched_unpark k st) = delivered st"
  by (simp_all add: upd_task_def upd_inst_def upd_asy_def sched_park_def sched_unpark_def)

lemma parked_at_cong:
  "parked st' = parked st \<Longrightarrow> (\<And>k. k \<in> set (parked st) \<Longrightarrow> P (tasks st' k) = P (tasks st k)) \<Longrightarrow> parked_at st' P = parked_at st P"
  by (simp add: parked_at_def cong: filter_cong)

lemma parked_at_park:
  assumes "parked st' = parked st @ [k]" "k \<notin> set (parked st)" "\<And>j. j \<noteq> k \<Longrightarrow> tasks st' j = tasks st j"
  shows "parked_at st' P = parked_at st P + (if P (tasks st' k) then 1 else 0)"
proof -
  have "filter (\<lambda>k. P (tasks st' k)) (parked st) = filter (\<lambda>k. P (tasks st k)) (parked st)"
    using assms(2,3) by (intro filter_cong) (auto, metis+)
  then show ?thesis using assms(1) by (simp add: parked_at_def)
qed

lemma length_filter_remove1:
  "distinct xs \<Longrightarrow> k \<in> set xs \<Longrightarrow> int (length (filter P (remove1 k xs))) = int (length (filter P xs)) - (if P k then 1 else 0)"
  by (induction xs) auto

lemma parked_at_unpark:
  assumes "parked st' = remove1 k (parked st)" "k \<in> set (parked st)" "distinct (parked st)" "\<And>j. j \<noteq> k \<Longrightarrow> tasks st' j = tasks st j"
  shows "parked_at st' P = parked_at st P - (if P (tasks st k) then 1 else 0)"
proof -
  have "filter (\<lambda>k. P (tasks st' k)) (remove1 k (parked st)) = filter (\<lambda>k. P (tasks st k)) (remove1 k (parked st))"
    using assms(3,4) by (intro filter_cong) auto
  then show ?thesis using length_filter_remove1 [OF assms(3,2), of "\<lambda>k. P (tasks st k)"] assms(1) by (simp add: parked_at_def)
qed

lemmas tinv_defs = exclusive_inv_def parked_inv_def counters_inv_def results_inv_def

text \<open>What the invariant says of a state in which task \<open>k\<close> runs.\<close>

lemma running_facts:
  assumes "task_inv st" "running k st"
  shows "exclusiveOwner (instn st) = Some k" "exclusiveHeld (instn st)" "k \<notin> set (parked st)" "syncBase (instn st) = None"
    "\<not> finished (tasks st k)" "\<not> cancelWake (tasks st k)" "state (tasks st k) \<noteq> taskInitial" "park (tasks st k) \<noteq> parkBlocked"
    "distinct (parked st)" "\<And>j. j \<in> set (parked st) \<Longrightarrow> park (tasks st j) \<noteq> parkBlocked" "failure (tasks st k) = None"
proof -
  have e: "exclusive_inv st" and p: "parked_inv st" and r: "results_inv st" using assms by (auto simp: task_inv_def)
  show o: "exclusiveOwner (instn st) = Some k" "exclusiveHeld (instn st)" "syncBase (instn st) = None"
    using e assms(2) by (auto simp: exclusive_inv_def Let_def running_def)
  show np: "k \<notin> set (parked st)" "\<not> finished (tasks st k)" "\<not> cancelWake (tasks st k)" "state (tasks st k) \<noteq> taskInitial"
    "park (tasks st k) \<noteq> parkBlocked" "distinct (parked st)"
    using p assms(2) by (auto simp: parked_inv_def)
  show "failure (tasks st k) = None" using r np by (auto simp: results_inv_def)
  fix j assume "j \<in> set (parked st)"
  then show "park (tasks st j) \<noteq> parkBlocked" using e np o by (auto simp: exclusive_inv_def Let_def)
qed

text \<open>The running task leaves: the exclusive is free and nothing runs.\<close>

lemma left_inv:
  assumes inv: "task_inv st" and k: "running k st"
    and i: "exclusiveHeld (instn st') = False" "exclusiveOwner (instn st') = None" "syncBase (instn st') = None"
      "activeTask (instn st') = None" "mayEnter (instn st')" "numWaitingToEnter (instn st') = numWaitingToEnter (instn st)"
    and t: "\<And>j. j \<noteq> k \<Longrightarrow> tasks st' j = tasks st j" and p: "parked st' = parked st" and a: "asy st' = asy st"
    and r: "results_inv st'"
  shows "task_inv st'"
proof -
  note f = running_facts [OF inv k]
  have same: "tasks st' j = tasks st j" if "j \<in> set (parked st)" for j using t that f(3) by metis
  have "exclusive_inv st'" using f(10) same by (auto simp: exclusive_inv_def Let_def i p running_def)
  moreover have "parked_inv st'" using inv same by (auto simp: task_inv_def parked_inv_def p i running_def a)
  moreover have "counters_inv st'"
    using inv same parked_at_cong [OF p] by (auto simp: task_inv_def counters_inv_def i a)
  ultimately show ?thesis using r by (simp add: task_inv_def)
qed

text \<open>The running task parks outside the instance's exclusive.\<close>

lemma left_and_parked_inv:
  assumes inv: "task_inv st" and k: "running k st"
    and i: "exclusiveHeld (instn st') = False" "exclusiveOwner (instn st') = None" "syncBase (instn st') = None"
      "activeTask (instn st') = None" "mayEnter (instn st')" "numWaitingToEnter (instn st') = numWaitingToEnter (instn st)"
    and t: "\<And>j. j \<noteq> k \<Longrightarrow> tasks st' j = tasks st j" and p: "parked st' = parked st @ [k]"
    and a: "obrk (asy st') = obrk (asy st)"
      "\<And>s. numWaiting (sets (asy st') s) = numWaiting (sets (asy st) s) + (if park (tasks st' k) = parkWait \<and> gwset (tasks st' k) = Some s then 1 else 0)"
    and q: "park (tasks st' k) = parkYield \<or> park (tasks st' k) = parkWait \<and> (\<exists>s < obrk (asy st). gwset (tasks st' k) = Some s)"
      "\<not> finished (tasks st' k)" "\<not> cancelWake (tasks st' k)" "state (tasks st' k) = state (tasks st k)"
    and r: "results_inv st'"
  shows "task_inv st'"
proof -
  note f = running_facts [OF inv k]
  have same: "tasks st' j = tasks st j" if "j \<in> set (parked st)" for j using t that f(3) by metis
  have "exclusive_inv st'" using f(10) same q(1) by (auto simp: exclusive_inv_def Let_def i p running_def)
  moreover have "parked_inv st'" using inv same f(3,7,9) q by (auto simp: task_inv_def parked_inv_def p i running_def a)
  moreover have "counters_inv st'"
    using inv q(1) parked_at_park [OF p f(3) t] by (auto simp: task_inv_def counters_inv_def i a)
  ultimately show ?thesis using r by (simp add: task_inv_def)
qed

text \<open>A task that is neither parked nor finished enters, when nothing else holds the exclusive.\<close>

lemma entered_inv:
  assumes inv: "parked_inv st" "counters_inv st" "results_inv st" and syn: "syncBase (instn st) = None"
    and blk: "\<And>j. j \<in> set (parked st) \<Longrightarrow> park (tasks st j) \<noteq> parkBlocked"
    and k: "k \<notin> set (parked st)" "\<not> finished (tasks st k)" "\<not> cancelWake (tasks st k)" "state (tasks st k) \<noteq> taskInitial"
      "park (tasks st k) \<noteq> parkBlocked"
  shows "task_inv (upd_inst (enterRun k) st)"
proof -
  let ?u = "upd_inst (enterRun k) st"
  have "exclusive_inv ?u" using syn blk by (auto simp: exclusive_inv_def Let_def enterRun_def running_def)
  moreover have "parked_inv ?u" using inv(1) k by (auto simp: parked_inv_def running_def enterRun_def)
  moreover have "counters_inv ?u" using inv(2) by (simp add: counters_inv_def enterRun_def parked_at_def)
  moreover have "results_inv ?u" using inv(3) by (simp add: results_inv_def)
  ultimately show ?thesis by (simp add: task_inv_def)
qed

text \<open>A local change of the running task.\<close>

lemma local_inv:
  assumes inv: "task_inv st" and k: "running k st"
    and i: "exclusiveHeld (instn st') = exclusiveHeld (instn st)" "exclusiveOwner (instn st') = exclusiveOwner (instn st)"
      "syncBase (instn st') = syncBase (instn st)" "activeTask (instn st') = activeTask (instn st)"
      "mayEnter (instn st') = mayEnter (instn st)" "numWaitingToEnter (instn st') = numWaitingToEnter (instn st)"
    and t: "\<And>j. j \<noteq> k \<Longrightarrow> tasks st' j = tasks st j" and p: "parked st' = parked st" and a: "asy st' = asy st"
    and q: "\<not> finished (tasks st' k)" "\<not> cancelWake (tasks st' k)" "state (tasks st' k) \<noteq> taskInitial" "park (tasks st' k) \<noteq> parkBlocked"
    and r: "results_inv st'"
  shows "task_inv st'"
proof -
  note f = running_facts [OF inv k]
  have same: "tasks st' j = tasks st j" if "j \<in> set (parked st)" for j using t that f(3) by metis
  have run: "running j st' \<longleftrightarrow> running j st" for j by (simp add: running_def i)
  have rk: "running j st \<longleftrightarrow> j = k" for j using k by (auto simp: running_def)
  have "exclusive_inv st'" using inv same f(1,10) rk by (auto simp: task_inv_def exclusive_inv_def Let_def i p run)
  moreover have "parked_inv st'" using inv same f(3) q rk by (auto simp: task_inv_def parked_inv_def p run a)
  moreover have "counters_inv st'" using inv same parked_at_cong [OF p] by (auto simp: task_inv_def counters_inv_def i a)
  ultimately show ?thesis using r by (simp add: task_inv_def)
qed

section \<open>Results\<close>

lemma results_upd:
  assumes inv: "results_inv st" and t: "\<And>j. j \<noteq> k \<Longrightarrow> tasks st' j = tasks st j" and d: "delivered st' = delivered st"
    and k: "forwards (tasks st' k) = forwards (tasks st k)" "state (tasks st' k) = taskResolved \<longleftrightarrow> state (tasks st k) = taskResolved"
      "finished (tasks st' k) \<and> failure (tasks st' k) = None \<longrightarrow> state (tasks st' k) = taskResolved"
      "failure (tasks st' k) \<noteq> None \<longrightarrow> finished (tasks st' k)"
  shows "results_inv st'"
  unfolding results_inv_def
proof (intro allI)
  fix j
  show "sent j (delivered st') = (if state (tasks st' j) = taskResolved \<and> forwards (tasks st' j) then 1 else 0) \<and>
     (finished (tasks st' j) \<and> failure (tasks st' j) = None \<longrightarrow> state (tasks st' j) = taskResolved) \<and>
     (failure (tasks st' j) \<noteq> None \<longrightarrow> finished (tasks st' j))"
    using inv t [of j] d k by (cases "j = k") (auto simp: results_inv_def)
qed

lemma resolve_results:
  assumes inv: "results_inv st" and k: "state (tasks st k) \<noteq> taskResolved"
    and t: "\<And>j. j \<noteq> k \<Longrightarrow> tasks st' j = tasks st j"
    and d: "delivered st' = (if forwards (tasks st k) then delivered st @ [(k, vals, c)] else delivered st)"
    and k': "forwards (tasks st' k) = forwards (tasks st k)" "state (tasks st' k) = taskResolved"
      "failure (tasks st' k) \<noteq> None \<longrightarrow> finished (tasks st' k)"
  shows "results_inv st'"
  unfolding results_inv_def
proof (intro allI)
  fix j
  show "sent j (delivered st') = (if state (tasks st' j) = taskResolved \<and> forwards (tasks st' j) then 1 else 0) \<and>
     (finished (tasks st' j) \<and> failure (tasks st' j) = None \<longrightarrow> state (tasks st' j) = taskResolved) \<and>
     (failure (tasks st' j) \<noteq> None \<longrightarrow> finished (tasks st' j))"
    using inv k t [of j] d k' by (cases "j = k") (auto simp: results_inv_def)
qed

lemma deliver_simps [simp]:
  "tasks (deliver k vals c st) = tasks st" "asy (deliver k vals c st) = asy st" "instn (deliver k vals c st) = instn st"
  "parked (deliver k vals c st) = parked st" "delivered (deliver k vals c st) = delivered st @ [(k, vals, c)]"
  by (simp_all add: deliver_def)

lemma returnValues_resolves: "returnValues k vals st = Inr st' \<Longrightarrow> resolves k False st st'"
  by (auto simp: returnValues_def resolves_def Let_def split: if_splits)

lemma cancelResolve_resolves: "cancelResolve k st = Inr st' \<Longrightarrow> resolves k True st st'"
  by (auto simp: cancelResolve_def resolves_def Let_def split: if_splits)

lemma resolves_results: "results_inv st \<Longrightarrow> resolves k c st st' \<Longrightarrow> results_inv st'"
  using resolve_results [of st k st'] by (auto simp: resolves_def results_inv_def)

lemma resolves_running_inv:
  assumes "task_inv st" "running k st" "resolves k c st st'"
  shows "task_inv st'"
proof -
  note f = running_facts(5-8) [OF assms(1,2)]
  have r: "results_inv st" using assms(1) by (simp add: task_inv_def)
  show ?thesis
    by (rule local_inv [OF assms(1,2)]) (use f assms(3) resolves_results [OF r assms(3)] in \<open>simp_all add: resolves_def\<close>)
qed

section \<open>Steps of the running task\<close>

lemma requireActiveTask_running: "running k st \<Longrightarrow> requireActiveTask st = Inr j \<Longrightarrow> j = k"
  by (auto simp: requireActiveTask_def running_def split: if_splits option.splits)

lemma fail_left_inv:
  assumes inv: "task_inv st" and k: "running k st"
    and g: "\<And>i. exclusiveHeld (g i) = False \<and> exclusiveOwner (g i) = None \<and> syncBase (g i) = syncBase i \<and>
       activeTask (g i) = syncBase i \<and> mayEnter (g i) \<and> numWaitingToEnter (g i) = numWaitingToEnter i"
  shows "task_inv (fail k e (upd_inst g st))"
proof (rule left_inv [OF inv k])
  note f = running_facts(4-8,11) [OF inv k]
  have r: "results_inv st" using inv by (simp add: task_inv_def)
  show "results_inv (fail k e (upd_inst g st))"
    by (rule results_upd [OF r, of k]) (simp_all add: fail_def)
qed (use g [of "instn st"] running_facts(4) [OF inv k] in \<open>simp_all add: fail_def\<close>)

lemma leave_and_fail_inv: "task_inv st \<Longrightarrow> running k st \<Longrightarrow> task_inv (leave_and_fail k e st)"
  unfolding leave_and_fail_def by (rule fail_left_inv) (auto simp: leaveRun_def)

lemma guest_trap_inv: "task_inv st \<Longrightarrow> running k st \<Longrightarrow> task_inv (guest_trap k e st)"
  unfolding guest_trap_def by (rule fail_left_inv) (auto simp: leaveRun_def)

lemma finish_inv:
  assumes inv: "task_inv st" and k: "running k st" and s: "state (tasks st k) = taskResolved"
  shows "task_inv (upd_task k (\<lambda>t. t\<lparr>finished := True\<rparr>) (upd_inst leaveRun st))"
proof (rule left_inv [OF inv k])
  have r: "results_inv st" using inv by (simp add: task_inv_def)
  show "results_inv (upd_task k (\<lambda>t. t\<lparr>finished := True\<rparr>) (upd_inst leaveRun st))"
    by (rule results_upd [OF r, of k]) (use running_facts(11) [OF inv k] s in simp_all)
qed (use running_facts(4) [OF inv k] in \<open>simp_all add: leaveRun_def\<close>)

lemma finishExit_inv: "task_inv st \<Longrightarrow> running k st \<Longrightarrow> task_inv (finishExit k st)"
  using leave_and_fail_inv [of st k Exit_before_return] finish_inv [of st k]
  by (simp add: finishExit_def leave_and_fail_def Let_def)

lemma advance_inv:
  assumes inv: "task_inv st" and k: "running k st" and a: "\<And>i s. entries (resources (asy st)) i = Some (WaitableSet s) \<Longrightarrow> s < obrk (asy st)"
  shows "task_inv (advance k packed (st :: ('a, 'b, 'c, 'd) tstate))"
proof -
  note f = running_facts(4-8,11) [OF inv k]
  have r: "results_inv st" using inv by (simp add: task_inv_def)
  have parks: "task_inv st'" if
    st': "instn st' = leaveRun (instn st)" "tasks st' = (tasks st)(k := g (tasks st k))" "parked st' = parked st @ [k]"
      "delivered st' = delivered st" "obrk (asy st') = obrk (asy st)"
      "\<And>s. numWaiting (sets (asy st') s) = numWaiting (sets (asy st) s) + (if park (tasks st' k) = parkWait \<and> gwset (tasks st' k) = Some s then 1 else 0)"
    and q: "park (g (tasks st k)) = parkYield \<or> park (g (tasks st k)) = parkWait \<and> (\<exists>s < obrk (asy st). gwset (g (tasks st k)) = Some s)"
      "finished (g (tasks st k)) = finished (tasks st k)" "cancelWake (g (tasks st k)) = cancelWake (tasks st k)"
      "state (g (tasks st k)) = state (tasks st k)" "forwards (g (tasks st k)) = forwards (tasks st k)"
      "failure (g (tasks st k)) = failure (tasks st k)" for st' :: "('a, 'b, 'c, 'd) tstate" and g
  proof (rule left_and_parked_inv [OF inv k])
    show "results_inv st'" by (rule results_upd [OF r, of k]) (use st' q f in simp_all)
  qed (use st' q f in \<open>simp_all add: leaveRun_def\<close>)
  have yield: "task_inv (sched_park k (upd_inst leaveRun (upd_task k (\<lambda>t. t\<lparr>park := parkYield, cancellable := True\<rparr>) st)))"
    by (rule parks [of _ "\<lambda>t. t\<lparr>park := parkYield, cancellable := True\<rparr>"]) simp_all
  have wait: "task_inv (sched_park k (upd_inst leaveRun (upd_asy (upd_s s (\<lambda>x. x\<lparr>numWaiting := numWaiting x + 1\<rparr>))
      (upd_task k (\<lambda>t. t\<lparr>park := parkWait, gwset := Some s, cancellable := True\<rparr>) st))))" if "s < obrk (asy st)" for s
    by (rule parks [of _ "\<lambda>t. t\<lparr>park := parkWait, gwset := Some s, cancellable := True\<rparr>"]) (use that in simp_all)
  show ?thesis
    using yield wait a finishExit_inv [OF inv k] leave_and_fail_inv [OF inv k]
    by (auto simp: advance_def getEntry_def Let_def split: sum.splits option.splits tableEntry.splits)
qed

lemma stackful_return_inv:
  assumes inv: "task_inv st" and k: "running k st"
  shows "task_inv (stackful_return k lifted post st)"
proof -
  have ret: "task_inv u \<and> running k u \<and> state (tasks u k) = taskResolved" if "returnValues k vals st = Inr u" for vals u
    using resolves_running_inv [OF inv k returnValues_resolves [OF that]] returnValues_resolves [OF that] k
    by (auto simp: resolves_def running_def)
  show ?thesis
    using inv k ret by (auto simp: stackful_return_def finishExit_inv leave_and_fail_inv guest_trap_inv finish_inv
        split: sum.splits option.splits bool.splits)
qed

lemma block_park_inv:
  assumes inv: "task_inv st" and k: "running k st" and b: "block_park k c st = (b, st')"
  shows "task_inv st'"
proof (cases "c \<and> state (tasks st k) = taskPendingCancel")
  case True
  then have st': "st' = upd_task k (\<lambda>t. t\<lparr>state := taskCancelDelivered\<rparr>) st"
    using b by (simp add: block_park_def deliverPendingCancel_def)
  have r: "results_inv st" using inv by (simp add: task_inv_def)
  show ?thesis
  proof (rule local_inv [OF inv k])
    show "results_inv st'" by (rule results_upd [OF r, of k]) (use running_facts(5,11) [OF inv k] True in \<open>simp_all add: st'\<close>)
  qed (use running_facts(5-8) [OF inv k] in \<open>simp_all add: st'\<close>)
next
  case False
  then have st': "st' = sched_park k (upd_inst suspendRun (upd_task k (\<lambda>t. t\<lparr>park := parkBlocked, cancellable := c\<rparr>) st))"
    using b by (auto simp: block_park_def deliverPendingCancel_def split: if_splits)
  note f = running_facts(1-9,11) [OF inv k]
  have r: "results_inv st" and p: "parked_inv st" and c: "counters_inv st" using inv by (simp_all add: task_inv_def)
  have run: "\<not> running j st'" for j by (simp add: st' running_def suspendRun_def)
  have other: "j \<in> set (parked st) \<Longrightarrow> park (tasks st j) \<noteq> parkBlocked" for j by (rule running_facts(10) [OF inv k])
  have "exclusive_inv st'" using f other unfolding exclusive_inv_def Let_def run by (auto simp: st' suspendRun_def)
  moreover have "parked_inv st'" using p f unfolding parked_inv_def by (auto simp: st' running_def suspendRun_def)
  moreover have "counters_inv st'"
    using c parked_at_park [of st' st k] f(3) by (simp add: st' counters_inv_def suspendRun_def)
  moreover have "results_inv st'" by (rule results_upd [OF r, of k]) (use f in \<open>simp_all add: st'\<close>)
  ultimately show ?thesis by (simp add: task_inv_def)
qed

section \<open>Starting, resuming, cancelling\<close>

text \<open>The exclusive is free and nothing runs.\<close>

lemma idle_exclusive:
  assumes "\<not> exclusiveHeld (instn st)" "exclusiveOwner (instn st) = None" "syncBase (instn st) = None"
    "activeTask (instn st) = None" "mayEnter (instn st)" "\<forall>j \<in> set (parked st). park (tasks st j) \<noteq> parkBlocked"
  shows "exclusive_inv st"
  using assms by (auto simp: exclusive_inv_def Let_def)

lemma parked_inv_off:
  assumes p: "parked_inv st" and k: "k \<notin> set (parked st)" and t: "\<And>j. j \<noteq> k \<Longrightarrow> tasks st' j = tasks st j"
    and s: "parked st' = parked st" "obrk (asy st') = obrk (asy st)" "mayEnter (instn st')"
  shows "parked_inv st'"
proof -
  have same: "tasks st' j = tasks st j" if "j \<in> set (parked st)" for j using t that k by metis
  show ?thesis using p same by (simp add: parked_inv_def s running_def)
qed

lemma counters_inv_off:
  assumes c: "counters_inv st" and k: "k \<notin> set (parked st)" and t: "\<And>j. j \<noteq> k \<Longrightarrow> tasks st' j = tasks st j"
    and s: "parked st' = parked st" "sets (asy st') = sets (asy st)" "numWaitingToEnter (instn st') = numWaitingToEnter (instn st)"
  shows "counters_inv st'"
proof -
  have "parked_at st' P = parked_at st P" for P by (rule parked_at_cong [OF s(1)]) (metis t k)
  then show ?thesis using c by (simp add: counters_inv_def s)
qed

lemma handed_over_failed:
  assumes h: "handed_over k st" and r: "results_inv st'"
    and i: "\<not> exclusiveHeld (instn st')" "exclusiveOwner (instn st') = None" "syncBase (instn st') = None"
    "activeTask (instn st') = None" "mayEnter (instn st')" "numWaitingToEnter (instn st') = numWaitingToEnter (instn st)"
    and t: "\<And>j. j \<noteq> k \<Longrightarrow> tasks st' j = tasks st j" and s: "parked st' = parked st" "asy st' = asy st"
  shows "task_inv st'"
proof -
  have k: "k \<notin> set (parked st)" and h': "parked_inv st" "counters_inv st" using h by (auto simp: handed_over_def)
  have "exclusive_inv st'"
    by (rule idle_exclusive) (use h i s t k in \<open>auto simp: handed_over_def\<close>, metis)
  moreover have "parked_inv st'" by (rule parked_inv_off [OF h'(1) k t]) (use s i in simp_all)
  moreover have "counters_inv st'" by (rule counters_inv_off [OF h'(2) k t]) (use s i in simp_all)
  ultimately show ?thesis using r by (simp add: task_inv_def)
qed

lemma firstRun_inv:
  assumes h: "handed_over k st" and s: "state (tasks st k) \<noteq> taskResolved" "park (tasks st k) \<noteq> parkBlocked"
  shows "task_inv (firstRun k oe le st)"
proof -
  have r: "results_inv st" and k: "k \<notin> set (parked st)" "\<not> finished (tasks st k)" "\<not> cancelWake (tasks st k)" "syncBase (instn st) = None"
    and h': "parked_inv st" "counters_inv st" "mayEnter (instn st)"
    using h by (simp_all add: handed_over_def)
  have f: "failure (tasks st k) = None" using r k by (auto simp: results_inv_def)
  have fails: "task_inv (leave_and_fail k e u)"
    if u: "instn u = enterRun k (instn st)" "\<And>j. j \<noteq> k \<Longrightarrow> tasks u j = tasks st j" "parked u = parked st" "asy u = asy st"
      "delivered u = delivered st" "forwards (tasks u k) = forwards (tasks st k)" "state (tasks u k) \<noteq> taskResolved" for u :: "('a, 'b, 'c, 'd) tstate" and e
  proof (rule handed_over_failed [OF h])
    show "results_inv (leave_and_fail k e u)"
      by (rule results_upd [OF r, of k]) (use u s in \<open>simp_all add: leave_and_fail_def fail_def\<close>)
  qed (use u k in \<open>simp_all add: leave_and_fail_def fail_def leaveRun_def enterRun_def\<close>)
  have runs: "task_inv (upd_inst (enterRun k) (upd_task k (\<lambda>t. t\<lparr>state := taskStarted\<rparr>) st))"
  proof (rule entered_inv)
    let ?u = "upd_task k (\<lambda>t. t\<lparr>state := taskStarted\<rparr>) st"
    show "parked_inv ?u" by (rule parked_inv_off [OF h'(1) k(1)]) (use h' in simp_all)
    show "counters_inv ?u" by (rule counters_inv_off [OF h'(2) k(1)]) simp_all
    show "results_inv ?u" by (rule results_upd [OF r, of k]) (use s k f in simp_all)
  qed (use h k s in \<open>auto simp: handed_over_def\<close>)
  have sw: "upd_task k g (upd_inst e' st) = upd_inst e' (upd_task k g st)" for g e'
    by (simp add: upd_task_def upd_inst_def)
  show ?thesis
    using fails [of "upd_inst (enterRun k) st"] fails [of "upd_task k (\<lambda>t. t\<lparr>state := taskStarted\<rparr>) (upd_inst (enterRun k) st)"] runs s
    by (simp add: firstRun_def Let_def sw split: option.splits)
qed

lemma runLoop_inv:
  assumes h: "handed_over k st" and s: "state (tasks st k) \<noteq> taskInitial" "park (tasks st k) \<noteq> parkBlocked"
  shows "task_inv (runLoop k st)"
  unfolding runLoop_def by (rule entered_inv) (use h s in \<open>auto simp: handed_over_def\<close>)

lemma block_resume_inv:
  assumes h: "handed_over k st" and s: "state (tasks st k) \<noteq> taskInitial"
  shows "task_inv (block_resume k st)"
  unfolding block_resume_def
proof (rule entered_inv)
  have r: "results_inv st" and k: "k \<notin> set (parked st)" "\<not> finished (tasks st k)" and h': "parked_inv st" "counters_inv st" "mayEnter (instn st)"
    using h by (simp_all add: handed_over_def)
  have f: "failure (tasks st k) = None" using r k by (auto simp: results_inv_def)
  let ?u = "upd_task k (\<lambda>t. t\<lparr>park := parkNone, cancellable := False\<rparr>) st"
  show "parked_inv ?u" by (rule parked_inv_off [OF h'(1) k(1)]) (use h' in simp_all)
  show "counters_inv ?u" by (rule counters_inv_off [OF h'(2) k(1)]) simp_all
  show "results_inv ?u" by (rule results_upd [OF r, of k]) (use k f in simp_all)
qed (use h s in \<open>auto simp: handed_over_def\<close>)

lemma set_getPendingEvent_frame:
  assumes "set_getPendingEvent run s a = Inr (ev, a')"
  shows "obrk a' = obrk a \<and> sets a' = sets a"
  using assms by (auto simp: set_getPendingEvent_def getPendingEvent_def Let_def split: option.splits prod.splits if_splits)

lemma taken_off_facts:
  assumes inv: "task_inv st" and k: "k \<in> set (parked st)" and me: "mayEnter (instn st)"
    and own: "exclusiveOwner (instn st) = None \<or> exclusiveOwner (instn st) = Some k" and off: "taken_off k st st1"
  shows "parked_inv st1" "counters_inv st1" "\<forall>j \<in> set (parked st1). park (tasks st1 j) \<noteq> parkBlocked" "k \<notin> set (parked st1)"
    "syncBase (instn st1) = None" "mayEnter (instn st1)" "activeTask (instn st1) = None"
proof -
  have e: "exclusive_inv st" and p: "parked_inv st" and c: "counters_inv st" using inv by (simp_all add: task_inv_def)
  have d: "distinct (parked st)" using p by (simp add: parked_inv_def)
  have o: "parked st1 = remove1 k (parked st)" "\<And>j. j \<noteq> k \<Longrightarrow> tasks st1 j = tasks st j"
    "instn st1 = (instn st)\<lparr>numWaitingToEnter := numWaitingToEnter (instn st) - (if park (tasks st k) = parkEntry then 1 else 0)\<rparr>"
    "obrk (asy st1) = obrk (asy st)"
    "\<And>s. numWaiting (sets (asy st1) s) = numWaiting (sets (asy st) s) - (if park (tasks st k) = parkWait \<and> gwset (tasks st k) = Some s then 1 else 0)"
    using off by (auto simp: taken_off_def)
  have ps: "set (parked st1) = set (parked st) - {k}" using d by (simp add: o)
  have same: "tasks st1 j = tasks st j" if "j \<in> set (parked st1)" for j using that o(2) ps by auto
  show "k \<notin> set (parked st1)" using ps by simp
  show "syncBase (instn st1) = None" "mayEnter (instn st1)" "activeTask (instn st1) = None"
    using e me by (simp_all add: o exclusive_inv_def Let_def)
  have "mayEnter (instn st1)" using me by (simp add: o)
  then show "parked_inv st1" using p d same ps by (simp add: parked_inv_def running_def o(1,4))
  show "counters_inv st1" using c parked_at_unpark [OF o(1) k d o(2)] by (simp add: counters_inv_def o(3,5))
  show "\<forall>j \<in> set (parked st1). park (tasks st1 j) \<noteq> parkBlocked"
    using e own same ps by (auto simp: exclusive_inv_def Let_def)
qed

lemma taken_off_handed_over:
  assumes "task_inv st" "k \<in> set (parked st)" "mayEnter (instn st)"
    "exclusiveOwner (instn st) = None \<or> exclusiveOwner (instn st) = Some k" "taken_off k st st1"
    "results_inv st1" "\<not> finished (tasks st1 k)" "\<not> cancelWake (tasks st1 k)"
  shows "handed_over k st1"
  using taken_off_facts [OF assms(1-5)] assms(6-8) by (simp add: handed_over_def)

lemma taken_off_over:
  assumes "task_inv st" "k \<in> set (parked st)" "mayEnter (instn st)" "exclusiveOwner (instn st) = None" "taken_off k st st1"
    "results_inv st1"
  shows "task_inv st1"
proof -
  have "\<not> exclusiveHeld (instn st)" using assms(1,4) by (auto simp: task_inv_def exclusive_inv_def Let_def)
  then have "\<not> exclusiveHeld (instn st1)" "exclusiveOwner (instn st1) = None"
    using assms(4,5) by (auto simp: taken_off_def)
  then have "exclusive_inv st1"
    using taken_off_facts [OF assms(1-3) disjI1 [OF assms(4)] assms(5)] by (intro idle_exclusive) simp_all
  then show ?thesis
    using taken_off_facts [OF assms(1-3) disjI1 [OF assms(4)] assms(5)] assms(6) by (simp add: task_inv_def)
qed

text \<open>Resuming parked task \<open>k\<close>, possibly marked as cancelled: it continues in a state that satisfies the invariant.\<close>

lemma resume_inv:
  assumes inv: "task_inv st" and k: "k \<in> set (parked st)" and me: "mayEnter (instn st)"
    and own: "exclusiveOwner (instn st) = None \<or> exclusiveOwner (instn st) = Some k \<and> park (tasks st k) = parkBlocked"
    and mark: "m = id \<or> m = cancel_mark \<and> state (tasks st k) \<noteq> taskResolved"
    and r: "resumeReady run k (upd_task k m st) = Inr (q, st1)"
  shows "task_inv (continue_task k q oe le st1)"
proof -
  have res: "results_inv st" and p: "parked_inv st" using inv by (simp_all add: task_inv_def)
  have kf: "\<not> finished (tasks st k)" "\<not> cancelWake (tasks st k)" "failure (tasks st k) = None" "park (tasks st k) \<noteq> parkNone"
    "park (tasks st k) = parkEntry \<longleftrightarrow> state (tasks st k) = taskInitial"
    using res p k by (auto simp: results_inv_def parked_inv_def)
  have own': "exclusiveOwner (instn st) = None \<or> exclusiveOwner (instn st) = Some k" using own by auto
  have m: "forwards (m t) = forwards t" "park (m t) = park t" "gwset (m t) = gwset t" "finished (m t) = finished t"
    "failure (m t) = failure t" "stackful (m t) = stackful t" for t using mark by (auto simp: cancel_mark_def)
  have mk: "(state (m (tasks st k)) = taskResolved) = (state (tasks st k) = taskResolved)"
    "state (tasks st k) \<noteq> taskInitial \<Longrightarrow> state (m (tasks st k)) \<noteq> taskInitial" using mark by (auto simp: cancel_mark_def)
  show ?thesis
  proof (cases "park (tasks st k)")
    case parkEntry
    have "exclusiveOwner (instn st) = None" using own parkEntry by auto
    note over = taken_off_over [OF inv k me this] and hand = taken_off_handed_over [OF inv k me own']
    define u where "u = sched_unpark k (upd_inst (\<lambda>i. i\<lparr>numWaitingToEnter := numWaitingToEnter i - 1\<rparr>) (upd_task k m st))"
    define v where "v = (if stackful (tasks u k) then upd_task k (\<lambda>t. t\<lparr>park := parkNone\<rparr>) u else u)"
    have v: "parked v = remove1 k (parked st)" "\<And>j. j \<noteq> k \<Longrightarrow> tasks v j = tasks st j" "asy v = asy st" "delivered v = delivered st"
      "instn v = (instn st)\<lparr>numWaitingToEnter := numWaitingToEnter (instn st) - 1\<rparr>"
      "state (tasks v k) = state (m (tasks st k))" "forwards (tasks v k) = forwards (tasks st k)" "finished (tasks v k) = finished (tasks st k)"
      "failure (tasks v k) = failure (tasks st k)" "cancelWake (tasks v k) = cancelWake (m (tasks st k))" "park (tasks v k) \<noteq> parkBlocked"
      using parkEntry by (auto simp: v_def u_def m)
    define w where "w = upd_task k (\<lambda>t. t\<lparr>cancelWake := False\<rparr>) v"
    have pk: "park (tasks (upd_task k m st) k) = parkEntry" using parkEntry by (simp add: m)
    have "resumeReady run k (upd_task k m st) = (if cancelWake (tasks v k) then
        (case cancelResolve k w of Inl e \<Rightarrow> Inr (Failed e, fail k e w) | Inr x \<Rightarrow> Inr (Over, upd_task k (\<lambda>t. t\<lparr>finished := True\<rparr>) x))
        else Inr (First_run, v))"
      unfolding resumeReady_def pk parkKind.case Let_def u_def v_def w_def by (rule refl)
    note rr = this [unfolded r]
    have off: "taken_off k st w" if "parked w = parked v" "\<And>j. j \<noteq> k \<Longrightarrow> tasks w j = tasks v j" "asy w = asy v" "instn w = instn v" for w
      using that parkEntry by (auto simp: taken_off_def v)
    have rv: "results_inv v" by (rule results_upd [OF res, of k]) (use v kf mk in simp_all)
    show ?thesis
    proof (cases "cancelWake (m (tasks st k))")
      case False
      then have "q = First_run" "st1 = v" using rr by (simp_all add: v)
      moreover have "handed_over k v" by (rule hand [OF off]) (use rv v kf False in simp_all)
      moreover have "state (tasks v k) \<noteq> taskResolved" using v(6) mk(1) kf parkEntry by simp
      ultimately show ?thesis using firstRun_inv [of k v] v by (simp add: continue_task_def)
    next
      case True
      have rw: "results_inv w" by (rule results_upd [OF rv, of k]) (use v kf in \<open>simp_all add: w_def\<close>)
      show ?thesis
      proof (cases "cancelResolve k w")
        case (Inl e)
        then have "q = Failed e" "st1 = fail k e w" using rr True by (simp_all add: v)
        moreover have "task_inv (fail k e w)"
          by (rule over [OF off results_upd [OF rw, of k]]) (simp_all add: w_def fail_def)
        ultimately show ?thesis by (simp add: continue_task_def)
      next
        case (Inr x)
        then have q: "q = Over" "st1 = upd_task k (\<lambda>t. t\<lparr>finished := True\<rparr>) x"
          using rr True by (simp_all add: v)
        note x = cancelResolve_resolves [OF Inr]
        have "task_inv (upd_task k (\<lambda>t. t\<lparr>finished := True\<rparr>) x)"
          by (rule over [OF off results_upd [OF resolves_results [OF rw x], of k]])
            (use x in \<open>simp_all add: w_def resolves_def\<close>)
        then show ?thesis by (simp add: continue_task_def q)
      qed
    qed
  next
    case parkWait
    then obtain s where s: "gwset (tasks st k) = Some s" using p k by (auto simp: parked_inv_def)
    define u where "u = upd_asy (upd_s s (\<lambda>x. x\<lparr>numWaiting := numWaiting x - 1\<rparr>)) (upd_task k m st)"
    obtain ev y where q: "q = Round ev" and st1: "st1 = sched_unpark k (upd_task k (\<lambda>t. t\<lparr>cancelWake := False, gwset := None\<rparr>) y)"
      and y: "y = u \<or> y = upd_task k (\<lambda>t. t\<lparr>state := taskCancelDelivered\<rparr>) u \<and> state (m (tasks st k)) = taskPendingCancel \<or>
        (\<exists>a. y = u\<lparr>asy := a\<rparr> \<and> obrk a = obrk (asy u) \<and> sets a = sets (asy u))"
    proof -
      have "\<exists>ev y. q = Round ev \<and> st1 = sched_unpark k (upd_task k (\<lambda>t. t\<lparr>cancelWake := False, gwset := None\<rparr>) y) \<and>
        (y = u \<or> y = upd_task k (\<lambda>t. t\<lparr>state := taskCancelDelivered\<rparr>) u \<and> state (m (tasks st k)) = taskPendingCancel \<or>
        (\<exists>ev a. y = u\<lparr>asy := a\<rparr> \<and> set_getPendingEvent run s (asy u) = Inr (ev, a)))"
        using r parkWait s by (auto simp: resumeReady_def Let_def m u_def deliverPendingCancel_def split: if_splits sum.splits prod.splits)
      then show thesis using that set_getPendingEvent_frame by metis
    qed
    have y': "parked y = parked st" "\<And>j. j \<noteq> k \<Longrightarrow> tasks y j = tasks st j" "instn y = instn st" "delivered y = delivered st"
      "obrk (asy y) = obrk (asy st)" "sets (asy y) = (sets (asy st))(s := (sets (asy st) s)\<lparr>numWaiting := numWaiting (sets (asy st) s) - 1\<rparr>)"
      "forwards (tasks y k) = forwards (tasks st k)" "finished (tasks y k) = finished (tasks st k)" "failure (tasks y k) = failure (tasks st k)"
      "(state (tasks y k) = taskResolved) = (state (tasks st k) = taskResolved)" "state (tasks y k) \<noteq> taskInitial" "park (tasks y k) = parkWait"
      using y mk kf parkWait by (auto simp: u_def m)
    have "handed_over k st1"
    proof (rule taken_off_handed_over [OF inv k me own'])
      show "taken_off k st st1" using y' parkWait s by (auto simp: taken_off_def st1)
      show "results_inv st1" by (rule results_upd [OF res, of k]) (use y' kf in \<open>simp_all add: st1\<close>)
    qed (use y' kf in \<open>simp_all add: st1\<close>)
    then show ?thesis using runLoop_inv [of k st1] y' by (simp add: continue_task_def q st1)
  next
    case parkYield
    obtain ev y where q: "q = Round ev" and st1: "st1 = sched_unpark k (upd_task k (\<lambda>t. t\<lparr>cancelWake := False\<rparr>) y)"
      and y: "y = upd_task k m st \<or> y = upd_task k (\<lambda>t. t\<lparr>state := taskCancelDelivered\<rparr>) (upd_task k m st) \<and> state (m (tasks st k)) = taskPendingCancel"
      using r parkYield by (auto simp: resumeReady_def Let_def m deliverPendingCancel_def split: if_splits)
    have y': "parked y = parked st" "\<And>j. j \<noteq> k \<Longrightarrow> tasks y j = tasks st j" "instn y = instn st" "delivered y = delivered st" "asy y = asy st"
      "forwards (tasks y k) = forwards (tasks st k)" "finished (tasks y k) = finished (tasks st k)" "failure (tasks y k) = failure (tasks st k)"
      "(state (tasks y k) = taskResolved) = (state (tasks st k) = taskResolved)" "state (tasks y k) \<noteq> taskInitial" "park (tasks y k) = parkYield"
      using y mk kf parkYield by (auto simp: m)
    have "handed_over k st1"
    proof (rule taken_off_handed_over [OF inv k me own'])
      show "taken_off k st st1" using y' parkYield by (auto simp: taken_off_def st1)
      show "results_inv st1" by (rule results_upd [OF res, of k]) (use y' kf in \<open>simp_all add: st1\<close>)
    qed (use y' kf in \<open>simp_all add: st1\<close>)
    then show ?thesis using runLoop_inv [of k st1] y' by (simp add: continue_task_def q st1)
  next
    case parkBlocked
    have q: "q = Unblock (cancelWake (m (tasks st k)))" and st1: "st1 = upd_task k (\<lambda>t. t\<lparr>cancelWake := False\<rparr>) (sched_unpark k (upd_task k m st))"
      using r parkBlocked by (simp_all add: resumeReady_def Let_def m)
    have "handed_over k st1"
    proof (rule taken_off_handed_over [OF inv k me own'])
      show "taken_off k st st1" using parkBlocked by (auto simp: taken_off_def st1)
      show "results_inv st1" by (rule results_upd [OF res, of k]) (use mk kf in \<open>simp_all add: st1 m\<close>)
    qed (use kf in \<open>simp_all add: st1 m\<close>)
    then show ?thesis using block_resume_inv [of k st1] mk kf parkBlocked by (simp add: continue_task_def q st1)
  qed (use kf in simp)
qed

lemma parked_not_running:
  assumes "task_inv st" "k \<in> set (parked st)"
  shows "\<not> running k st"
  using assms by (auto simp: task_inv_def parked_inv_def)

lemma owner_free:
  assumes "task_inv st" "k \<in> set (parked st)" "park (tasks st k) \<noteq> parkBlocked" "\<not> (exclusiveHeld (instn st) \<and> exclusiveOwner (instn st) \<noteq> Some k)"
  shows "exclusiveOwner (instn st) = None" "mayEnter (instn st)"
  using assms parked_not_running [OF assms(1,2)] by (auto simp: task_inv_def exclusive_inv_def Let_def)

lemma owner_blocked:
  assumes "task_inv st" "k \<in> set (parked st)" "park (tasks st k) = parkBlocked"
  shows "exclusiveOwner (instn st) = Some k" "mayEnter (instn st)"
  using assms parked_not_running [OF assms(1,2)] by (auto simp: task_inv_def exclusive_inv_def Let_def running_def)

lemma upd_task_id [simp]: "upd_task k id st = st"
  by (simp add: upd_task_def)

lemma ready_resume_inv:
  assumes inv: "task_inv st" and k: "k \<in> set (parked st)" and rd: "ready unblocked k st" and r: "resumeReady run k st = Inr (q, st1)"
  shows "task_inv (continue_task k q oe le st1)"
proof -
  have "mayEnter (instn st) \<and> (exclusiveOwner (instn st) = None \<or> exclusiveOwner (instn st) = Some k \<and> park (tasks st k) = parkBlocked)"
    using owner_free [OF inv k] owner_blocked [OF inv k] rd
    by (cases "park (tasks st k)") (auto simp: ready_def Let_def hasBackpressure_def)
  then show ?thesis using resume_inv [OF inv k, of id run q st1] r by simp
qed

text \<open>A cancellation that only marks the task, to be delivered later.\<close>

lemma pending_inv:
  assumes inv: "task_inv st" and k: "k \<in> set (parked st) \<or> running k st" and s: "state (tasks st k) = taskStarted"
  shows "task_inv (upd_task k (\<lambda>t. t\<lparr>state := taskPendingCancel\<rparr>) st)"
proof -
  let ?u = "upd_task k (\<lambda>t. t\<lparr>state := taskPendingCancel\<rparr>) st"
  have e: "exclusive_inv st" and p: "parked_inv st" and c: "counters_inv st" and r: "results_inv st" using inv by (simp_all add: task_inv_def)
  have run: "running j ?u = running j st" for j by (simp add: running_def)
  have "exclusive_inv ?u" using e unfolding exclusive_inv_def Let_def run by auto
  moreover have "parked_inv ?u" using p s unfolding parked_inv_def run by auto
  moreover have "counters_inv ?u"
    using c parked_at_cong [of ?u st] by (simp add: counters_inv_def)
  moreover have "results_inv ?u"
    by (rule results_upd [OF r, of k]) (use r s in \<open>auto simp: results_inv_def\<close>)
  ultimately show ?thesis by (simp add: task_inv_def)
qed

text \<open>A task that is cancelled while it waits to enter leaves the queue whoever runs.\<close>

lemma entry_off_inv:
  assumes inv: "task_inv st" and k: "k \<in> set (parked st)" "park (tasks st k) = parkEntry" and off: "taken_off k st st1" and r: "results_inv st1"
  shows "task_inv st1"
proof -
  have e: "exclusive_inv st" and p: "parked_inv st" and c: "counters_inv st" using inv by (simp_all add: task_inv_def)
  have d: "distinct (parked st)" using p by (simp add: parked_inv_def)
  have o: "parked st1 = remove1 k (parked st)" "\<And>j. j \<noteq> k \<Longrightarrow> tasks st1 j = tasks st j"
    "instn st1 = (instn st)\<lparr>numWaitingToEnter := numWaitingToEnter (instn st) - 1\<rparr>"
    "obrk (asy st1) = obrk (asy st)" "\<And>s. numWaiting (sets (asy st1) s) = numWaiting (sets (asy st) s)"
    using off k by (auto simp: taken_off_def)
  have ps: "set (parked st1) = set (parked st) - {k}" using d by (simp add: o)
  have same: "tasks st1 j = tasks st j" if "j \<in> set (parked st1)" for j using that o(2) ps by auto
  have run: "running j st1 = running j st" for j by (simp add: running_def o)
  have nk: "\<not> running k st" by (rule parked_not_running [OF inv k(1)])
  have owner: "running j st \<or> j \<in> set (parked st1) \<and> park (tasks st1 j) = parkBlocked" if "exclusiveOwner (instn st) = Some j" for j
  proof -
    have "running j st \<or> j \<in> set (parked st) \<and> park (tasks st j) = parkBlocked"
      using e that by (simp add: exclusive_inv_def Let_def)
    moreover have "j \<noteq> k" using calculation nk k(2) by auto
    ultimately show ?thesis using ps o(2) by auto
  qed
  have blk: "exclusiveOwner (instn st) = Some j" if "j \<in> set (parked st1)" "park (tasks st1 j) = parkBlocked" for j
    using e that same ps by (simp add: exclusive_inv_def Let_def)
  have "exclusive_inv st1"
    using e owner blk unfolding exclusive_inv_def Let_def run by (simp add: o(3))
  moreover have "parked_inv st1"
    using p nk d same ps o(2) unfolding parked_inv_def run by (auto simp: o(1,4)) (metis)+
  moreover have "counters_inv st1"
    using c parked_at_unpark [OF o(1) k(1) d o(2)] k(2) by (simp add: counters_inv_def o(3,5))
  ultimately show ?thesis using r by (simp add: task_inv_def)
qed

lemma entry_cancel_inv:
  assumes inv: "task_inv st" and k: "k \<in> set (parked st)" "state (tasks st k) = taskInitial"
    and r: "resumeReady run k (upd_task k cancel_mark st) = Inr (q, st1)"
  shows "task_inv (continue_task k q oe le st1)"
proof -
  have pe: "park (tasks st k) = parkEntry" and nf: "\<not> finished (tasks st k)" "failure (tasks st k) = None" and res: "results_inv st"
    using inv k by (auto simp: task_inv_def parked_inv_def results_inv_def)
  note over = entry_off_inv [OF inv k(1) pe]
  define u where "u = sched_unpark k (upd_inst (\<lambda>i. i\<lparr>numWaitingToEnter := numWaitingToEnter i - 1\<rparr>) (upd_task k cancel_mark st))"
  define v where "v = (if stackful (tasks u k) then upd_task k (\<lambda>t. t\<lparr>park := parkNone\<rparr>) u else u)"
  define w where "w = upd_task k (\<lambda>t. t\<lparr>cancelWake := False\<rparr>) v"
  have v: "parked v = remove1 k (parked st)" "\<And>j. j \<noteq> k \<Longrightarrow> tasks v j = tasks st j" "asy v = asy st" "delivered v = delivered st"
    "instn v = (instn st)\<lparr>numWaitingToEnter := numWaitingToEnter (instn st) - 1\<rparr>"
    "state (tasks v k) = taskCancelDelivered" "forwards (tasks v k) = forwards (tasks st k)" "finished (tasks v k) = finished (tasks st k)"
    "failure (tasks v k) = failure (tasks st k)" "cancelWake (tasks v k)"
    by (auto simp: v_def u_def cancel_mark_def)
  have off: "taken_off k st w'" if "parked w' = parked v" "\<And>j. j \<noteq> k \<Longrightarrow> tasks w' j = tasks v j" "asy w' = asy v" "instn w' = instn v" for w'
    using that pe by (auto simp: taken_off_def v)
  have pk: "park (tasks (upd_task k cancel_mark st) k) = parkEntry" using pe by (simp add: cancel_mark_def)
  have "resumeReady run k (upd_task k cancel_mark st) = (if cancelWake (tasks v k) then
      (case cancelResolve k w of Inl e \<Rightarrow> Inr (Failed e, fail k e w) | Inr x \<Rightarrow> Inr (Over, upd_task k (\<lambda>t. t\<lparr>finished := True\<rparr>) x))
      else Inr (First_run, v))"
    unfolding resumeReady_def pk parkKind.case Let_def u_def v_def w_def by (rule refl)
  note rr = this [unfolded r]
  have rw: "results_inv w" by (rule results_upd [OF res, of k]) (use v nf k(2) in \<open>simp_all add: w_def\<close>)
  show ?thesis
  proof (cases "cancelResolve k w")
    case (Inl e)
    then have "q = Failed e" "st1 = fail k e w" using rr by (simp_all add: v)
    moreover have "task_inv (fail k e w)"
      by (rule over [OF off results_upd [OF rw, of k]]) (simp_all add: w_def fail_def)
    ultimately show ?thesis by (simp add: continue_task_def)
  next
    case (Inr x)
    then have q: "q = Over" "st1 = upd_task k (\<lambda>t. t\<lparr>finished := True\<rparr>) x" using rr by (simp_all add: v)
    note x = cancelResolve_resolves [OF Inr]
    have "task_inv (upd_task k (\<lambda>t. t\<lparr>finished := True\<rparr>) x)"
      by (rule over [OF off results_upd [OF resolves_results [OF rw x], of k]]) (use x in \<open>simp_all add: w_def resolves_def\<close>)
    then show ?thesis by (simp add: continue_task_def q)
  qed
qed

lemma cancel_inv:
  assumes inv: "task_inv st" and k: "k \<in> set (parked st) \<or> running k st" and c: "requestCancellation run k st = Inr (q, st1)"
  shows "task_inv (continue_task k q oe le st1)"
proof -
  have now: "upd_task k (\<lambda>t. t\<lparr>state := taskCancelDelivered, cancelWake := True\<rparr>) st = upd_task k cancel_mark st"
    by (simp add: cancel_mark_def [abs_def] upd_task_def)
  have rs: "state (tasks st k) = taskInitial \<or> state (tasks st k) = taskStarted"
    using c by (auto simp: requestCancellation_def Let_def split: taskState.splits)
  show ?thesis
  proof (cases "state (tasks st k) = taskInitial")
    case True
    then have "k \<in> set (parked st)" using k inv by (auto simp: task_inv_def parked_inv_def)
    then show ?thesis using entry_cancel_inv [OF inv _ True] c True by (simp add: requestCancellation_def Let_def now)
  next
    case False
    then have s: "state (tasks st k) = taskStarted" using rs by simp
    note later = pending_inv [OF inv k s]
    have resume: "task_inv (continue_task k q oe le st1)"
      if r: "resumeReady run k (upd_task k cancel_mark st) = Inr (q, st1)" and me: "mayEnter (instn st)"
        and h: "park (tasks st k) = parkBlocked \<or> \<not> exclusiveHeld (instn st)"
    proof -
      have kp: "k \<in> set (parked st)" using k me by (auto simp: running_def)
      have "exclusiveOwner (instn st) = None \<or> exclusiveOwner (instn st) = Some k \<and> park (tasks st k) = parkBlocked"
        using h owner_blocked [OF inv kp] inv by (auto simp: task_inv_def exclusive_inv_def Let_def)
      then show ?thesis using resume_inv [OF inv kp me, of cancel_mark] r s by simp
    qed
    have st: "q = Over \<Longrightarrow> continue_task k q oe le st1 = st1" by (simp add: continue_task_def)
    show ?thesis
      using c resume later st unfolding requestCancellation_def Let_def s taskState.case now
      by (auto split: if_splits)
  qed
qed

lemma begin_inv:
  assumes inv: "task_inv st" and me: "mayEnter (instn st)" and un: "unstarted (tasks st k)" and s: "start_task k st = (q, st1)"
  shows "task_inv (continue_task k q oe le st1)"
proof -
  have e: "exclusive_inv st" and p: "parked_inv st" and c: "counters_inv st" and r: "results_inv st" using inv by (simp_all add: task_inv_def)
  have k: "k \<notin> set (parked st)" using p un by (auto simp: parked_inv_def unstarted_def)
  have nrun: "\<not> running j st" for j using me by (simp add: running_def)
  show ?thesis
  proof (cases "fst (tryEnter k (instn st))")
    case True
    then have free: "\<not> exclusiveHeld (instn st)" by (auto simp: tryEnter_def hasBackpressure_def split: if_splits)
    have q: "q = First_run" "st1 = st\<lparr>instn := (instn st)\<lparr>activeTask := Some k, exclusiveHeld := True, exclusiveOwner := Some k\<rparr>\<rparr>"
      using s True by (auto simp: start_task_def tryEnter_def split: if_splits)
    have "exclusiveOwner (instn st) = None" using e free by (auto simp: exclusive_inv_def Let_def)
    then have "\<forall>j \<in> set (parked st). park (tasks st j) \<noteq> parkBlocked" using e by (auto simp: exclusive_inv_def Let_def)
    moreover have "parked_inv st1" using p me by (auto simp: parked_inv_def running_def q)
    moreover have "counters_inv st1" using c by (simp add: counters_inv_def parked_at_def q)
    moreover have "results_inv st1" using r by (simp add: results_inv_def q)
    ultimately have "handed_over k st1"
      using e me k un by (simp add: handed_over_def q unstarted_def exclusive_inv_def Let_def)
    then show ?thesis using firstRun_inv [of k st1 oe le] un by (simp add: continue_task_def q unstarted_def)
  next
    case False
    then have q: "q = Over" and st1: "st1 = sched_park k (upd_inst (\<lambda>i. i\<lparr>numWaitingToEnter := numWaitingToEnter i + 1\<rparr>)
             (upd_task k (\<lambda>t. t\<lparr>park := parkEntry, cancellable := True\<rparr>) st))"
      using s by (simp_all add: start_task_def case_prod_unfold)
    have run: "\<not> running j st1" for j using me by (simp add: running_def st1)
    have same: "tasks st1 j = tasks st j" if "j \<in> set (parked st)" for j using k that by (auto simp: st1)
    have "exclusive_inv st1"
    proof -
      have "j \<in> set (parked st) \<and> park (tasks st j) = parkBlocked" if "exclusiveOwner (instn st) = Some j" for j
        using e that nrun by (auto simp: exclusive_inv_def Let_def)
      then have own: "exclusiveOwner (instn st) = Some j \<Longrightarrow> j \<in> set (parked st) \<and> park (tasks st j) = parkBlocked" for j .
      have blocked: "exclusiveOwner (instn st) = Some j" if "j \<in> set (parked st)" "park (tasks st j) = parkBlocked" for j
        using e that by (simp add: exclusive_inv_def Let_def)
      have h: "exclusiveHeld (instn st) \<longleftrightarrow> exclusiveOwner (instn st) \<noteq> None" "syncBase (instn st) = None" "activeTask (instn st) = None"
        using e me by (simp_all add: exclusive_inv_def Let_def)
      have fr: "exclusiveHeld (instn st1) = exclusiveHeld (instn st)" "exclusiveOwner (instn st1) = exclusiveOwner (instn st)"
        "syncBase (instn st1) = syncBase (instn st)" "mayEnter (instn st1)" "activeTask (instn st1) = activeTask (instn st)"
        using me by (simp_all add: st1)
      have o1: "j \<in> set (parked st1) \<and> park (tasks st1 j) = parkBlocked" if "exclusiveOwner (instn st) = Some j" for j
        using own [OF that] same [of j] by (simp add: st1)
      have b1: "exclusiveOwner (instn st) = Some j" if "j \<in> set (parked st1)" "park (tasks st1 j) = parkBlocked" for j
        using blocked [of j] same [of j] that k by (cases "j = k") (simp_all add: st1)
      show ?thesis unfolding exclusive_inv_def Let_def fr h(2,3) using h(1) o1 b1 fr(4) by blast
    qed
    moreover have "parked_inv st1"
    proof -
      have "distinct (parked st1)" using p k by (simp add: parked_inv_def st1)
      moreover have "park (tasks st1 k) = parkEntry" "state (tasks st1 k) = taskInitial" "\<not> finished (tasks st1 k)" "\<not> cancelWake (tasks st1 k)"
        using un by (simp_all add: st1 unstarted_def)
      moreover have "set (parked st1) = insert k (set (parked st))" "asy st1 = asy st" by (simp_all add: st1)
      ultimately show ?thesis using p same run by (simp add: parked_inv_def)
    qed
    moreover have "counters_inv st1" using c parked_at_park [of st1 st k] k by (simp add: counters_inv_def st1)
    moreover have "results_inv st1" by (rule results_upd [OF r, of k]) (use un r in \<open>auto simp: st1 unstarted_def results_inv_def\<close>)
    ultimately show ?thesis by (simp add: task_inv_def continue_task_def q)
  qed
qed

text \<open>Changes of the waitables that keep the counters of the sets that tasks wait for.\<close>

lemma asy_change_inv:
  assumes inv: "task_inv st" and o: "obrk (asy st) \<le> obrk a"
    and n: "\<And>s. numWaiting (sets a s) = numWaiting (sets (asy st) s) \<or> obrk (asy st) \<le> s \<and> numWaiting (sets a s) = 0"
  shows "task_inv (st\<lparr>asy := a\<rparr>)"
proof -
  have p: "parked_inv st" and c: "counters_inv st" using inv by (simp_all add: task_inv_def)
  have at: "parked_at (st\<lparr>asy := a\<rparr>) P = parked_at st P" for P by (simp add: parked_at_def)
  have run: "running j (st\<lparr>asy := a\<rparr>) = running j st" for j by (simp add: running_def)
  have none: "parked_at st (\<lambda>t. park t = parkWait \<and> gwset t = Some s) = 0" if s: "obrk (asy st) \<le> s" for s
  proof -
    have "\<not> (park (tasks st k) = parkWait \<and> gwset (tasks st k) = Some s)" if k: "k \<in> set (parked st)" for k
    proof
      assume w: "park (tasks st k) = parkWait \<and> gwset (tasks st k) = Some s"
      then obtain r where "r < obrk (asy st)" "gwset (tasks st k) = Some r" using p k by (auto simp: parked_inv_def)
      with w s show False by simp
    qed
    then show ?thesis by (simp add: parked_at_def filter_empty_conv)
  qed
  have "numWaiting (sets a s) = parked_at st (\<lambda>t. park t = parkWait \<and> gwset t = Some s)" for s
    using n [of s] none [of s] c by (auto simp: counters_inv_def)
  then have "counters_inv (st\<lparr>asy := a\<rparr>)" using c by (simp add: counters_inv_def at)
  moreover have "parked_inv (st\<lparr>asy := a\<rparr>)"
    using p o unfolding parked_inv_def run by simp (metis order.strict_trans2)
  moreover have "exclusive_inv (st\<lparr>asy := a\<rparr>)" "results_inv (st\<lparr>asy := a\<rparr>)"
    using inv by (simp_all add: task_inv_def exclusive_inv_def results_inv_def run)
  ultimately show ?thesis by (simp add: task_inv_def)
qed

lemma numWaiting_join [simp]: "numWaiting (sets (waitable_join w ws a) s) = numWaiting (sets a s)"
  by (simp add: waitable_join_def set_remove_def Let_def split: option.splits)

lemma as_step_frame:
  "as_step run a a' \<Longrightarrow> obrk a \<le> obrk a' \<and>
     (\<forall>s. numWaiting (sets a' s) = numWaiting (sets a s) \<or> obrk a \<le> s \<and> numWaiting (sets a' s) = 0)"
proof (induction rule: as_step.induct)
  case (set_poll i st s ev st')
  then show ?case using set_getPendingEvent_frame [of run s st ev st'] by (auto simp: poll_def split: if_splits)
next
  case (joined wi si st st')
  then show ?case by (auto simp: waitableJoin_def split: option.splits if_splits)
next
  case (sub_drop i st st')
  then show ?case by (auto simp: subtaskDrop_def dropSubtask_def dropWaitable_def split: option.splits tableEntry.splits if_splits)
qed (auto simp: waitableSetNew_def waitableSetDrop_def begin_call_def addLender_def call_started_def on_resolve_def resolve_subtask_def
      setPendingSubtaskEvent_def finish_call_def setSubtaski_def setPendingEvent_def Let_def split: if_splits prod.splits sum.splits)

section \<open>The instance as a whole\<close>

lemma numWaiting_async [simp]:
  assumes "async_inv a"
  shows "async_inv (upd_s s (\<lambda>x. x\<lparr>numWaiting := g (numWaiting x)\<rparr>) a)"
proof -
  let ?u = "upd_s s (\<lambda>x. x\<lparr>numWaiting := g (numWaiting x)\<rparr>) a"
  have "members_agree ?u" by (rule members_cong [of a]) (use assms in \<open>simp_all add: async_inv_def\<close>)
  moreover have "no_dangling ?u" by (rule dangling_cong [of a]) (use assms in \<open>simp_all add: async_inv_def\<close>)
  ultimately show ?thesis using assms by (simp add: async_inv_def entries_agree_def events_agree_def)
qed

lemma handles_async:
  assumes inv: "async_inv a" and t: "index_inv t" and same: "\<And>i e. \<not> is_res e \<Longrightarrow> entries t i = Some e \<longleftrightarrow> entries (resources a) i = Some e"
  shows "async_inv (a\<lparr>resources := t, hp := h\<rparr>)"
proof -
  have e: "entries t i = Some (Subtask s) \<longleftrightarrow> entries (resources a) i = Some (Subtask s)"
    "entries t i = Some (StreamEnd s) \<longleftrightarrow> entries (resources a) i = Some (StreamEnd s)"
    "entries t i = Some (FutureEnd s) \<longleftrightarrow> entries (resources a) i = Some (FutureEnd s)"
    "entries t i = Some (WaitableSet s) \<longleftrightarrow> entries (resources a) i = Some (WaitableSet s)" for i s
    by (simp_all add: same)
  have w: "(entries t i = Some x \<and> waitablePtr x = Some v) = (entries (resources a) i = Some x \<and> waitablePtr x = Some v)" for i x v
    by (cases x) (simp_all add: e)
  show ?thesis using inv t by (simp add: async_inv_def members_agree_def no_dangling_def entries_agree_def events_agree_def e w)
qed

lemma continue_asy [simp]: "asy (continue_task k q oe le st) = asy st"
  by (simp add: continue_task_def firstRun_def runLoop_def block_resume_def leave_and_fail_def fail_def Let_def split: resumption.splits option.splits)

lemma deliverPendingCancel_asy: "deliverPendingCancel k c st = (b, st') \<Longrightarrow> asy st' = asy st"
  by (auto simp: deliverPendingCancel_def split: if_splits)

lemma numWaiting_plus_async [simp]:
  assumes "async_inv a"
  shows "async_inv (upd_s s (\<lambda>x. x\<lparr>numWaiting := numWaiting x + 1\<rparr>) a)" "async_inv (upd_s s (\<lambda>x. x\<lparr>numWaiting := numWaiting x - 1\<rparr>) a)"
  using numWaiting_async [OF assms, of s "\<lambda>n. n + 1"] numWaiting_async [OF assms, of s "\<lambda>n. n - 1"] by simp_all

lemma set_getPendingEvent_async:
  assumes "async_inv a" "set_getPendingEvent run s a = Inr (ev, a')"
  shows "async_inv a'"
  using assms getPendingEvent_inv by (auto simp: set_getPendingEvent_def split: option.splits)

lemma resumeReady_async:
  assumes inv: "async_inv (asy st)" and r: "resumeReady run k st = Inr (q, st1)"
  shows "async_inv (asy st1)"
proof (cases "park (tasks st k)")
  case parkEntry
  then show ?thesis using r inv
    by (auto simp: resumeReady_def Let_def fail_def cancelResolve_def split: if_splits sum.splits)
next
  case parkWait
  obtain s where s: "gwset (tasks st k) = Some s" using r parkWait by (auto simp: resumeReady_def split: option.splits)
  let ?a = "upd_s s (\<lambda>x. x\<lparr>numWaiting := numWaiting x - 1\<rparr>) (asy st)"
  have "asy st1 = ?a \<or> (\<exists>ev. set_getPendingEvent run s ?a = Inr (ev, asy st1))"
  proof (cases "cancelWake (tasks st k) \<or> state (tasks st k) = taskPendingCancel")
    case True
    then show ?thesis using r parkWait s by (cases "cancelWake (tasks st k)") (auto simp: resumeReady_def Let_def deliverPendingCancel_def)
  next
    case False
    show ?thesis
    proof (cases "set_getPendingEvent run s ?a")
      case (Inl e)
      then show ?thesis using r parkWait s False by (simp add: resumeReady_def Let_def deliverPendingCancel_def)
    next
      case (Inr p)
      obtain ev a where p: "p = (ev, a)" by (cases p)
      have "asy st1 = a" using r parkWait s False Inr by (simp add: resumeReady_def Let_def deliverPendingCancel_def p) (auto simp: sched_unpark_def upd_task_def)
      then show ?thesis using Inr p by simp
    qed
  qed
  then show ?thesis
  proof (elim disjE exE)
    assume e: "asy st1 = ?a"
    show ?thesis unfolding e using inv by (rule numWaiting_plus_async)
  next
    fix ev assume "set_getPendingEvent run s ?a = Inr (ev, asy st1)"
    then show ?thesis by (rule set_getPendingEvent_async [OF numWaiting_plus_async(2) [OF inv]])
  qed
next
  case parkYield
  then show ?thesis using r inv by (auto simp: resumeReady_def Let_def deliverPendingCancel_def split: if_splits)
qed (use r inv in \<open>auto simp: resumeReady_def Let_def\<close>)

lemma requestCancellation_async:
  assumes "async_inv (asy st)" "requestCancellation run k st = Inr (q, st1)"
  shows "async_inv (asy st1)"
  using assms resumeReady_async [of "upd_task k _ st" run k q st1]
  by (auto simp: requestCancellation_def Let_def split: taskState.splits if_splits)

lemma finishExit_asy [simp]: "asy (finishExit k st) = asy st"
  by (simp add: finishExit_def fail_def Let_def)

lemma leave_and_fail_asy [simp]: "asy (leave_and_fail k e st) = asy st" "asy (guest_trap k msg st) = asy st"
  by (simp_all add: leave_and_fail_def guest_trap_def fail_def)

lemma advance_async: "async_inv (asy st) \<Longrightarrow> async_inv (asy (advance k packed st))"
  by (auto simp: advance_def Let_def split: sum.splits option.splits tableEntry.splits if_splits)

lemma stackful_return_asy [simp]: "asy (stackful_return k lifted post st) = asy st"
  by (auto simp: stackful_return_def returnValues_def Let_def split: sum.splits option.splits bool.splits)

text \<open>The index discipline of the handle table alone.\<close>

lemma index_inv_cong: "free t' = free t \<Longrightarrow> nextH t' = nextH t \<Longrightarrow> entries t' = entries t \<Longrightarrow> index_inv t' = index_inv t"
  by (simp add: index_inv_def)

lemma add_handle_index:
  assumes inv: "index_inv t" and ok: "alloc_ok t" and add: "add_handle ti rp ow t h = (i, t', h')"
  shows "index_inv t'"
proof -
  let ?t1 = "fst (snd (newResourceEntry ti rp ow t h))"
  have f: "free ?t1 = free t" "nextH ?t1 = nextH t" "entries ?t1 = entries t"
    by (simp_all add: newResourceEntry_def Let_def case_prod_unfold)
  have "index_inv ?t1" using inv index_inv_cong [OF f] by simp
  moreover have "alloc_ok ?t1" using ok f by (simp add: alloc_ok_def)
  moreover have "addEntry (Res (fst (newResourceEntry ti rp ow t h))) ?t1 = (i, t')"
    using add by (simp add: add_handle_def Let_def case_prod_unfold prod_eq_iff)
  ultimately show ?thesis using addEntry_spec by blast
qed

lemma ht_step_index:
  assumes s: "ht_step (t, h) (t', h')" and inv: "index_inv t"
  shows "index_inv t'"
  using s
proof (cases rule: ht_step.cases)
  case (new_own ti rp i)
  then show ?thesis using add_handle_index [OF inv] by (simp add: NewOwn_def)
next
  case (new_borrow ti rp i)
  then show ?thesis using add_handle_index [OF inv] by (simp add: NewBorrow_def)
next
  case (new_scoped ti rp scope i)
  then show ?thesis using addEntry_spec [OF inv] by (auto simp: NewBorrowScoped_def Let_def split: option.splits prod.splits)
next
  case (take_own ti i rp)
  then show ?thesis using remove_index_inv [OF inv, of i] by (auto simp: TakeOwn_def Let_def lookup_handle_Inr live_at_def bindE_def split: sum.splits if_splits)
next
  case (drop ti i)
  then show ?thesis using remove_index_inv [OF inv, of i] by (auto simp: Drop_def Let_def lookup_handle_Inr live_at_def bindE_def split: sum.splits if_splits option.splits)
next
  case (drop_owned i rp)
  then show ?thesis using remove_index_inv [OF inv, of i] by (auto simp: DropOwned_def Let_def split: option.splits tableEntry.splits if_splits)
next
  case (add_other e i)
  then show ?thesis using addEntry_spec [OF inv] by blast
next
  case (remove_other i e)
  then show ?thesis using remove_index_inv [OF inv, of i] by (auto simp: removeEntry_def split: option.splits)
next
  case (register ti d)
  then show ?thesis using inv index_inv_cong [of t' t] by simp
next
  case (name tags)
  then show ?thesis using inv index_inv_cong [of t' t] by simp
qed (use inv in simp_all)

lemma t_step_inv:
  "t_step run unblocked st st' \<Longrightarrow> task_inv st \<Longrightarrow> async_inv (asy st) \<Longrightarrow> task_inv st' \<and> async_inv (asy st')"
proof (induction rule: t_step.induct)
  case (begin_task st k r st1 oe le)
  have "asy st1 = asy st" using begin_task(4) by (auto simp: start_task_def split: prod.splits bool.splits)
  then show ?case using begin_inv [OF begin_task(5,1,3,4)] begin_task by simp
next
  case (resume k st r st1 oe le)
  then show ?case using ready_resume_inv [OF resume(4,1,2,3)] resumeReady_async [OF resume(5,3)] by simp
next
  case (cancel k st r st1 oe le)
  then show ?case using cancel_inv [OF cancel(3,1,2)] requestCancellation_async [OF cancel(4,2)] by simp
next
  case (task_return k st lifted st')
  then have "resolves k False st st'" using requireActiveTask_running [of k st] returnValues_resolves
    by (auto simp: taskReturn_def bindE_def split: sum.splits)
  then show ?case using resolves_running_inv [of st k False st'] task_return by (simp add: resolves_def)
next
  case (task_cancel k st st')
  then have "resolves k True st st'" using requireActiveTask_running [of k st] cancelResolve_resolves
    by (auto simp: taskCancel_def bindE_def split: sum.splits if_splits)
  then show ?case using resolves_running_inv [of st k True st'] task_cancel by (simp add: resolves_def)
next
  case (cancel_event k st st')
  have st': "st' = upd_task k (\<lambda>t. t\<lparr>state := taskCancelDelivered\<rparr>) st" and s: "state (tasks st k) = taskPendingCancel"
    using cancel_event(2) by (auto simp: deliverPendingCancel_def split: if_splits)
  note f = running_facts [OF cancel_event(3,1)]
  have "task_inv st'"
  proof (rule local_inv [OF cancel_event(3,1)])
    show "results_inv st'" by (rule results_upd [of st k]) (use cancel_event(3) f s in \<open>auto simp: st' task_inv_def\<close>)
  qed (use f in \<open>simp_all add: st'\<close>)
  then show ?case using cancel_event(4) by (simp add: st')
next
  case (context_set k st slot v st')
  have st': "st' = upd_task k (\<lambda>t. t\<lparr>ctxStorage := (ctxStorage t)[unat slot := v]\<rparr>) st"
    using context_set(2) requireActiveTask_running [OF context_set(1)] by (auto simp: contextSet_def bindE_def split: sum.splits if_splits)
  note f = running_facts [OF context_set(3,1)]
  have "task_inv st'"
  proof (rule local_inv [OF context_set(3,1)])
    show "results_inv st'" by (rule results_upd [of st k]) (use context_set(3) f in \<open>auto simp: st' task_inv_def\<close>)
  qed (use f in \<open>simp_all add: st'\<close>)
  then show ?case using context_set(4) by (simp add: st')
next
  case (pressure_inc k st st')
  have st': "st' = upd_inst (\<lambda>i. i\<lparr>backpressure := backpressure i + 1\<rparr>) st"
    using pressure_inc(2) by (auto simp: backpressureInc_def bindE_def Let_def split: sum.splits if_splits)
  note f = running_facts [OF pressure_inc(3,1)]
  have "task_inv st'"
  proof (rule local_inv [OF pressure_inc(3,1)])
    show "results_inv st'" using pressure_inc(3) by (simp add: st' task_inv_def results_inv_def)
  qed (use f in \<open>simp_all add: st'\<close>)
  then show ?case using pressure_inc(4) by (simp add: st')
next
  case (pressure_dec k st st')
  have st': "st' = upd_inst (\<lambda>i. i\<lparr>backpressure := backpressure i - 1\<rparr>) st"
    using pressure_dec(2) by (auto simp: backpressureDec_def bindE_def Let_def split: sum.splits if_splits)
  note f = running_facts [OF pressure_dec(3,1)]
  have "task_inv st'"
  proof (rule local_inv [OF pressure_dec(3,1)])
    show "results_inv st'" using pressure_dec(3) by (simp add: st' task_inv_def results_inv_def)
  qed (use f in \<open>simp_all add: st'\<close>)
  then show ?case using pressure_dec(4) by (simp add: st')
next
  case (block k st c b st')
  have "asy st' = asy st" using block(3) by (auto simp: block_park_def deliverPendingCancel_def split: if_splits)
  then show ?case using block_park_inv [OF block(4,1,3)] block(5) by simp
next
  case (callback_return k st packed)
  then show ?case using advance_inv [of st k packed] advance_async [of st k packed] by (simp add: async_inv_def entries_agree_def)
next
  case (waitables_step st a)
  then show ?case using asy_change_inv [of st a] as_step_frame as_step_inv by auto
next
  case (handles_step st t h)
  then have "async_inv ((asy st)\<lparr>resources := t, hp := h\<rparr>)" using handles_async [of "asy st" t h] ht_step_index [OF handles_step(1)] by (simp add: async_inv_def)
  moreover have "task_inv (st\<lparr>asy := (asy st)\<lparr>resources := t, hp := h\<rparr>\<rparr>)" by (rule asy_change_inv [OF handles_step(3)]) simp_all
  ultimately show ?case by (simp add: upd_asy_def)
qed (simp_all add: guest_trap_inv stackful_return_inv)

lemma t_reachable_inv:
  "t_reachable run unblocked init st \<Longrightarrow> task_inv init \<Longrightarrow> async_inv (asy init) \<Longrightarrow> task_inv st \<and> async_inv (asy st)"
  by (induction rule: t_reachable.induct) (auto dest: t_step_inv)

lemma init_tstate_inv:
  assumes "async_inv a" "\<And>s. numWaiting (sets a s) = 0" "\<And>k. unstarted (ts k) \<and> failure (ts k) = None"
  shows "task_inv (init_tstate a ts)"
  using assms by (auto simp: task_inv_def exclusive_inv_def parked_inv_def counters_inv_def results_inv_def init_tstate_def idle_inst_def
      running_def parked_at_def unstarted_def)

lemma demo_entered_simps:
  "instn demo_entered = idle_inst\<lparr>mayEnter := False, activeTask := Some 0, exclusiveHeld := True, exclusiveOwner := Some 0\<rparr>"
  "tasks demo_entered = (\<lambda>_. demo_task)(0 := demo_task\<lparr>state := taskStarted\<rparr>)" "parked demo_entered = []" "delivered demo_entered = []"
  "asy demo_entered = demo_init"
  by (simp_all add: demo_entered_def demo_idle_def init_tstate_def start_task_def tryEnter_def hasBackpressure_def idle_inst_def
      continue_task_def firstRun_def enterRun_def Let_def)

lemma unpack_simps: "unpackCallbackResult 0 = Inr (0, 0)" "unpackCallbackResult 1 = Inr (1, 0)"
  by (simp_all add: unpackCallbackResult_def Let_def)

lemma demo_yielded_simps:
  "instn demo_yielded = idle_inst"
  "tasks demo_yielded = (\<lambda>_. demo_task)(0 := demo_task\<lparr>state := taskStarted, park := parkYield, cancellable := True\<rparr>)"
  "parked demo_yielded = [0]" "delivered demo_yielded = []" "asy demo_yielded = demo_init"
  by (simp_all add: demo_yielded_def advance_def unpack_simps demo_entered_simps leaveRun_def idle_inst_def)

lemma demo_again_simps:
  "instn demo_again = idle_inst\<lparr>mayEnter := False, activeTask := Some 0, exclusiveHeld := True, exclusiveOwner := Some 0\<rparr>"
  "tasks demo_again = (\<lambda>_. demo_task)(0 := demo_task\<lparr>state := taskStarted, park := parkYield, cancellable := True\<rparr>)"
  "parked demo_again = []" "delivered demo_again = []" "asy demo_again = demo_init"
  by (simp_all add: demo_again_def resumeReady_def demo_yielded_simps Let_def deliverPendingCancel_def continue_task_def runLoop_def
      enterRun_def demo_task_def idle_inst_def)

lemma demo_returned_eq: "taskReturn (Inr [7]) demo_again = Inr demo_returned"
  by (simp add: demo_returned_def taskReturn_def requireActiveTask_def demo_again_simps demo_init_def init_astate_def returnValues_def
      demo_task_def borrows_def demo_heap_def NewOwn_def add_handle_def newResourceEntry_def newHandleTable_def empty_heap_def addEntry_def Let_def)

lemma demo_returned_alt: "demo_returned = upd_task 0 (\<lambda>t. t\<lparr>state := taskResolved\<rparr>) (deliver 0 [7] False demo_again)"
  using demo_returned_eq by (simp add: taskReturn_def requireActiveTask_def demo_again_simps returnValues_def demo_task_def Let_def split: if_splits)

lemma demo_reachable: "t_reachable demo_run demo_none demo_idle demo_exited"
proof -
  have 0: "t_reachable demo_run demo_none demo_idle demo_idle" by (rule t_reachable.start)
  have 1: "t_step demo_run demo_none demo_idle demo_entered" unfolding demo_entered_def
    by (rule t_step.begin_task) (simp_all add: demo_idle_def init_tstate_def idle_inst_def unstarted_def demo_task_def)
  have 2: "t_step demo_run demo_none demo_entered demo_yielded" unfolding demo_yielded_def
    by (rule t_step.callback_return) (simp_all add: running_def demo_entered_simps demo_task_def)
  have "\<exists>q s. resumeReady demo_run 0 demo_yielded = Inr (q, s) \<and> demo_again = continue_task 0 q None None s"
    by (simp add: demo_again_def resumeReady_def demo_yielded_simps Let_def deliverPendingCancel_def demo_task_def)
  then obtain q s where q: "resumeReady demo_run 0 demo_yielded = Inr (q, s)" "demo_again = continue_task 0 q None None s" by blast
  have 3: "t_step demo_run demo_none demo_yielded demo_again" unfolding q(2)
    by (rule t_step.resume [OF _ _ q(1)]) (simp_all add: demo_yielded_simps ready_def idle_inst_def demo_task_def)
  have 4: "t_step demo_run demo_none demo_again demo_returned"
    by (rule t_step.task_return [OF _ demo_returned_eq, of 0]) (simp add: running_def demo_again_simps)
  have t: "running 0 demo_returned" "\<not> stackful (tasks demo_returned 0)"
    by (simp_all add: demo_returned_alt running_def demo_again_simps demo_task_def)
  have 5: "t_step demo_run demo_none demo_returned demo_exited" unfolding demo_exited_def
    by (rule t_step.callback_return) (use t in simp_all)
  show ?thesis using t_reachable.step [OF t_reachable.step [OF t_reachable.step [OF t_reachable.step [OF t_reachable.step [OF 0 1] 2] 3] 4] 5] .
qed

lemma demo_exited_simps:
  "delivered demo_exited = [(0, [7], False)]" "state (tasks demo_exited 0) = taskResolved" "finished (tasks demo_exited 0)"
  "failure (tasks demo_exited 0) = None" "forwards (tasks demo_exited 0)"
  by (simp_all add: demo_exited_def advance_def unpack_simps finishExit_def Let_def demo_returned_alt demo_again_simps demo_task_def)

lemma demo_start_inv: "async_inv demo_init" "numWaiting (sets demo_init s) = 0" "unstarted demo_task \<and> failure demo_task = None"
  using init_inv [OF demo_table_inv] by (simp_all add: demo_init_def init_astate_def unstarted_def demo_task_def)

section \<open>Properties\<close>



text \<open>
  C10. A task hands its result to its caller exactly once, when it resolves, and never before; a
  task that finished without a failure has resolved.
\<close>

theorem task_resolves_once:
  assumes "async_inv a" "\<And>s. numWaiting (sets a s) = 0" "\<And>k. unstarted (ts k) \<and> failure (ts k) = None"
    and "t_reachable run unblocked (init_tstate a ts) st"
  shows "length (filter (\<lambda>d. fst d = k) (delivered st)) = (if state (tasks st k) = taskResolved \<and> forwards (tasks st k) then 1 else 0) \<and>
    (finished (tasks st k) \<longrightarrow> failure (tasks st k) = None \<longrightarrow> state (tasks st k) = taskResolved)"
proof -
  have "task_inv (init_tstate a ts)" using assms(1-3) by (rule init_tstate_inv)
  moreover have "async_inv (asy (init_tstate a ts))" using assms(1) by (simp add: init_tstate_def)
  ultimately have r: "results_inv st" using t_reachable_inv [OF assms(4)] by (simp add: task_inv_def)
  then show ?thesis unfolding results_inv_def sent_def by blast
qed

theorem task_resolves_once_witness:
  "t_reachable demo_run demo_none demo_idle demo_exited \<and> length (filter (\<lambda>d. fst d = 0) (delivered demo_exited)) = 1 \<and>
     finished (tasks demo_exited 0) \<and> state (tasks demo_exited 0) = taskResolved"
  using task_resolves_once [of demo_init "\<lambda>_. demo_task" demo_run demo_none demo_exited 0] demo_start_inv demo_reachable demo_exited_simps
  by (simp add: demo_idle_def)

text \<open>
  C34. A callback task that failed in a round after it yielded can still be cancelled: its park
  kind is not reset when it fails, so \<^verbatim>\<open>requestCancellation\<close> resumes it for another round of the callback.
\<close>

theorem failed_task_resumed_by_cancellation:
  assumes run: "running k st" and t: "\<not> stackful (tasks st k)" "state (tasks st k) = taskStarted" "park (tasks st k) = parkYield"
      "cancellable (tasks st k)"
    and bad: "2 < packed AND 0xf"
  shows "\<exists>st'. requestCancellation rn k (advance k packed st) = Inr (Round \<lparr>code = eventTaskCancelled, p1 = 0, p2 = 0\<rparr>, st') \<and>
     finished (tasks st' k) \<and> failure (tasks st' k) \<noteq> None \<and> running k (continue_task k (Round ev) oe le st')"
  using assms
  by (simp add: advance_def unpackCallbackResult_def Let_def leave_and_fail_def fail_def leaveRun_def requestCancellation_def
      resumeReady_def continue_task_def runLoop_def enterRun_def running_def)

theorem failed_task_resumed_by_cancellation_witness:
  "failure (tasks (advance 0 9 demo_again) 0) \<noteq> None \<and>
   (\<exists>st'. requestCancellation demo_run 0 (advance 0 9 demo_again) = Inr (Round \<lparr>code = eventTaskCancelled, p1 = 0, p2 = 0\<rparr>, st'))"
proof
  show "failure (tasks (advance 0 9 demo_again) 0) \<noteq> None"
    by (simp add: advance_def unpackCallbackResult_def leave_and_fail_def fail_def)
  show "\<exists>st'. requestCancellation demo_run 0 (advance 0 9 demo_again) = Inr (Round \<lparr>code = eventTaskCancelled, p1 = 0, p2 = 0\<rparr>, st')"
    using failed_task_resumed_by_cancellation [of 0 demo_again 9 demo_run] by (force simp: running_def demo_again_simps demo_task_def)
qed

end
