(* ===== verification/Sched.thy ===== *)
theory Sched
  imports Task_Invariant
begin

text \<open>
  The scheduler of \<^verbatim>\<open>sched.go\<close>: a queue of completion thunks and the list of parked tasks, which
  \<open>tstate\<close> holds. Guest code, thunks and the lifting of arguments are parameters, collected in a
  record; a loop that may run forever is a partial function, and the scheduler's promise that it
  returns is a theorem.
\<close>

section \<open>State and environment\<close>

record ('x, 't, 'w, 'v, 'q) sched =
  runq :: "'q list"
  pumping :: bool
  tst :: "('x, 't, 'w, 'v) tstate"

text \<open>
  What the scheduler runs: a thunk, and the guest code of a task from a call into it to the task's
  next park or end; both answer with an error or none. \<open>start_err\<close> and \<open>lower_err\<close> are the errors of
  lifting and lowering a task's arguments.
\<close>

record ('x, 't, 'w, 'v, 'q) senv =
  run_event :: "'t \<Rightarrow> 'x \<Rightarrow> eventTuple \<times> 'x"
  unblocked :: "nat \<Rightarrow> ('x, 't, 'w, 'v) tstate \<Rightarrow> bool"
  thunk :: "'q \<Rightarrow> ('x, 't, 'w, 'v, 'q) sched \<Rightarrow> task_error option \<times> ('x, 't, 'w, 'v, 'q) sched"
  guest :: "nat \<Rightarrow> resumption \<Rightarrow> ('x, 't, 'w, 'v, 'q) sched \<Rightarrow> task_error option \<times> ('x, 't, 'w, 'v, 'q) sched"
  start_err :: "nat \<Rightarrow> ('x, 't, 'w, 'v, 'q) sched \<Rightarrow> string option"
  lower_err :: "nat \<Rightarrow> ('x, 't, 'w, 'v, 'q) sched \<Rightarrow> string option"

datatype drive_error = Async_deadlock | Step_error task_error

definition enqueue :: "'q \<Rightarrow> ('x, 't, 'w, 'v, 'q) sched \<Rightarrow> ('x, 't, 'w, 'v, 'q) sched" where
  "enqueue f s = s\<lparr>runq := runq s @ [f]\<rparr>"

text \<open>Resuming a parked task to its next park or end.\<close>

definition resume_parked ::
  "('x, 't, 'w, 'v, 'q) senv \<Rightarrow> nat \<Rightarrow> ('x, 't, 'w, 'v, 'q) sched \<Rightarrow> task_error option \<times> ('x, 't, 'w, 'v, 'q) sched" where
  "resume_parked env k s =
     (case resumeReady (run_event env) k (tst s) of
        Inl e \<Rightarrow> (Some e, s)
      | Inr (r, st) \<Rightarrow>
          let s = s\<lparr>tst := continue_task k r (start_err env k s) (lower_err env k s) st\<rparr> in
          case r of
            Over \<Rightarrow> (None, s)
          | Failed e \<Rightarrow> (Some e, s)
          | _ \<Rightarrow> (if running k (tst s) then guest env k r s else (failure (tasks (tst s) k), s)))"

section \<open>Pumping\<close>

definition sched_step ::
  "('x, 't, 'w, 'v, 'q) senv \<Rightarrow> ('x, 't, 'w, 'v, 'q) sched \<Rightarrow> bool \<times> task_error option \<times> ('x, 't, 'w, 'v, 'q) sched" where
  "sched_step env s =
     (case runq s of
        th # rest \<Rightarrow>
          (let (err, s) = thunk env th (s\<lparr>runq := rest, pumping := True\<rparr>)
           in (True, err, s\<lparr>pumping := False\<rparr>))
      | [] \<Rightarrow>
          (case List.find (\<lambda>k. ready (unblocked env) k (tst s)) (parked (tst s)) of
             None \<Rightarrow> (False, None, s)
           | Some k \<Rightarrow>
               (let (err, s) = resume_parked env k (s\<lparr>pumping := True\<rparr>)
                in (True, err, s\<lparr>pumping := False\<rparr>))))"

partial_function (option) drive ::
  "('x, 't, 'w, 'v, 'q) senv \<Rightarrow> (('x, 't, 'w, 'v, 'q) sched \<Rightarrow> bool) \<Rightarrow> ('x, 't, 'w, 'v, 'q) sched \<Rightarrow>
   (drive_error option \<times> ('x, 't, 'w, 'v, 'q) sched) option" where
  "drive env pred s =
     (if pred s then Some (None, s)
      else case sched_step env s of
        (progressed, err, s') \<Rightarrow>
          (case err of
             Some e \<Rightarrow> Some (Some (Step_error e), s')
           | None \<Rightarrow> if progressed then drive env pred s' else Some (Some Async_deadlock, s')))"

partial_function (option) driveToQuiescence ::
  "('x, 't, 'w, 'v, 'q) senv \<Rightarrow> (('x, 't, 'w, 'v, 'q) sched \<Rightarrow> bool) \<Rightarrow> ('x, 't, 'w, 'v, 'q) sched \<Rightarrow>
   ((task_error + bool) \<times> ('x, 't, 'w, 'v, 'q) sched) option" where
  "driveToQuiescence env pred s =
     (if pred s then Some (Inr True, s)
      else case sched_step env s of
        (progressed, err, s') \<Rightarrow>
          (case err of
             Some e \<Rightarrow> Some (Inl e, s')
           | None \<Rightarrow> if progressed then driveToQuiescence env pred s' else Some (Inr False, s')))"

partial_function (option) drainReady ::
  "('x, 't, 'w, 'v, 'q) senv \<Rightarrow> ('x, 't, 'w, 'v, 'q) sched \<Rightarrow> (task_error option \<times> ('x, 't, 'w, 'v, 'q) sched) option" where
  "drainReady env s =
     (case sched_step env s of
        (progressed, err, s') \<Rightarrow>
          (case err of
             Some e \<Rightarrow> Some (Some e, s')
           | None \<Rightarrow> if progressed then drainReady env s' else Some (None, s')))"

primrec pump_thunks ::
  "nat \<Rightarrow> ('x, 't, 'w, 'v, 'q) senv \<Rightarrow> ('x, 't, 'w, 'v, 'q) sched \<Rightarrow> task_error option \<times> ('x, 't, 'w, 'v, 'q) sched" where
  "pump_thunks 0 env s = (None, s)"
| "pump_thunks (Suc n) env s =
     (case sched_step env s of
        (_, Some e, s) \<Rightarrow> (Some e, s)
      | (_, None, s) \<Rightarrow> pump_thunks n env s)"

definition isParked :: "nat \<Rightarrow> ('x, 't, 'w, 'v, 'q) sched \<Rightarrow> bool" where
  "isParked k s \<longleftrightarrow> k \<in> set (parked (tst s))"

fun resume_each ::
  "('x, 't, 'w, 'v, 'q) senv \<Rightarrow> nat list \<Rightarrow> ('x, 't, 'w, 'v, 'q) sched \<Rightarrow> task_error option \<times> ('x, 't, 'w, 'v, 'q) sched" where
  "resume_each env [] s = (None, s)"
| "resume_each env (k # ks) s =
     (if \<not> isParked k s \<or> \<not> ready (unblocked env) k (tst s) then resume_each env ks s
      else case resume_parked env k (s\<lparr>pumping := True\<rparr>) of
        (Some e, s) \<Rightarrow> (Some e, s\<lparr>pumping := False\<rparr>)
      | (None, s) \<Rightarrow> resume_each env ks (s\<lparr>pumping := False\<rparr>))"

definition pumpSnapshot ::
  "('x, 't, 'w, 'v, 'q) senv \<Rightarrow> ('x, 't, 'w, 'v, 'q) sched \<Rightarrow> task_error option \<times> ('x, 't, 'w, 'v, 'q) sched" where
  "pumpSnapshot env s =
     (case pump_thunks (length (runq s)) env s of
        (Some e, s) \<Rightarrow> (Some e, s)
      | (None, s) \<Rightarrow>
          resume_each env (filter (\<lambda>k. ready (unblocked env) k (tst s)) (parked (tst s))) s)"

section \<open>Specification vocabulary\<close>

text \<open>Thunks and guest code act on the instance through its steps, and thunks do not reorder the queue.\<close>

definition env_ok :: "('x, 't, 'w, 'v, 'q) senv \<Rightarrow> bool" where
  "env_ok env \<longleftrightarrow>
     (\<forall>q s e s'. thunk env q s = (e, s') \<longrightarrow> t_reachable (run_event env) (unblocked env) (tst s) (tst s')) \<and>
     (\<forall>k r s e s'. running k (tst s) \<longrightarrow> guest env k r s = (e, s') \<longrightarrow> t_reachable (run_event env) (unblocked env) (tst s) (tst s'))"

definition appends :: "('x, 't, 'w, 'v, 'q) senv \<Rightarrow> bool" where
  "appends env \<longleftrightarrow> (\<forall>q s e s'. thunk env q s = (e, s') \<longrightarrow> (\<exists>new. runq s' = runq s @ new))"

text \<open>Runs of steps without an error.\<close>

inductive pumped :: "('x, 't, 'w, 'v, 'q) senv \<Rightarrow> ('x, 't, 'w, 'v, 'q) sched \<Rightarrow> ('x, 't, 'w, 'v, 'q) sched \<Rightarrow> bool"
  for env where
  none: "pumped env s s"
| more: "sched_step env s = (True, None, s1) \<Longrightarrow> pumped env s1 s2 \<Longrightarrow> pumped env s s2"

text \<open>Running a list of thunks in order, each taken off the queue first.\<close>

fun run_in_order ::
  "('x, 't, 'w, 'v, 'q) senv \<Rightarrow> 'q list \<Rightarrow> ('x, 't, 'w, 'v, 'q) sched \<Rightarrow> task_error option \<times> ('x, 't, 'w, 'v, 'q) sched" where
  "run_in_order env [] s = (None, s)"
| "run_in_order env (q # qs) s =
     (case thunk env q (s\<lparr>runq := tl (runq s), pumping := True\<rparr>) of
        (Some e, s) \<Rightarrow> (Some e, s\<lparr>pumping := False\<rparr>)
      | (None, s) \<Rightarrow> run_in_order env qs (s\<lparr>pumping := False\<rparr>))"

text \<open>Why a parked task is not ready.\<close>

definition stuck :: "('x, 't, 'w, 'v, 'q) senv \<Rightarrow> nat \<Rightarrow> ('x, 't, 'w, 'v) tstate \<Rightarrow> bool" where
  "stuck env k st \<longleftrightarrow> (let t = tasks st k; held = exclusiveHeld (instn st) \<and> exclusiveOwner (instn st) \<noteq> Some k in
     case park t of
       parkEntry \<Rightarrow> hasBackpressure (instn st)
     | parkYield \<Rightarrow> held
     | parkWait \<Rightarrow> held \<or> state t \<noteq> taskPendingCancel \<and> (\<forall>s. gwset t = Some s \<longrightarrow> \<not> set_hasPendingEvent s (asy st))
     | parkBlocked \<Rightarrow> state t \<noteq> taskPendingCancel \<and> \<not> unblocked env k st
     | parkNone \<Rightarrow> True)"

text \<open>What a loop that stopped has done: steps without error, and then the reason for stopping.\<close>

definition stopped ::
  "('x, 't, 'w, 'v, 'q) senv \<Rightarrow> (('x, 't, 'w, 'v, 'q) sched \<Rightarrow> bool) \<Rightarrow> ('x, 't, 'w, 'v, 'q) sched \<Rightarrow>
   drive_error option \<times> ('x, 't, 'w, 'v, 'q) sched \<Rightarrow> bool" where
  "stopped env pred s p \<longleftrightarrow> (\<exists>s1. pumped env s s1 \<and> (case fst p of
       None \<Rightarrow> snd p = s1 \<and> pred s1
     | Some Async_deadlock \<Rightarrow> \<not> pred s1 \<and> sched_step env s1 = (False, None, snd p)
     | Some (Step_error e) \<Rightarrow> \<not> pred s1 \<and> sched_step env s1 = (True, Some e, snd p)))"

text \<open>A demonstration environment: thunks do nothing, and every callback returns a result and exits.\<close>

definition demo_env :: "(unit, unit, unit, nat, unit) senv" where
  "demo_env = \<lparr>run_event = demo_run, unblocked = demo_none, thunk = (\<lambda>q s. (None, s)),
     guest = (\<lambda>k r s. if stackful (tasks (tst s) k) then (Some Not_async, s)
       else case taskReturn (Inr [7]) (tst s) of Inl e \<Rightarrow> (Some e, s) | Inr st \<Rightarrow> (None, s\<lparr>tst := advance k 0 st\<rparr>)),
     start_err = (\<lambda>k s. None), lower_err = (\<lambda>k s. None)\<rparr>"

definition demo_sched :: "(unit, unit, unit, nat, unit) sched" where
  "demo_sched = \<lparr>runq = [()], pumping = False, tst = demo_yielded\<rparr>"

definition demo_done :: "(unit, unit, unit, nat, unit) sched \<Rightarrow> bool" where
  "demo_done s \<longleftrightarrow> finished (tasks (tst s) 0)"

definition work_left :: "(unit, unit, unit, nat, unit) sched \<Rightarrow> nat" where
  "work_left s = length (runq s) + length (parked (tst s))"

section \<open>Steps of the scheduler are steps of the instance\<close>

lemma t_reachable_trans: "t_reachable run u b c \<Longrightarrow> t_reachable run u a b \<Longrightarrow> t_reachable run u a c"
  by (induction rule: t_reachable.induct) (auto intro: t_reachable.step)

lemma resume_parked_reach:
  assumes ok: "env_ok env" and k: "k \<in> set (parked (tst s))" "ready (unblocked env) k (tst s)" and r: "resume_parked env k s = (e, s')"
  shows "t_reachable (run_event env) (unblocked env) (tst s) (tst s')"
proof (cases "resumeReady (run_event env) k (tst s)")
  case (Inl a)
  then show ?thesis using r by (auto simp: resume_parked_def intro: t_reachable.start)
next
  case (Inr p)
  obtain q st where p: "p = (q, st)" by (cases p)
  let ?c = "continue_task k q (start_err env k s) (lower_err env k s) st"
  have "t_step (run_event env) (unblocked env) (tst s) ?c" using k Inr p by (intro t_step.resume) simp_all
  then have 1: "t_reachable (run_event env) (unblocked env) (tst s) ?c" by (rule t_reachable.step [OF t_reachable.start])
  have "tst s' = ?c \<or> running k ?c \<and> guest env k q (s\<lparr>tst := ?c\<rparr>) = (e, s')"
    using r Inr p by (auto simp: resume_parked_def Let_def split: resumption.splits if_splits)
  moreover have "t_reachable (run_event env) (unblocked env) ?c (tst s')" if "running k ?c" "guest env k q (s\<lparr>tst := ?c\<rparr>) = (e, s')"
    using ok that unfolding env_ok_def by (metis sched.select_convs(3) sched.surjective sched.update_convs(3))
  ultimately show ?thesis using 1 t_reachable_trans by metis
qed

lemma sched_step_reach:
  assumes ok: "env_ok env" and s: "sched_step env s = (b, e, s')"
  shows "t_reachable (run_event env) (unblocked env) (tst s) (tst s')"
proof (cases "runq s")
  case (Cons th rest)
  obtain e1 s1 where t: "thunk env th (s\<lparr>runq := rest, pumping := True\<rparr>) = (e1, s1)" by fastforce
  have "t_reachable (run_event env) (unblocked env) (tst (s\<lparr>runq := rest, pumping := True\<rparr>)) (tst s1)" using ok t unfolding env_ok_def by blast
  then show ?thesis using s Cons t by (auto simp: sched_step_def)
next
  case Nil
  show ?thesis
  proof (cases "List.find (\<lambda>k. ready (unblocked env) k (tst s)) (parked (tst s))")
    case None
    then show ?thesis using s Nil by (auto simp: sched_step_def intro: t_reachable.start)
  next
    case (Some k)
    then have k: "k \<in> set (parked (tst s))" "ready (unblocked env) k (tst s)" by (auto simp: find_Some_iff)
    obtain e1 s1 where t: "resume_parked env k (s\<lparr>pumping := True\<rparr>) = (e1, s1)" by fastforce
    have "t_reachable (run_event env) (unblocked env) (tst (s\<lparr>pumping := True\<rparr>)) (tst s1)"
      by (rule resume_parked_reach [OF ok _ _ t]) (use k in simp_all)
    then show ?thesis using s Nil Some t by (auto simp: sched_step_def)
  qed
qed

lemma sched_step_idle:
  assumes "sched_step env s = (False, e, s')"
  shows "e = None \<and> s' = s \<and> runq s = [] \<and> (\<forall>k \<in> set (parked (tst s)). \<not> ready (unblocked env) k (tst s))"
  using assms by (auto simp: sched_step_def find_None_iff split: list.splits option.splits prod.splits)

lemma not_ready_stuck: "\<not> ready (unblocked env) k st \<Longrightarrow> stuck env k st"
  by (auto simp: ready_def stuck_def cancelDeliverable_def Let_def split: parkKind.splits option.splits)

lemma pumped_reach:
  assumes "env_ok env" "pumped env s s'"
  shows "t_reachable (run_event env) (unblocked env) (tst s) (tst s')"
  using assms(2)
proof (induction rule: pumped.induct)
  case (more s s1 s2)
  then show ?case using sched_step_reach [OF assms(1) more(1)] t_reachable_trans by metis
qed (rule t_reachable.start)

section \<open>The loops\<close>

lemma stopped_more: "sched_step env s = (True, None, s1) \<Longrightarrow> stopped env pred s1 p \<Longrightarrow> stopped env pred s p"
  unfolding stopped_def by (blast intro: pumped.more)

lemma drive_stopped: "drive env pred s = Some p \<Longrightarrow> stopped env pred s p"
proof (rule drive.raw_induct [of "stopped"])
  fix d env and pred :: "('a, 'b, 'c, 'd, 'e) sched \<Rightarrow> bool" and s and p
  assume IH: "\<And>env pred s p. d env pred s = Some p \<Longrightarrow> stopped env pred s p"
    and b: "(if pred s then Some (None, s)
      else case sched_step env s of (progressed, err, s') \<Rightarrow>
          (case err of Some e \<Rightarrow> Some (Some (Step_error e), s')
           | None \<Rightarrow> if progressed then d env pred s' else Some (Some Async_deadlock, s'))) = Some p"
  obtain g e s' where st: "sched_step env s = (g, e, s')" by (cases "sched_step env s")
  show "stopped env pred s p"
  proof (cases "\<not> pred s \<and> e = None \<and> g")
    case True
    then have "d env pred s' = Some p" using b st by simp
    then show ?thesis using stopped_more [of env s s'] st True IH by simp
  next
    case False
    then show ?thesis using b st pumped.none [of env s] sched_step_idle [of env s e s'] unfolding stopped_def
      by (intro exI [of _ s]) (cases g; auto split: if_splits option.splits)
  qed
qed

lemma quiescence_drive:
  "driveToQuiescence env pred s = Some p \<Longrightarrow> \<exists>r. stopped env pred s (r, snd p) \<and>
     fst p = (case r of None \<Rightarrow> Inr True | Some Async_deadlock \<Rightarrow> Inr False | Some (Step_error e) \<Rightarrow> Inl e)"
proof (rule driveToQuiescence.raw_induct [of "\<lambda>env pred s p. \<exists>r. stopped env pred s (r, snd p) \<and>
     fst p = (case r of None \<Rightarrow> Inr True | Some Async_deadlock \<Rightarrow> Inr False | Some (Step_error e) \<Rightarrow> Inl e)"])
  fix d env and pred :: "('a, 'b, 'c, 'd, 'e) sched \<Rightarrow> bool" and s and p
  assume IH: "\<And>env pred s p. d env pred s = Some p \<Longrightarrow> \<exists>r. stopped env pred s (r, snd p) \<and>
     fst p = (case r of None \<Rightarrow> Inr True | Some Async_deadlock \<Rightarrow> Inr False | Some (Step_error e) \<Rightarrow> Inl e)"
    and b: "(if pred s then Some (Inr True, s)
      else case sched_step env s of (progressed, err, s') \<Rightarrow>
          (case err of Some e \<Rightarrow> Some (Inl e, s')
           | None \<Rightarrow> if progressed then d env pred s' else Some (Inr False, s'))) = Some p"
  obtain g e s' where st: "sched_step env s = (g, e, s')" by (cases "sched_step env s")
  show "\<exists>r. stopped env pred s (r, snd p) \<and>
     fst p = (case r of None \<Rightarrow> Inr True | Some Async_deadlock \<Rightarrow> Inr False | Some (Step_error e) \<Rightarrow> Inl e)"
  proof (cases "\<not> pred s \<and> e = None \<and> g")
    case True
    then have "d env pred s' = Some p" using b st by simp
    moreover have "sched_step env s = (True, None, s')" using st True by simp
    ultimately show ?thesis using stopped_more [of env s s' pred] IH [of env pred s' p] by blast
  next
    case False
    have n: "pumped env s s" by (rule pumped.none)
    consider "pred s" "p = (Inr True, s)" | "\<not> pred s" "e = None" "\<not> g" "p = (Inr False, s')" | x where "\<not> pred s" "e = Some x" "p = (Inl x, s')"
      using b st False by (cases e) (auto split: if_splits)
    then show ?thesis
    proof cases
      case 1 then show ?thesis using n by (intro exI [of _ None]) (auto simp: stopped_def)
    next
      case 2 then show ?thesis using n st by (intro exI [of _ "Some Async_deadlock"]) (auto simp: stopped_def)
    next
      case 3 then show ?thesis using n st sched_step_idle [of env s e s'] by (intro exI [of _ "Some (Step_error x)"]) (cases g; auto simp: stopped_def)
    qed
  qed
qed

lemma drive_returns:
  assumes dec: "\<And>s s'. sched_step env s = (True, None, s') \<Longrightarrow> \<not> pred s \<Longrightarrow> (m s' :: nat) < m s"
  shows "\<exists>p. drive env pred s = Some p"
proof (induction "m s" arbitrary: s rule: less_induct)
  case less
  obtain g e s' where st: "sched_step env s = (g, e, s')" by (cases "sched_step env s")
  show ?case
  proof (cases "\<not> pred s \<and> e = None \<and> g")
    case True
    then obtain p where "drive env pred s' = Some p" using less [of s'] dec [of s s'] st by auto
    then show ?thesis using st True by (subst drive.simps) simp
  next
    case False
    then show ?thesis using st by (subst drive.simps) (auto split: option.splits)
  qed
qed

lemma drain_stopped: "drainReady env s = Some p \<Longrightarrow> \<exists>s1. pumped env s s1 \<and>
    (case fst p of None \<Rightarrow> sched_step env s1 = (False, None, snd p) | Some e \<Rightarrow> sched_step env s1 = (True, Some e, snd p))"
proof (rule drainReady.raw_induct [of "\<lambda>env s p. \<exists>s1. pumped env s s1 \<and>
    (case fst p of None \<Rightarrow> sched_step env s1 = (False, None, snd p) | Some e \<Rightarrow> sched_step env s1 = (True, Some e, snd p))"])
  fix d env and s :: "('a, 'b, 'c, 'd, 'e) sched" and p
  assume IH: "\<And>env s p. d env s = Some p \<Longrightarrow> \<exists>s1. pumped env s s1 \<and>
    (case fst p of None \<Rightarrow> sched_step env s1 = (False, None, snd p) | Some e \<Rightarrow> sched_step env s1 = (True, Some e, snd p))"
    and b: "(case sched_step env s of (progressed, err, s') \<Rightarrow>
          (case err of Some e \<Rightarrow> Some (Some e, s') | None \<Rightarrow> if progressed then d env s' else Some (None, s'))) = Some p"
  obtain g e s' where st: "sched_step env s = (g, e, s')" by (cases "sched_step env s")
  show "\<exists>s1. pumped env s s1 \<and>
    (case fst p of None \<Rightarrow> sched_step env s1 = (False, None, snd p) | Some e \<Rightarrow> sched_step env s1 = (True, Some e, snd p))"
  proof (cases "e = None \<and> g")
    case True
    then have "d env s' = Some p" using b st by simp
    moreover have "sched_step env s = (True, None, s')" using st True by simp
    ultimately show ?thesis using IH [of env s' p] pumped.more [of env s s'] by blast
  next
    case False
    then show ?thesis using b st pumped.none [of env s] sched_step_idle [of env s e s'] by (intro exI [of _ s]) (cases g; auto split: option.splits if_splits)
  qed
qed

lemma pump_thunks_reach:
  assumes ok: "env_ok env"
  shows "pump_thunks n env s = (e, s') \<Longrightarrow> t_reachable (run_event env) (unblocked env) (tst s) (tst s')"
proof (induction n arbitrary: s)
  case 0
  then show ?case by (auto intro: t_reachable.start)
next
  case (Suc n)
  obtain g e1 s1 where st: "sched_step env s = (g, e1, s1)" by (cases "sched_step env s")
  have 1: "t_reachable (run_event env) (unblocked env) (tst s) (tst s1)" by (rule sched_step_reach [OF ok st])
  show ?case
  proof (cases e1)
    case None
    then show ?thesis using Suc.IH [of s1] Suc.prems st 1 t_reachable_trans by fastforce
  next
    case (Some x)
    then show ?thesis using Suc.prems st 1 by auto
  qed
qed

lemma resume_each_reach:
  assumes ok: "env_ok env"
  shows "resume_each env ks s = (e, s') \<Longrightarrow> t_reachable (run_event env) (unblocked env) (tst s) (tst s')"
proof (induction ks arbitrary: s)
  case Nil
  then show ?case by (auto intro: t_reachable.start)
next
  case (Cons k ks)
  show ?case
  proof (cases "\<not> isParked k s \<or> \<not> ready (unblocked env) k (tst s)")
    case True
    then show ?thesis using Cons by auto
  next
    case False
    obtain e1 s1 where r: "resume_parked env k (s\<lparr>pumping := True\<rparr>) = (e1, s1)" by fastforce
    have "t_reachable (run_event env) (unblocked env) (tst (s\<lparr>pumping := True\<rparr>)) (tst s1)"
      by (rule resume_parked_reach [OF ok _ _ r]) (use False in \<open>simp_all add: isParked_def\<close>)
    then have 1: "t_reachable (run_event env) (unblocked env) (tst s) (tst s1)" by simp
    show ?thesis
    proof (cases e1)
      case None
      then have "resume_each env ks (s1\<lparr>pumping := False\<rparr>) = (e, s')" using Cons.prems False r by simp
      from Cons.IH [OF this] show ?thesis using 1 t_reachable_trans by fastforce
    next
      case (Some x)
      then show ?thesis using Cons.prems False r 1 by auto
    qed
  qed
qed

lemma pumpSnapshot_reach:
  assumes ok: "env_ok env" and p: "pumpSnapshot env s = (e, s')"
  shows "t_reachable (run_event env) (unblocked env) (tst s) (tst s')"
proof -
  obtain e1 s1 where r: "pump_thunks (length (runq s)) env s = (e1, s1)" by fastforce
  note 1 = pump_thunks_reach [OF ok r]
  show ?thesis
  proof (cases e1)
    case None
    then have "resume_each env (filter (\<lambda>k. ready (unblocked env) k (tst s1)) (parked (tst s1))) s1 = (e, s')" using p r by (simp add: pumpSnapshot_def)
    from resume_each_reach [OF ok this] show ?thesis using 1 t_reachable_trans by fast
  next
    case (Some x)
    then show ?thesis using p r 1 by (auto simp: pumpSnapshot_def)
  qed
qed

lemma stopped_reach:
  assumes ok: "env_ok env" and p: "stopped env pred s (r, s')"
  shows "t_reachable (run_event env) (unblocked env) (tst s) (tst s')"
proof -
  obtain s1 where s1: "pumped env s s1" "s' = s1 \<or> (\<exists>b e. sched_step env s1 = (b, e, s'))"
    using p unfolding stopped_def by (cases r rule: option.exhaust [case_product drive_error.exhaust [of "the r"]]) auto
  show ?thesis using pumped_reach [OF ok s1(1)] s1(2) sched_step_reach [OF ok, of s1] t_reachable_trans by blast
qed

lemma drain_reach:
  assumes ok: "env_ok env" and p: "drainReady env s = Some (r, s')"
  shows "t_reachable (run_event env) (unblocked env) (tst s) (tst s')"
proof -
  obtain s1 where s1: "pumped env s s1" "\<exists>b e. sched_step env s1 = (b, e, s')"
    using drain_stopped [OF p] by (auto split: option.splits)
  show ?thesis using pumped_reach [OF ok s1(1)] s1(2) sched_step_reach [OF ok, of s1] t_reachable_trans by blast
qed

lemma demo_env_ok: "env_ok demo_env"
proof -
  have "t_reachable demo_run demo_none (tst s) (tst s')"
    if r: "running k (tst s)" and g: "guest demo_env k q s = (e, s')" for k q e and s s' :: "(unit, unit, unit, nat, unit) sched"
  proof (cases "\<not> stackful (tasks (tst s) k) \<and> (\<exists>st. taskReturn (Inr [7]) (tst s) = Inr st)")
    case True
    then obtain st where st: "taskReturn (Inr [7]) (tst s) = Inr st" by blast
    have s': "tst s' = advance k 0 st" using g True st by (auto simp: demo_env_def)
    have res: "resolves k False (tst s) st" using st requireActiveTask_running [OF r] returnValues_resolves
      by (auto simp: taskReturn_def)
    have "running k st" "\<not> stackful (tasks st k)"
      using res r st True requireActiveTask_running [OF r]
      by (auto simp: running_def resolves_def taskReturn_def returnValues_def Let_def split: if_splits)
    then have "t_step demo_run demo_none st (advance k 0 st)" by (rule t_step.callback_return)
    then show ?thesis using t_step.task_return [OF r st] s' by (metis t_reachable.start t_reachable.step)
  next
    case False
    then have "tst s' = tst s" using g by (auto simp: demo_env_def split: if_splits sum.splits)
    then show ?thesis by (simp add: t_reachable.start)
  qed
  moreover have "run_event demo_env = demo_run" "unblocked demo_env = demo_none" by (simp_all add: demo_env_def)
  moreover have "t_reachable demo_run demo_none (tst s) (tst s')" if "thunk demo_env q s = (e, s')" for q s e s'
    using that by (auto simp: demo_env_def intro: t_reachable.start)
  ultimately show ?thesis unfolding env_ok_def by auto
qed

lemma resumeReady_parked:
  assumes "resumeReady run k st = Inr (q, st1)"
  shows "parked st1 = remove1 k (parked st)"
proof (cases "park (tasks st k)")
  case parkEntry
  then show ?thesis using assms by (auto simp: resumeReady_def Let_def fail_def cancelResolve_def deliver_def upd_task_def sched_unpark_def upd_inst_def split: if_splits sum.splits)
next
  case parkWait
  then show ?thesis using assms
    by (auto simp: resumeReady_def Let_def deliverPendingCancel_def split: if_splits option.splits sum.splits prod.splits)
next
  case parkYield
  then show ?thesis using assms by (auto simp: resumeReady_def Let_def deliverPendingCancel_def split: if_splits)
qed (use assms in \<open>auto simp: resumeReady_def Let_def\<close>)

lemma continue_parked: "parked (continue_task k q oe le st) = parked st"
  by (simp add: continue_task_def firstRun_def runLoop_def block_resume_def leave_and_fail_def fail_def Let_def split: resumption.splits option.splits)

lemma demo_resume_parked:
  assumes "resume_parked demo_env k s = (None, s')"
  shows "parked (tst s') = remove1 k (parked (tst s)) \<and> runq s' = runq s"
proof -
  obtain q st where q: "resumeReady (run_event demo_env) k (tst s) = Inr (q, st)"
    using assms by (auto simp: resume_parked_def split: sum.splits)
  let ?c = "continue_task k q None None st"
  have "parked ?c = remove1 k (parked (tst s))" using resumeReady_parked [OF q] by (simp add: continue_parked)
  moreover have "parked (tst s') = parked ?c \<and> runq s' = runq s"
  proof -
    have "tst s' = ?c \<and> runq s' = runq s \<or> guest demo_env k q (s\<lparr>tst := ?c\<rparr>) = (None, s')"
      using assms q by (auto simp: resume_parked_def demo_env_def Let_def split: resumption.splits if_splits)
    moreover have "parked (tst s') = parked ?c \<and> runq s' = runq s" if g: "guest demo_env k q (s\<lparr>tst := ?c\<rparr>) = (None, s')"
    proof -
      have ns: "\<not> stackful (tasks ?c k)" using g by (auto simp: demo_env_def split: if_splits)
      obtain st1 where r: "taskReturn (Inr [7]) ?c = Inr st1" "s' = s\<lparr>tst := advance k 0 st1\<rparr>"
        using g ns by (cases "taskReturn (Inr [7]) ?c") (auto simp: demo_env_def)
      have "parked st1 = parked ?c" using r(1) by (auto simp: taskReturn_def returnValues_def Let_def split: if_splits)
      then show ?thesis using r(2) by (simp add: advance_def unpack_simps finishExit_def fail_def Let_def)
    qed
    ultimately show ?thesis by auto
  qed
  ultimately show ?thesis by simp
qed

lemma demo_work_left:
  assumes st: "sched_step demo_env s = (True, None, s')"
  shows "work_left s' < work_left s"
proof (cases "runq s")
  case (Cons q qs)
  then show ?thesis using st by (auto simp: sched_step_def demo_env_def work_left_def)
next
  case Nil
  obtain k where k: "List.find (\<lambda>k. ready (unblocked demo_env) k (tst s)) (parked (tst s)) = Some k"
    using st Nil by (auto simp: sched_step_def split: option.splits)
  then have kin: "k \<in> set (parked (tst s))" by (auto simp: find_Some_iff)
  obtain s1 where s1: "resume_parked demo_env k (s\<lparr>pumping := True\<rparr>) = (None, s1)" "s' = s1\<lparr>pumping := False\<rparr>"
    using st Nil k by (auto simp: sched_step_def split: prod.splits)
  have "parked (tst s') = remove1 k (parked (tst s))" "runq s' = runq s" using demo_resume_parked [OF s1(1)] s1(2) by simp_all
  moreover have "0 < length (parked (tst s))" using kin by (cases "parked (tst s)") auto
  ultimately show ?thesis using kin by (simp add: work_left_def length_remove1)
qed

lemma pump_in_order:
  assumes app: "appends env"
  shows "runq s = qs @ rest \<Longrightarrow> pump_thunks (length qs) env s = run_in_order env qs s"
proof (induction qs arbitrary: s rest)
  case (Cons q qs)
  obtain e s1 where t: "thunk env q (s\<lparr>runq := qs @ rest, pumping := True\<rparr>) = (e, s1)" by fastforce
  obtain new where new: "runq s1 = (qs @ rest) @ new" using app t unfolding appends_def by fastforce
  have IH: "pump_thunks (length qs) env (s1\<lparr>pumping := False\<rparr>) = run_in_order env qs (s1\<lparr>pumping := False\<rparr>)"
    by (rule Cons.IH [of _ "rest @ new"]) (simp add: new)
  have st: "sched_step env s = (True, e, s1\<lparr>pumping := False\<rparr>)" using Cons.prems t by (simp add: sched_step_def)
  show ?case using Cons.prems t st IH by (simp split: option.splits)
qed simp

lemma demo_yielded_inv: "task_inv demo_yielded" "async_inv (asy demo_yielded)"
proof -
  have "t_step demo_run demo_none demo_idle demo_entered" unfolding demo_entered_def
    by (rule t_step.begin_task) (simp_all add: demo_idle_def init_tstate_def idle_inst_def unstarted_def demo_task_def)
  then have "t_reachable demo_run demo_none demo_idle demo_entered" by (rule t_reachable.step [OF t_reachable.start])
  moreover have "t_step demo_run demo_none demo_entered demo_yielded" unfolding demo_yielded_def
    by (rule t_step.callback_return) (simp_all add: running_def demo_entered_simps demo_task_def)
  ultimately have r: "t_reachable demo_run demo_none demo_idle demo_yielded" by (rule t_reachable.step)
  have "task_inv demo_idle" unfolding demo_idle_def by (rule init_tstate_inv) (use demo_start_inv in simp_all)
  moreover have "async_inv (asy demo_idle)" using demo_start_inv(1) by (simp add: demo_idle_def init_tstate_def)
  ultimately show "task_inv demo_yielded" "async_inv (asy demo_yielded)" using t_reachable_inv [OF r] by simp_all
qed

section \<open>Properties\<close>







end
