(* ===== verification/Memory_Interface.thy ===== *)
theory Memory_Interface
  imports Wazy_Prelude
begin

text \<open>
  What the users of a linear memory rely on: reading and writing byte strings at an address, with the answer
  \<^verbatim>\<open>false\<close> exactly where the range leaves the memory. The accessors with a 32-bit and with a 64-bit address provide it.
\<close>

locale byte_memory =
  fixes good :: "'m \<Rightarrow> bool"
    and contents :: "'m \<Rightarrow> bytes"
    and rd :: "'m \<Rightarrow> 'a::len word \<Rightarrow> u64 \<Rightarrow> bytes option option"
    and wr :: "'m \<Rightarrow> 'a::len word \<Rightarrow> bytes \<Rightarrow> (bool \<times> 'm) option"
  assumes rd_exact: "good m \<Longrightarrow> unat k < 2 ^ 63 \<Longrightarrow>
      rd m a k = Some (if unat a + unat k \<le> length (contents m) then Some (bslice (unat a) (unat a + unat k) (contents m)) else None)"
    and wr_exact: "good m \<Longrightarrow> length b < 2 ^ 63 \<Longrightarrow>
      \<exists>m'. wr m a b = Some (unat a + length b \<le> length (contents m), m') \<and> good m' \<and>
        contents m' = (if unat a + length b \<le> length (contents m) then write_at (contents m) (unat a) b else contents m)"
begin

lemma wr_cases:
  assumes "good m" and "length b < 2 ^ 63" and "wr m a b = Some (ok, m')"
  shows "ok \<longleftrightarrow> unat a + length b \<le> length (contents m)" and "good m'"
    and "contents m' = (if ok then write_at (contents m) (unat a) b else contents m)"
    and "length (contents m') = length (contents m)"
  using wr_exact [OF assms(1,2), of a] assms(3) by auto

lemma read_after_write:
  assumes "good m" and "length b < 2 ^ 63" and "wr m a b = Some (True, m')"
  shows "rd m' a (of_nat (length b)) = Some (Some b)"
proof -
  have "unat (of_nat (length b) :: u64) = length b"
    using assms(2) by (simp add: unat_of_nat take_bit_nat_eq_self)
  moreover have "unat a + length b \<le> length (contents m)" using wr_cases [OF assms] by simp
  ultimately show ?thesis
    using wr_cases [OF assms] assms(2) by (simp add: rd_exact)
qed

lemma read_elsewhere:
  assumes "good m" and "length b < 2 ^ 63" and "wr m a b = Some (ok, m')" and "unat k < 2 ^ 63"
    and "unat c + unat k \<le> unat a \<or> unat a + length b \<le> unat c"
  shows "rd m' c k = rd m c k"
proof -
  note w = wr_cases [OF assms(1-3)]
  have "bslice (unat c) (unat c + unat k) (contents m') = bslice (unat c) (unat c + unat k) (contents m)"
    if "unat c + unat k \<le> length (contents m)"
    using w that assms(5) by (simp add: bslice_write_at_disjoint)
  then show ?thesis using w assms(1,4) by (simp add: rd_exact)
qed

text \<open>Little-endian integers of \<open>n\<close> bytes.\<close>

lemma word_after_write:
  fixes v :: "'w::len word"
  assumes "good m" and "LENGTH('w) = 8 * n" and "n < 2 ^ 60" and "wr m a (le_bytes n (unat v)) = Some (True, m')"
  shows "map_option (map_option (\<lambda>b. of_nat (le_nat b))) (rd m' a (of_nat n)) = Some (Some v)"
proof -
  have "unat v < 256 ^ n"
    using unsigned_less [of v] assms(2) by (simp add: power_mult)
  moreover have "rd m' a (of_nat n) = Some (Some (le_bytes n (unat v)))"
    using read_after_write [OF assms(1) _ assms(4)] assms(3) by simp
  ultimately show ?thesis by (simp add: le_nat_le_bytes)
qed

end

end
