(* ===== verification/Wasm_Memory.thy ===== *)
theory Wasm_Memory
  imports Memory_Interface
begin

unbundle bit_operations_syntax

text \<open>
  Linear memory: \<^verbatim>\<open>internal/wasm/memory.go\<close>. An instance exposes a prefix of the region it has allocated; growing moves
  the end of the prefix, and allocates a larger region when the present one is too small. A Go slice
  expression that leaves the region is a panic, here \<open>None\<close>. The pool of released regions is
  \<^verbatim>\<open>internal/wasm/memory_pool.go\<close>. Memories with an allocator of the embedder and the waiters of
  atomic operations are not modelled.
\<close>

section \<open>Memory instances\<close>

definition MemoryPageSizeInBits :: nat where "MemoryPageSizeInBits = 16"

text \<open>\<open>arena\<close> is the region (\<^verbatim>\<open>backing\<close>, or \<^verbatim>\<open>Buffer\<close> up to its capacity) and \<open>bufLen\<close> the length of \<^verbatim>\<open>Buffer\<close>, a prefix of it.\<close>

text \<open>
  \<^verbatim>\<open>pendingRelease.recycle\<close> is a reference to a region: the one the instance still uses, or the one it used before it
  allocated a larger one.
\<close>

datatype pending = NoPending | PendingArena | PendingLeft bytes

record MemoryInstance =
  sizeBytes :: u64
  arena :: bytes
  bufLen :: nat
  memMin :: u64
  memCap :: u64
  memMax :: u64
  Shared :: bool
  IsMemory64 :: bool
  nativeGrowCap :: u64
  growReservePages :: u64
  capHighWater :: u32
  poolable :: bool
  released :: bool
  pendingRelease :: pending

record Memory =
  secMin :: u64
  secCap :: u64
  secMax :: u64
  IsShared :: bool
  secMemory64 :: bool
  capHighWaterPages :: u32

definition Buffer :: "MemoryInstance \<Rightarrow> bytes" where
  "Buffer m = take (bufLen m) (arena m)"

definition MemoryPagesToBytesNum :: "u64 \<Rightarrow> u64" where
  "MemoryPagesToBytesNum pages =
     (if drop_bit MemoryPageSizeInBits 0xFFFFFFFFFFFFFFFF < pages then 0xFFFFFFFFFFFFFFFF else push_bit MemoryPageSizeInBits pages)"

definition memoryBytesNumToPages :: "u64 \<Rightarrow> u64" where
  "memoryBytesNumToPages bytesNum = drop_bit MemoryPageSizeInBits bytesNum"

section \<open>The pool of released regions\<close>

text \<open>
  An entry of the pool is a region with the length of its prefix that may have been written; the
  buckets are keyed by the size of the region. \<open>pick\<close> is the choice of \<^verbatim>\<open>sync.Pool\<close>: an entry of the bucket, or none;
  \<open>noPool\<close> is \<^verbatim>\<open>reproNoMemPool\<close>.
\<close>

type_synonym pools = "u64 \<Rightarrow> (bytes \<times> nat) list"

text \<open>Go's \<^verbatim>\<open>clear(buf)\<close> of a slice of length \<open>n\<close>.\<close>

definition clear_prefix :: "nat \<Rightarrow> bytes \<Rightarrow> bytes" where
  "clear_prefix n b = replicate n 0 @ drop n b"

definition getPooledMemoryBuffer :: "bool \<Rightarrow> nat option \<Rightarrow> pools \<Rightarrow> u64 \<Rightarrow> bytes option \<times> pools" where
  "getPooledMemoryBuffer noPool pick p capBytes =
     (if capBytes = 0 \<or> noPool then (None, p)
      else case pick of
        None \<Rightarrow> (None, p)
      | Some i \<Rightarrow>
          if length (p capBytes) \<le> i then (None, p)
          else
            let (b, n) = p capBytes ! i
            in (Some (clear_prefix n b), p(capBytes := take i (p capBytes) @ drop (Suc i) (p capBytes))))"

definition putPooledMemoryBuffer :: "bool \<Rightarrow> pools \<Rightarrow> bytes \<Rightarrow> nat \<Rightarrow> pools" where
  "putPooledMemoryBuffer noPool p b n =
     (let capBytes = of_nat (length b)
      in if capBytes = 0 \<or> noPool then p else p(capBytes := p capBytes @ [(b, n)]))"

section \<open>New instances\<close>

text \<open>The largest number of pages, and the bytes of the region an instance starts with.\<close>

definition max_pages :: "Memory \<Rightarrow> u64 \<Rightarrow> u64" where
  "max_pages memSec limitPages = max (min limitPages (secMax memSec)) (secMin memSec)"

definition initial_cap :: "Memory \<Rightarrow> u64 \<Rightarrow> u64" where
  "initial_cap memSec limitPages =
     (let capBytes = MemoryPagesToBytesNum (max (min (secCap memSec) (max_pages memSec limitPages)) (secMin memSec));
          hw = MemoryPagesToBytesNum (ucast (capHighWaterPages memSec))
      in if capBytes < hw then min hw (MemoryPagesToBytesNum (max_pages memSec limitPages)) else capBytes)"

definition NewMemoryInstance :: "bool \<Rightarrow> nat option \<Rightarrow> pools \<Rightarrow> Memory \<Rightarrow> u64 \<Rightarrow> MemoryInstance \<times> pools" where
  "NewMemoryInstance noPool pick p memSec limitPages =
     (let minBytes = MemoryPagesToBytesNum (secMin memSec);
          capBytes = initial_cap memSec limitPages;
          (region, p') =
            (if IsShared memSec then (replicate (unat (MemoryPagesToBytesNum (max_pages memSec limitPages))) 0, p)
             else case getPooledMemoryBuffer noPool pick p capBytes of
               (Some pooled, p') \<Rightarrow> (take (unat capBytes) pooled, p')
             | (None, p') \<Rightarrow> (replicate (unat capBytes) 0, p'))
      in (\<lparr>sizeBytes = minBytes, arena = region, bufLen = unat minBytes, memMin = secMin memSec,
           memCap = memoryBytesNumToPages (of_nat (length region)), memMax = max_pages memSec limitPages,
           Shared = IsShared memSec, IsMemory64 = secMemory64 memSec,
           nativeGrowCap = (if IsShared memSec then 0 else of_nat (length region)),
           growReservePages = (if secMin memSec < secCap memSec then secCap memSec - secMin memSec else 0),
           capHighWater = capHighWaterPages memSec, poolable = \<not> IsShared memSec, released = False, pendingRelease = NoPending\<rparr>, p'))"

section \<open>Size and bounds\<close>

definition byteSize :: "MemoryInstance \<Rightarrow> u64" where
  "byteSize m =
     (if released m then 0
      else if sizeBytes m \<noteq> 0 \<or> bufLen m = 0 then sizeBytes m
      else of_nat (bufLen m))"

definition Pages64 :: "MemoryInstance \<Rightarrow> u64" where
  "Pages64 m = memoryBytesNumToPages (byteSize m)"

definition Pages :: "MemoryInstance \<Rightarrow> u32" where
  "Pages m = ucast (memoryBytesNumToPages (byteSize m))"

definition visibleBuffer :: "MemoryInstance \<Rightarrow> bytes option" where
  "visibleBuffer m = (if length (arena m) < unat (byteSize m) then None else Some (take (unat (byteSize m)) (arena m)))"

text \<open>The sum and the carry of \<^verbatim>\<open>bits.Add64\<close>.\<close>

definition Add64 :: "u64 \<Rightarrow> u64 \<Rightarrow> u64 \<times> bool" where
  "Add64 x y = (x + y, x + y < x)"

definition rangeOutOfBounds :: "u64 \<Rightarrow> u64 \<Rightarrow> u64 \<Rightarrow> bool" where
  "rangeOutOfBounds offset n limit = (let (fin, carry) = Add64 offset n in carry \<or> limit < fin)"

definition hasSize :: "MemoryInstance \<Rightarrow> u32 \<Rightarrow> u64 \<Rightarrow> bool" where
  "hasSize m offset byteCount \<longleftrightarrow> ucast offset + byteCount \<le> byteSize m"

definition hasSize64 :: "MemoryInstance \<Rightarrow> u64 \<Rightarrow> u64 \<Rightarrow> bool" where
  "hasSize64 m offset byteCount = (let (fin, carry) = Add64 offset byteCount in \<not> carry \<and> fin \<le> byteSize m)"

section \<open>Reading\<close>

text \<open>
  The bytes an accessor reads, \<open>Some None\<close> being its answer \<^verbatim>\<open>false\<close>: with a 32-bit offset, whose sum with the width
  cannot wrap, and with a 64-bit offset.
\<close>

definition read_bytes :: "MemoryInstance \<Rightarrow> u32 \<Rightarrow> u64 \<Rightarrow> bytes option option" where
  "read_bytes m offset k =
     Option.bind (visibleBuffer m) (\<lambda>buf.
     let off = ucast offset in
     Some (if of_nat (length buf) < off + k then None else Some (bslice (unat off) (unat (off + k)) buf)))"

definition read_bytes_at :: "MemoryInstance \<Rightarrow> u64 \<Rightarrow> u64 \<Rightarrow> bytes option option" where
  "read_bytes_at m offset k =
     Option.bind (visibleBuffer m) (\<lambda>buf.
     Some (if rangeOutOfBounds offset k (of_nat (length buf)) then None else Some (bslice (unat offset) (unat (offset + k)) buf)))"

definition ReadByte_mem :: "MemoryInstance \<Rightarrow> u32 \<Rightarrow> u8 option option" where
  "ReadByte_mem m offset =
     Option.bind (visibleBuffer m) (\<lambda>buf. Some (if of_nat (length buf) \<le> (ucast offset :: u64) then None else Some (buf ! unat offset)))"

definition ReadByteAt :: "MemoryInstance \<Rightarrow> u64 \<Rightarrow> u8 option option" where
  "ReadByteAt m offset =
     Option.bind (visibleBuffer m) (\<lambda>buf. Some (if of_nat (length buf) \<le> offset then None else Some (buf ! unat offset)))"

definition ReadUint16Le :: "MemoryInstance \<Rightarrow> u32 \<Rightarrow> u16 option option" where
  "ReadUint16Le m offset = map_option (map_option (\<lambda>b. of_nat (le_nat b))) (read_bytes m offset 2)"

definition ReadUint16LeAt :: "MemoryInstance \<Rightarrow> u64 \<Rightarrow> u16 option option" where
  "ReadUint16LeAt m offset = map_option (map_option (\<lambda>b. of_nat (le_nat b))) (read_bytes_at m offset 2)"

definition readUint32Le :: "MemoryInstance \<Rightarrow> u32 \<Rightarrow> u32 option option" where
  "readUint32Le m offset = map_option (map_option (\<lambda>b. of_nat (le_nat b))) (read_bytes m offset 4)"

definition ReadUint32LeAt :: "MemoryInstance \<Rightarrow> u64 \<Rightarrow> u32 option option" where
  "ReadUint32LeAt m offset = map_option (map_option (\<lambda>b. of_nat (le_nat b))) (read_bytes_at m offset 4)"

definition readUint64Le :: "MemoryInstance \<Rightarrow> u32 \<Rightarrow> u64 option option" where
  "readUint64Le m offset = map_option (map_option (\<lambda>b. of_nat (le_nat b))) (read_bytes m offset 8)"

definition ReadUint64LeAt :: "MemoryInstance \<Rightarrow> u64 \<Rightarrow> u64 option option" where
  "ReadUint64LeAt m offset = map_option (map_option (\<lambda>b. of_nat (le_nat b))) (read_bytes_at m offset 8)"

definition Read_mem :: "MemoryInstance \<Rightarrow> u32 \<Rightarrow> u32 \<Rightarrow> bytes option option" where
  "Read_mem m offset byteCount = read_bytes m offset (ucast byteCount)"

definition Read64 :: "MemoryInstance \<Rightarrow> u64 \<Rightarrow> u64 \<Rightarrow> bytes option option" where
  "Read64 m offset byteCount = read_bytes_at m offset byteCount"

section \<open>Writing\<close>

definition write_bytes :: "MemoryInstance \<Rightarrow> u32 \<Rightarrow> bytes \<Rightarrow> (bool \<times> MemoryInstance) option" where
  "write_bytes m offset b =
     Option.bind (visibleBuffer m) (\<lambda>buf.
     let off = ucast offset in
     Some (if of_nat (length buf) < off + of_nat (length b) then (False, m)
       else (True, m\<lparr>arena := write_at (arena m) (unat (off :: u64)) b\<rparr>)))"

definition write_bytes_at :: "MemoryInstance \<Rightarrow> u64 \<Rightarrow> bytes \<Rightarrow> (bool \<times> MemoryInstance) option" where
  "write_bytes_at m offset b =
     Option.bind (visibleBuffer m) (\<lambda>buf.
     Some (if rangeOutOfBounds offset (of_nat (length b)) (of_nat (length buf)) then (False, m)
       else (True, m\<lparr>arena := write_at (arena m) (unat offset) b\<rparr>)))"

definition WriteByte :: "MemoryInstance \<Rightarrow> u32 \<Rightarrow> u8 \<Rightarrow> (bool \<times> MemoryInstance) option" where
  "WriteByte m offset v =
     Option.bind (visibleBuffer m) (\<lambda>buf.
     Some (if of_nat (length buf) \<le> (ucast offset :: u64) then (False, m) else (True, m\<lparr>arena := (arena m)[unat offset := v]\<rparr>)))"

definition WriteByteAt :: "MemoryInstance \<Rightarrow> u64 \<Rightarrow> u8 \<Rightarrow> (bool \<times> MemoryInstance) option" where
  "WriteByteAt m offset v =
     Option.bind (visibleBuffer m) (\<lambda>buf.
     Some (if of_nat (length buf) \<le> offset then (False, m) else (True, m\<lparr>arena := (arena m)[unat offset := v]\<rparr>)))"

definition WriteUint16Le :: "MemoryInstance \<Rightarrow> u32 \<Rightarrow> u16 \<Rightarrow> (bool \<times> MemoryInstance) option" where
  "WriteUint16Le m offset v = write_bytes m offset (le_bytes 2 (unat v))"

definition WriteUint16LeAt :: "MemoryInstance \<Rightarrow> u64 \<Rightarrow> u16 \<Rightarrow> (bool \<times> MemoryInstance) option" where
  "WriteUint16LeAt m offset v = write_bytes_at m offset (le_bytes 2 (unat v))"

definition writeUint32Le :: "MemoryInstance \<Rightarrow> u32 \<Rightarrow> u32 \<Rightarrow> (bool \<times> MemoryInstance) option" where
  "writeUint32Le m offset v = write_bytes m offset (le_bytes 4 (unat v))"

definition WriteUint32LeAt :: "MemoryInstance \<Rightarrow> u64 \<Rightarrow> u32 \<Rightarrow> (bool \<times> MemoryInstance) option" where
  "WriteUint32LeAt m offset v = write_bytes_at m offset (le_bytes 4 (unat v))"

definition writeUint64Le :: "MemoryInstance \<Rightarrow> u32 \<Rightarrow> u64 \<Rightarrow> (bool \<times> MemoryInstance) option" where
  "writeUint64Le m offset v = write_bytes m offset (le_bytes 8 (unat v))"

definition WriteUint64LeAt :: "MemoryInstance \<Rightarrow> u64 \<Rightarrow> u64 \<Rightarrow> (bool \<times> MemoryInstance) option" where
  "WriteUint64LeAt m offset v = write_bytes_at m offset (le_bytes 8 (unat v))"

definition Write_mem :: "MemoryInstance \<Rightarrow> u32 \<Rightarrow> bytes \<Rightarrow> (bool \<times> MemoryInstance) option" where
  "Write_mem m offset val = write_bytes m offset val"

definition Write64 :: "MemoryInstance \<Rightarrow> u64 \<Rightarrow> bytes \<Rightarrow> (bool \<times> MemoryInstance) option" where
  "Write64 m offset val = write_bytes_at m offset val"

definition WriteString :: "MemoryInstance \<Rightarrow> u32 \<Rightarrow> bytes \<Rightarrow> (bool \<times> MemoryInstance) option" where
  "WriteString m offset val = write_bytes m offset val"

definition WriteString64 :: "MemoryInstance \<Rightarrow> u64 \<Rightarrow> bytes \<Rightarrow> (bool \<times> MemoryInstance) option" where
  "WriteString64 m offset val = write_bytes_at m offset val"

section \<open>Growing\<close>

definition raiseCapHighWater :: "u64 \<Rightarrow> MemoryInstance \<Rightarrow> MemoryInstance" where
  "raiseCapHighWater capPages m =
     (if 0xFFFFFFFF < capPages then m
      else if ucast capPages \<le> capHighWater m then m else m\<lparr>capHighWater := ucast capPages\<rparr>)"

text \<open>The pages of a region that has to be allocated for \<open>newPages\<close>.\<close>

definition new_cap :: "MemoryInstance \<Rightarrow> u64 \<Rightarrow> u64" where
  "new_cap m newPages =
     (let newCapPages =
        (if growReservePages m = 0 then if newPages < memCap m * 2 then memCap m * 2 else newPages
         else if memMax m - newPages \<le> growReservePages m then memMax m
         else newPages + growReservePages m)
      in if memMax m < newCapPages then memMax m else newCapPages)"

text \<open>\<^verbatim>\<open>copy\<close> into a fresh region of \<open>n\<close> zero bytes.\<close>

definition copy_into_new :: "nat \<Rightarrow> bytes \<Rightarrow> bytes" where
  "copy_into_new n b = take n b @ replicate (n - length b) 0"

definition Grow64 :: "MemoryInstance \<Rightarrow> u64 \<Rightarrow> ((u64 \<times> bool) \<times> MemoryInstance) option" where
  "Grow64 m delta =
     (let currentPages = Pages64 m in
      if delta = 0 then Some ((currentPages, True), m)
      else if memMax m < currentPages \<or> memMax m - currentPages < delta then Some ((0, False), m)
      else
        let newPages = currentPages + delta; newLenBytes = MemoryPagesToBytesNum newPages in
        map_option (\<lambda>m. ((currentPages, True), m\<lparr>sizeBytes := newLenBytes\<rparr>))
          (if memCap m < newPages then
             if Shared m then None
             else
               let newCapPages = new_cap m newPages; newCapBytes = MemoryPagesToBytesNum newCapPages in
               Option.bind (visibleBuffer m) (\<lambda>old.
               if newCapBytes < newLenBytes then None
               else Some (raiseCapHighWater newCapPages
                 (m\<lparr>arena := copy_into_new (unat newCapBytes) old, bufLen := unat newLenBytes, memCap := newCapPages,
                    nativeGrowCap := MemoryPagesToBytesNum newCapPages,
                    pendingRelease := (if pendingRelease m = PendingArena then PendingLeft (arena m) else pendingRelease m)\<rparr>)))
           else if length (arena m) < unat newLenBytes then None
           else Some (m\<lparr>bufLen := unat newLenBytes\<rparr>)))"

definition Grow :: "MemoryInstance \<Rightarrow> u32 \<Rightarrow> ((u32 \<times> bool) \<times> MemoryInstance) option" where
  "Grow m delta = map_option (\<lambda>((previous, ok), m). ((ucast previous, ok), m)) (Grow64 m (ucast delta))"

section \<open>Releasing\<close>

definition dirtyLenLocked :: "MemoryInstance \<Rightarrow> bytes \<Rightarrow> nat" where
  "dirtyLenLocked m backing = min (unat (sizeBytes m)) (length backing)"

text \<open>
  The close of the owner of a memory nobody imports and no call uses: the slice is taken before the memory is
  marked as released, and put into the pool. The close that finds a call in flight leaves the
  region to the last call that leaves, which takes the prefix from the size of that moment.
\<close>

definition close_quiet :: "bool \<Rightarrow> pools \<Rightarrow> MemoryInstance \<Rightarrow> (MemoryInstance \<times> pools) option" where
  "close_quiet noPool p m =
     (if poolable m then
        if length (arena m) < unat (byteSize m) then None
        else if released m then Some (m, p)
        else Some (m\<lparr>released := True\<rparr>, putPooledMemoryBuffer noPool p (arena m) (unat (byteSize m)))
      else Some (m, p))"

definition close_in_flight :: "MemoryInstance \<Rightarrow> MemoryInstance option" where
  "close_in_flight m =
     (if poolable m then
        if length (arena m) < unat (byteSize m) then None
        else if released m then Some m
        else Some (m\<lparr>released := True, pendingRelease := PendingArena\<rparr>)
      else Some m)"

definition exitAfterRelease :: "bool \<Rightarrow> pools \<Rightarrow> MemoryInstance \<Rightarrow> MemoryInstance \<times> pools" where
  "exitAfterRelease noPool p m =
     (m\<lparr>pendingRelease := NoPending\<rparr>,
      case pendingRelease m of
        NoPending \<Rightarrow> p
      | PendingArena \<Rightarrow> putPooledMemoryBuffer noPool p (arena m) (dirtyLenLocked m (arena m))
      | PendingLeft backing \<Rightarrow> putPooledMemoryBuffer noPool p backing (dirtyLenLocked m backing))"

section \<open>Specification vocabulary\<close>

definition zero_above :: "nat \<Rightarrow> bytes \<Rightarrow> bool" where
  "zero_above n b \<longleftrightarrow> (\<forall>x \<in> set (drop n b). x = 0)"

definition mem_ok :: "MemoryInstance \<Rightarrow> bool" where
  "mem_ok m \<longleftrightarrow> \<not> released m \<and> pendingRelease m = NoPending \<and> unat (sizeBytes m) = bufLen m \<and> 65536 dvd bufLen m \<and>
     length (arena m) = 65536 * unat (memCap m) \<and> bufLen m \<le> length (arena m) \<and>
     memCap m \<le> memMax m \<and> unat (memMax m) < 2 ^ 48 \<and> (Shared m \<longrightarrow> memCap m = memMax m) \<and>
     poolable m = (\<not> Shared m) \<and> zero_above (bufLen m) (arena m)"

definition pool_ok :: "pools \<Rightarrow> bool" where
  "pool_ok p \<longleftrightarrow> (\<forall>c. \<forall>(b, n) \<in> set (p c). length b = unat c \<and> n \<le> length b \<and> zero_above n b)"

inductive mem_op :: "MemoryInstance \<Rightarrow> MemoryInstance \<Rightarrow> bool" where
  op_WriteByte: "WriteByte m a v = Some (ok, m') \<Longrightarrow> mem_op m m'"
| op_WriteByteAt: "WriteByteAt m c v = Some (ok, m') \<Longrightarrow> mem_op m m'"
| op_WriteUint16Le: "WriteUint16Le m a u = Some (ok, m') \<Longrightarrow> mem_op m m'"
| op_WriteUint16LeAt: "WriteUint16LeAt m c u = Some (ok, m') \<Longrightarrow> mem_op m m'"
| op_writeUint32Le: "writeUint32Le m a w = Some (ok, m') \<Longrightarrow> mem_op m m'"
| op_WriteUint32LeAt: "WriteUint32LeAt m c w = Some (ok, m') \<Longrightarrow> mem_op m m'"
| op_writeUint64Le: "writeUint64Le m a x = Some (ok, m') \<Longrightarrow> mem_op m m'"
| op_WriteUint64LeAt: "WriteUint64LeAt m c x = Some (ok, m') \<Longrightarrow> mem_op m m'"
| op_Write: "Write_mem m a b = Some (ok, m') \<Longrightarrow> length b < 2 ^ 63 \<Longrightarrow> mem_op m m'"
| op_Write64: "Write64 m c b = Some (ok, m') \<Longrightarrow> length b < 2 ^ 63 \<Longrightarrow> mem_op m m'"
| op_WriteString: "WriteString m a b = Some (ok, m') \<Longrightarrow> length b < 2 ^ 63 \<Longrightarrow> mem_op m m'"
| op_WriteString64: "WriteString64 m c b = Some (ok, m') \<Longrightarrow> length b < 2 ^ 63 \<Longrightarrow> mem_op m m'"
| op_Grow: "Grow m a = Some (r, m') \<Longrightarrow> mem_op m m'"
| op_Grow64: "Grow64 m c = Some (r64, m') \<Longrightarrow> mem_op m m'"

text \<open>Memories come and go: a state is the pool and the open memories.\<close>

inductive memory_life :: "bool \<Rightarrow> pools \<times> MemoryInstance list \<Rightarrow> pools \<times> MemoryInstance list \<Rightarrow> bool" for noPool where
  life_new: "unat (max_pages memSec limitPages) < 2 ^ 48 \<Longrightarrow> NewMemoryInstance noPool pick p memSec limitPages = (m, p') \<Longrightarrow>
    memory_life noPool (p, ms) (p', m # ms)"
| life_op: "i < length ms \<Longrightarrow> mem_op (ms ! i) m' \<Longrightarrow> memory_life noPool (p, ms) (p, ms[i := m'])"
| life_close: "i < length ms \<Longrightarrow> close_quiet noPool p (ms ! i) = Some (m', p') \<Longrightarrow>
    memory_life noPool (p, ms) (p', take i ms @ drop (Suc i) ms)"

text \<open>A linear memory in the abstract: its bytes, and the largest number of pages it may grow to.\<close>

definition spec_grow :: "nat \<Rightarrow> bytes \<Rightarrow> nat \<Rightarrow> (nat \<times> bytes) option" where
  "spec_grow maxPages b delta =
     (if length b div 65536 + delta \<le> maxPages then Some (length b div 65536, b @ replicate (65536 * delta) 0) else None)"

text \<open>The \<open>k\<close> bytes at \<open>i\<close>, where they are inside the memory, and the integer they encode.\<close>

definition spec_read :: "bytes \<Rightarrow> nat \<Rightarrow> nat \<Rightarrow> bytes option" where
  "spec_read b i k = (if i + k \<le> length b then Some (bslice i (i + k) b) else None)"

definition spec_uint :: "bytes \<Rightarrow> nat \<Rightarrow> nat \<Rightarrow> 'w::len word option" where
  "spec_uint b i k = map_option (\<lambda>x. of_nat (le_nat x)) (spec_read b i k)"

text \<open>The result and the instance after growing \<open>m\<close> by \<open>delta\<close> pages, as the abstract memory has them.\<close>

definition grows_to :: "MemoryInstance \<Rightarrow> nat \<Rightarrow> 'w::len word \<times> bool \<Rightarrow> MemoryInstance \<Rightarrow> bool" where
  "grows_to m delta r m' \<longleftrightarrow> mem_ok m' \<and> memMax m' = memMax m \<and>
     (case spec_grow (unat (memMax m)) (Buffer m) delta of
        Some (n, b) \<Rightarrow> r = (of_nat n, True) \<and> Buffer m' = b
      | None \<Rightarrow> r = (0, False) \<and> m' = m)"

text \<open>An instance of one page that may grow to three.\<close>

definition one_page :: MemoryInstance where
  "one_page = fst (NewMemoryInstance True None (\<lambda>_. [])
     \<lparr>secMin = 1, secCap = 1, secMax = 3, IsShared = False, secMemory64 = False, capHighWaterPages = 0\<rparr> 65536)"

text \<open>What a writer has done: its answer is whether the range fits, and only that range has changed.\<close>

definition wrote :: "MemoryInstance \<Rightarrow> nat \<Rightarrow> bytes \<Rightarrow> bool \<times> MemoryInstance \<Rightarrow> bool" where
  "wrote m i b r \<longleftrightarrow> fst r = (i + length b \<le> length (Buffer m)) \<and> mem_ok (snd r) \<and>
     Buffer (snd r) = (if fst r then write_at (Buffer m) i b else Buffer m)"

text \<open>A memory of one page is created, written and closed, and the next one gets its region.\<close>

definition small_sec :: Memory where
  "small_sec = \<lparr>secMin = 1, secCap = 1, secMax = 3, IsShared = False, secMemory64 = False, capHighWaterPages = 0\<rparr>"

text \<open>A memory of two pages with a byte in the second one.\<close>

definition two_pages :: MemoryInstance where
  "two_pages = (let m = fst (NewMemoryInstance True None (\<lambda>_. [])
     \<lparr>secMin = 2, secCap = 2, secMax = 3, IsShared = False, secMemory64 = False, capHighWaterPages = 0\<rparr> 65536)
     in m\<lparr>arena := (arena m)[65540 := 7]\<rparr>)"

section \<open>Pages and bytes\<close>

lemma unat_MemoryPagesToBytesNum:
  assumes "unat pages < 2 ^ 48"
  shows "unat (MemoryPagesToBytesNum pages) = 65536 * unat pages"
proof -
  have "pages \<le> (2 ^ 48 - 1 :: u64)" using assms by (simp add: word_le_nat_alt)
  moreover have "drop_bit MemoryPageSizeInBits (0xFFFFFFFFFFFFFFFF :: u64) = 2 ^ 48 - 1"
    by (simp add: MemoryPageSizeInBits_def)
  ultimately have "MemoryPagesToBytesNum pages = push_bit 16 pages"
    by (simp add: MemoryPagesToBytesNum_def MemoryPageSizeInBits_def)
  also have "unat (push_bit 16 pages) = unat pages * 65536 mod 2 ^ 64"
    by (simp add: push_bit_eq_mult unat_word_ariths)
  also have "\<dots> = 65536 * unat pages" using assms by simp
  finally show ?thesis .
qed

lemma unat_memoryBytesNumToPages: "unat (memoryBytesNumToPages n) = unat n div 65536"
  by (simp add: memoryBytesNumToPages_def MemoryPageSizeInBits_def drop_bit_eq_div unat_div_distrib)

lemma unat_u64_lt: "unat (w :: u64) < 18446744073709551616"
  using unsigned_less [of w] by simp

lemma unat_u32_lt: "unat (w :: u32) < 4294967296"
  using unsigned_less [of w] by simp

lemma unat_of_nat_u64: "n < 18446744073709551616 \<Longrightarrow> unat (of_nat n :: u64) = n"
  by (simp add: unat_of_nat take_bit_nat_eq_self)

lemma unat_add_u64: "unat a + unat b < 18446744073709551616 \<Longrightarrow> unat (a + b :: u64) = unat a + unat b"
  by (simp add: unat_word_ariths)

lemma unat_ucast_u64 [simp]: "unat (ucast (w :: u32) :: u64) = unat w"
  using unat_u32_lt [of w] by (simp add: unsigned_ucast_eq take_bit_nat_eq_self)

lemma rangeOutOfBounds_iff: "rangeOutOfBounds offset n limit \<longleftrightarrow> unat limit < unat offset + unat n"
proof (cases "unat offset + unat n < 18446744073709551616")
  case True
  then show ?thesis by (simp add: rangeOutOfBounds_def Add64_def word_less_nat_alt unat_add_u64)
next
  case False
  have "unat (offset + n) = (unat offset + unat n) mod 18446744073709551616" by (simp add: unat_word_ariths)
  also have "\<dots> = (unat offset + unat n - 18446744073709551616) mod 18446744073709551616"
    using False by (intro le_mod_geq) simp
  also have "\<dots> = unat offset + unat n - 18446744073709551616"
    using unat_u64_lt [of offset] unat_u64_lt [of n] by (intro mod_less) linarith
  finally have "unat (offset + n) = unat offset + unat n - 18446744073709551616" .
  then have "offset + n < offset" using False unat_u64_lt [of n] unfolding word_less_nat_alt by linarith
  moreover have "unat limit < unat offset + unat n" using False unat_u64_lt [of limit] by linarith
  ultimately show ?thesis by (simp add: rangeOutOfBounds_def Add64_def)
qed

lemma hasSize_iff: "unat byteCount < 2 ^ 63 \<Longrightarrow> hasSize m offset byteCount \<longleftrightarrow> unat offset + unat byteCount \<le> unat (byteSize m)"
  using unat_u32_lt [of offset] by (simp add: hasSize_def word_le_nat_alt unat_add_u64)

lemma hasSize64_iff: "hasSize64 m offset byteCount \<longleftrightarrow> unat offset + unat byteCount \<le> unat (byteSize m)"
  using rangeOutOfBounds_iff [of offset byteCount "byteSize m"]
  by (auto simp: hasSize64_def rangeOutOfBounds_def Add64_def not_le not_less)

section \<open>The invariant of an instance\<close>

lemma mem_okD:
  assumes "mem_ok m"
  shows "byteSize m = sizeBytes m" "visibleBuffer m = Some (Buffer m)" "unat (sizeBytes m) = length (Buffer m)"
    "length (Buffer m) = bufLen m" "unat (Pages64 m) * 65536 = length (Buffer m)" "length (Buffer m) < 18446744073709551616"
proof -
  show b: "byteSize m = sizeBytes m" using assms by (auto simp: mem_ok_def byteSize_def)
  show "visibleBuffer m = Some (Buffer m)" "unat (sizeBytes m) = length (Buffer m)" "length (Buffer m) = bufLen m"
    using assms b by (auto simp: mem_ok_def visibleBuffer_def Buffer_def)
  then show "unat (Pages64 m) * 65536 = length (Buffer m)" "length (Buffer m) < 18446744073709551616"
    using assms b unat_u64_lt [of "sizeBytes m"]
    by (auto simp: mem_ok_def Pages64_def unat_memoryBytesNumToPages)
qed

lemma zero_above_write:
  assumes "zero_above n b" and "off + length v \<le> n" and "n \<le> length b"
  shows "zero_above n (write_at b off v)"
proof -
  have "drop n (write_at b off v) = drop n b"
    using assms(2,3) by (auto simp: write_at_def intro!: nth_equalityI)
  with assms(1) show ?thesis by (simp add: zero_above_def)
qed

lemma take_write_at:
  assumes "off + length v \<le> n" and "n \<le> length b"
  shows "take n (write_at b off v) = write_at (take n b) off v"
  using assms by (intro nth_equalityI) (auto simp: nth_write_at)

lemma list_update_write_at: "i < length b \<Longrightarrow> b[i := v] = write_at b i [v]"
  by (simp add: write_at_def upd_conv_take_nth_drop)

text \<open>A write inside the visible prefix.\<close>

lemma mem_ok_write:
  assumes "mem_ok m" and "off + length b \<le> bufLen m"
  shows "mem_ok (m\<lparr>arena := write_at (arena m) off b\<rparr>)"
    and "Buffer (m\<lparr>arena := write_at (arena m) off b\<rparr>) = write_at (Buffer m) off b"
  using assms by (auto simp: mem_ok_def Buffer_def take_write_at intro: zero_above_write)

lemma read_bytes_exact:
  assumes "mem_ok m" and "unat k < 2 ^ 63"
  shows "read_bytes m offset k = Some (if unat offset + unat k \<le> length (Buffer m)
    then Some (bslice (unat offset) (unat offset + unat k) (Buffer m)) else None)"
proof -
  have "unat (ucast offset + k :: u64) = unat offset + unat k"
    using assms(2) unat_u32_lt [of offset] by (simp add: unat_add_u64)
  moreover note mem_okD [OF assms(1)]
  ultimately show ?thesis
    by (auto simp: read_bytes_def Let_def word_less_nat_alt unat_of_nat_u64)
qed

lemma read_bytes_at_exact:
  assumes "mem_ok m"
  shows "read_bytes_at m offset k = Some (if unat offset + unat k \<le> length (Buffer m)
    then Some (bslice (unat offset) (unat offset + unat k) (Buffer m)) else None)"
proof -
  note o = mem_okD [OF assms]
  have "unat (offset + k) = unat offset + unat k" if "unat offset + unat k \<le> length (Buffer m)"
    using that o(6) by (simp add: unat_add_u64)
  with o show ?thesis by (auto simp: read_bytes_at_def rangeOutOfBounds_iff unat_of_nat_u64)
qed

lemma write_bytes_exact:
  assumes "mem_ok m" and "length b < 2 ^ 63"
  shows "write_bytes m offset b = Some (if unat offset + length b \<le> length (Buffer m)
    then (True, m\<lparr>arena := write_at (arena m) (unat offset) b\<rparr>) else (False, m))"
proof -
  have "unat (ucast offset + of_nat (length b) :: u64) = unat offset + length b"
    using assms(2) unat_u32_lt [of offset] by (simp add: unat_add_u64 unat_of_nat_u64)
  moreover note mem_okD [OF assms(1)]
  ultimately show ?thesis
    by (auto simp: write_bytes_def Let_def word_less_nat_alt unat_of_nat_u64)
qed

lemma write_bytes_at_exact:
  assumes "mem_ok m" and "length b < 2 ^ 63"
  shows "write_bytes_at m offset b = Some (if unat offset + length b \<le> length (Buffer m)
    then (True, m\<lparr>arena := write_at (arena m) (unat offset) b\<rparr>) else (False, m))"
  using mem_okD [OF assms(1)] assms(2)
  by (auto simp: write_bytes_at_def rangeOutOfBounds_iff unat_of_nat_u64)

interpretation mem32: byte_memory mem_ok Buffer read_bytes write_bytes
proof (unfold_locales, goal_cases)
  case (1 m k a)
  then show ?case by (rule read_bytes_exact)
next
  case (2 m b a)
  then show ?case using mem_okD [OF 2(1)] by (auto simp: write_bytes_exact mem_ok_write)
qed

interpretation mem64: byte_memory mem_ok Buffer read_bytes_at write_bytes_at
proof (unfold_locales, goal_cases)
  case (1 m k a)
  then show ?case by (intro read_bytes_at_exact)
next
  case (2 m b a)
  then show ?case using mem_okD [OF 2(1)] by (auto simp: write_bytes_at_exact mem_ok_write)
qed

lemma WriteByte_exact:
  assumes "mem_ok m"
  shows "WriteByte m offset v = write_bytes m offset [v]"
  using mem_okD [OF assms] assms
  by (auto simp: WriteByte_def write_bytes_exact word_le_nat_alt unat_of_nat_u64 mem_ok_def list_update_write_at)

lemma WriteByteAt_exact:
  assumes "mem_ok m"
  shows "WriteByteAt m offset v = write_bytes_at m offset [v]"
  using mem_okD [OF assms] assms
  by (auto simp: WriteByteAt_def write_bytes_at_exact word_le_nat_alt unat_of_nat_u64 mem_ok_def list_update_write_at)

section \<open>Growing\<close>

lemma unat_double_cap: "unat (c :: u64) < 2 ^ 48 \<Longrightarrow> unat (c * 2) = 2 * unat c"
  by (simp add: unat_word_ariths)

lemma new_cap_bounds:
  assumes "newPages \<le> memMax m"
  shows "newPages \<le> new_cap m newPages" and "new_cap m newPages \<le> memMax m"
proof -
  have "newPages \<le> newPages + growReservePages m" if "\<not> memMax m - newPages \<le> growReservePages m"
  proof -
    have "unat (memMax m - newPages) = unat (memMax m) - unat newPages" using assms by (simp add: unat_sub word_le_nat_alt)
    with that have "unat newPages + unat (growReservePages m) < 18446744073709551616"
      using unat_u64_lt [of "memMax m"] by (simp add: word_le_nat_alt)
    then show ?thesis by (simp add: word_le_nat_alt unat_add_u64)
  qed
  with assms show "newPages \<le> new_cap m newPages" "new_cap m newPages \<le> memMax m"
    by (auto simp: new_cap_def Let_def not_less)
qed

lemma raiseCapHighWater_mem_ok [simp]:
  "mem_ok (raiseCapHighWater c m) = mem_ok m" "Buffer (raiseCapHighWater c m) = Buffer m"
  "memMax (raiseCapHighWater c m) = memMax m"
  "(raiseCapHighWater c m)\<lparr>sizeBytes := z\<rparr> = raiseCapHighWater c (m\<lparr>sizeBytes := z\<rparr>)"
  by (auto simp: raiseCapHighWater_def mem_ok_def Buffer_def)

lemma zero_above_replicate [simp]: "zero_above n (b @ replicate k 0) \<longleftrightarrow> zero_above n b"
  by (auto simp: zero_above_def dest: in_set_dropD)

lemma zero_above_mono: "zero_above n b \<Longrightarrow> n \<le> n' \<Longrightarrow> zero_above n' b"
  using set_drop_subset_set_drop [of n n' b] by (auto simp: zero_above_def)

lemma zero_above_len [simp]: "length b \<le> n \<Longrightarrow> zero_above n b"
  by (simp add: zero_above_def)

lemma take_zero_above:
  assumes "zero_above n b" and "n \<le> k" and "k \<le> length b"
  shows "take k b = take n b @ replicate (k - n) 0"
proof -
  have "take (k - n) (drop n b) = replicate (k - n) 0"
    using assms by (intro replicate_eqI) (auto simp: zero_above_def dest!: in_set_takeD)
  moreover have "take k b = take n b @ take (k - n) (drop n b)"
    using assms(2) by (metis le_add_diff_inverse take_add)
  ultimately show ?thesis by simp
qed

text \<open>Growing inside the region, and into a new region.\<close>

lemma grow_in_place:
  assumes "mem_ok m" and "n \<le> memCap m" and "65536 * unat n = unat z" and "unat (Pages64 m) \<le> unat n"
  shows "mem_ok (m\<lparr>bufLen := unat z, sizeBytes := z\<rparr>)" (is ?ok)
    and "Buffer (m\<lparr>bufLen := unat z, sizeBytes := z\<rparr>) = Buffer m @ replicate (unat z - length (Buffer m)) 0" (is ?buf)
    and "unat z \<le> length (arena m)"
proof -
  have le: "bufLen m \<le> unat z" using mem_okD [OF assms(1)] assms(3,4) by simp
  show len: "unat z \<le> length (arena m)" using assms by (simp add: mem_ok_def word_le_nat_alt)
  show ?ok using assms(1) assms(3) [symmetric] le len by (auto simp: mem_ok_def intro: zero_above_mono)
  show ?buf using assms(1) le len by (simp add: Buffer_def mem_ok_def take_zero_above)
qed

lemma grow_by_copy:
  fixes nc :: u64
  assumes "mem_ok m" and "\<not> Shared m" and "n \<le> c" and "c \<le> memMax m" and "65536 * unat n = unat z"
    and "unat (Pages64 m) \<le> unat n"
  defines "m' \<equiv> m\<lparr>arena := copy_into_new (65536 * unat c) (Buffer m), bufLen := unat z, memCap := c, nativeGrowCap := nc,
      pendingRelease := (if pendingRelease m = PendingArena then PendingLeft (arena m) else pendingRelease m), sizeBytes := z\<rparr>"
  shows "mem_ok m'" and "Buffer m' = Buffer m @ replicate (unat z - length (Buffer m)) 0"
proof -
  have le: "length (Buffer m) \<le> unat z" using mem_okD [OF assms(1)] assms(5,6) by simp
  have z: "unat z \<le> 65536 * unat c" using assms(3,5) by (simp add: word_le_nat_alt)
  have len: "length (copy_into_new (65536 * unat c) (Buffer m)) = 65536 * unat c"
    using le z by (simp add: copy_into_new_def)
  show "mem_ok m'"
    using assms(1,2,4) assms(5) [symmetric] le z len
    by (simp add: mem_ok_def m'_def copy_into_new_def)
  have "Buffer m' = take (unat z) (copy_into_new (65536 * unat c) (Buffer m))"
    by (simp add: m'_def Buffer_def)
  then show "Buffer m' = Buffer m @ replicate (unat z - length (Buffer m)) 0"
    using le z by (simp add: copy_into_new_def min_def)
qed

lemma Grow64_exact:
  assumes "mem_ok m"
  shows "\<exists>m'. Grow64 m delta =
      Some (if unat (Pages64 m) + unat delta \<le> unat (memMax m) then (Pages64 m, True) else (0, False), m') \<and>
    mem_ok m' \<and> memMax m' = memMax m \<and>
    Buffer m' = Buffer m @ replicate (if unat (Pages64 m) + unat delta \<le> unat (memMax m) then 65536 * unat delta else 0) 0"
proof -
  note o = mem_okD [OF assms]
  have cm: "memCap m \<le> memMax m" and mx: "unat (memMax m) < 2 ^ 48" using assms by (simp_all add: mem_ok_def)
  have "bufLen m \<le> 65536 * unat (memCap m)" using assms by (simp add: mem_ok_def)
  then have pc: "unat (Pages64 m) \<le> unat (memCap m)" using o by simp
  then have pm: "Pages64 m \<le> memMax m" using cm by (simp add: word_le_nat_alt)
  have fits: "memMax m < Pages64 m \<or> memMax m - Pages64 m < delta \<longleftrightarrow> \<not> unat (Pages64 m) + unat delta \<le> unat (memMax m)"
    using pm by (auto simp: word_less_nat_alt unat_sub word_le_nat_alt)
  consider "delta = 0" | "delta \<noteq> 0" "\<not> unat (Pages64 m) + unat delta \<le> unat (memMax m)"
    | "delta \<noteq> 0" "unat (Pages64 m) + unat delta \<le> unat (memMax m)" by blast
  then show ?thesis
  proof cases
    case 1
    with assms pm show ?thesis by (simp add: Grow64_def word_le_nat_alt)
  next
    case 2
    with assms show ?thesis by (simp add: Grow64_def fits)
  next
    case 3
    define n where "n = Pages64 m + delta"
    define z where "z = MemoryPagesToBytesNum n"
    have n: "unat n = unat (Pages64 m) + unat delta" using 3 mx by (simp add: n_def unat_add_u64)
    have nm: "n \<le> memMax m" using 3 n by (simp add: word_le_nat_alt)
    have z: "65536 * unat n = unat z" unfolding z_def using 3 n mx by (subst unat_MemoryPagesToBytesNum) simp_all
    have d: "unat z - length (Buffer m) = 65536 * unat delta" using z n o by simp
    show ?thesis
    proof (cases "memCap m < n")
      case False
      then have nc: "n \<le> memCap m" by simp
      note g = grow_in_place [OF assms nc z]
      from False 3 n g d show ?thesis
        by (simp add: Grow64_def fits Let_def flip: n_def z_def)
    next
      case True
      then have sh: "\<not> Shared m" using assms nm by (auto simp: mem_ok_def)
      note c = new_cap_bounds [OF nm]
      have cb: "unat (MemoryPagesToBytesNum (new_cap m n)) = 65536 * unat (new_cap m n)"
        using c(2) mx by (subst unat_MemoryPagesToBytesNum) (simp_all add: word_le_nat_alt)
      have zc: "\<not> MemoryPagesToBytesNum (new_cap m n) < z"
        using c(1) z cb by (simp add: word_less_nat_alt word_le_nat_alt)
      note g = grow_by_copy [OF assms sh c z]
      from True sh 3 n d g zc cb o show ?thesis
        by (simp add: Grow64_def fits Let_def flip: n_def z_def)
    qed
  qed
qed

section \<open>The pool and new instances\<close>

lemma get_pooled_zero:
  assumes "pool_ok p" and "getPooledMemoryBuffer noPool pick p c = (r, p')"
  shows "pool_ok p'" and "r = Some b \<Longrightarrow> b = replicate (unat c) 0"
proof -
  have e: "length b = unat c \<and> n \<le> length b \<and> zero_above n b" if "i < length (p c)" "p c ! i = (b, n)" for i b n
    using assms(1) nth_mem [OF that(1)] that(2) by (auto simp: pool_ok_def)
  have clr: "clear_prefix n b = replicate (unat c) 0" if "length b = unat c \<and> n \<le> length b \<and> zero_above n b" for n b
    using that by (intro replicate_eqI) (auto simp: clear_prefix_def zero_above_def)
  show "r = Some b \<Longrightarrow> b = replicate (unat c) 0"
    using assms(2) by (auto simp: getPooledMemoryBuffer_def Let_def not_le dest: e [THEN clr] split: if_splits option.splits prod.splits)
  have "set (p' d) \<subseteq> set (p d)" for d
    using assms(2)
    by (auto simp: getPooledMemoryBuffer_def Let_def split: if_splits option.splits prod.splits dest!: in_set_takeD in_set_dropD)
  with assms(1) show "pool_ok p'" unfolding pool_ok_def by blast
qed

lemma put_pool_ok:
  assumes "pool_ok p" and "n \<le> length b" and "zero_above n b" and "length b < 18446744073709551616"
  shows "pool_ok (putPooledMemoryBuffer noPool p b n)"
proof -
  have "length a = unat (of_nat (length b) :: u64) \<and> k \<le> length a \<and> zero_above k a"
    if "(a, k) \<in> set (p (of_nat (length b)))" for a k
    using assms(1) that by (auto simp: pool_ok_def)
  with assms show ?thesis
    by (auto simp: pool_ok_def putPooledMemoryBuffer_def Let_def unat_of_nat_u64)
qed

lemma MemoryPagesToBytesNum_less:
  assumes "unat a < 2 ^ 48" and "unat b < 2 ^ 48"
  shows "MemoryPagesToBytesNum a < MemoryPagesToBytesNum b \<longleftrightarrow> a < b"
  using assms by (simp add: word_less_nat_alt unat_MemoryPagesToBytesNum)

lemma initial_cap_pages:
  assumes "unat (max_pages s l) < 2 ^ 48"
  obtains c where "initial_cap s l = MemoryPagesToBytesNum c" and "secMin s \<le> c" and "c \<le> max_pages s l" and "unat c < 2 ^ 48"
proof -
  define c where "c = max (min (secCap s) (max_pages s l)) (secMin s)"
  define h :: u64 where "h = ucast (capHighWaterPages s)"
  have c: "secMin s \<le> c" "c \<le> max_pages s l" by (auto simp: c_def max_pages_def)
  have b: "unat c < 2 ^ 48" "unat h < 2 ^ 48"
    using c(2) assms unat_u32_lt [of "capHighWaterPages s"] by (auto simp: h_def word_le_nat_alt)
  note lt = MemoryPagesToBytesNum_less [OF b] MemoryPagesToBytesNum_less [OF assms b(2)]
  have i: "initial_cap s l = (if MemoryPagesToBytesNum c < MemoryPagesToBytesNum h
      then min (MemoryPagesToBytesNum h) (MemoryPagesToBytesNum (max_pages s l)) else MemoryPagesToBytesNum c)"
    by (simp add: initial_cap_def Let_def c_def h_def)
  show ?thesis
  proof (cases "c < h")
    case True
    then have "initial_cap s l = MemoryPagesToBytesNum (min h (max_pages s l))"
      using lt i by (auto simp: min_def not_less not_le)
    then show ?thesis using True c b assms by (intro that [of "min h (max_pages s l)"]) (auto simp: min_def)
  next
    case False
    then show ?thesis using that [of c] lt i c b by simp
  qed
qed

lemma NewMemoryInstance_ok:
  assumes "unat (max_pages s l) < 2 ^ 48" and "pool_ok p" and new: "NewMemoryInstance noPool pick p s l = (m, p')"
  shows "mem_ok m" and "Buffer m = replicate (65536 * unat (secMin s)) 0" and "memMax m = max_pages s l" and "pool_ok p'"
proof -
  obtain c where c: "initial_cap s l = MemoryPagesToBytesNum c" "secMin s \<le> c" "c \<le> max_pages s l" "unat c < 2 ^ 48"
    using initial_cap_pages [OF assms(1)] .
  define q where "q = (if IsShared s then max_pages s l else c)"
  obtain r pq where g: "getPooledMemoryBuffer noPool pick p (initial_cap s l) = (r, pq)" by fastforce
  note z = get_pooled_zero [OF assms(2) g]
  have q: "secMin s \<le> q" "q \<le> max_pages s l" "unat q < 2 ^ 48"
    using c assms(1) by (auto simp: q_def)
  have mn: "unat (secMin s) < 2 ^ 48" using q by (simp add: word_le_nat_alt)
  have "arena m = replicate (65536 * unat q) 0 \<and> p' = (if IsShared s then p else pq)"
    using new g z(2) c assms(1) q
    by (auto simp: NewMemoryInstance_def Let_def q_def unat_MemoryPagesToBytesNum split: option.splits if_splits)
  then have a: "arena m = replicate (65536 * unat q) 0" and p': "p' = (if IsShared s then p else pq)" by auto
  have f: "sizeBytes m = MemoryPagesToBytesNum (secMin s)" "bufLen m = 65536 * unat (secMin s)"
     "memCap m = memoryBytesNumToPages (of_nat (length (arena m)))" "memMax m = max_pages s l"
     "Shared m = IsShared s" "poolable m = (\<not> IsShared s)" "\<not> released m" "pendingRelease m = NoPending"
    using new mn by (auto simp: NewMemoryInstance_def Let_def unat_MemoryPagesToBytesNum split: prod.splits option.splits)
  have "unat (memCap m) = unat q"
    using q(3) unat_of_nat_u64 [of "65536 * unat q"] by (simp add: f(3) a unat_memoryBytesNumToPages del: of_nat_mult)
  then have cap: "memCap m = q" by (simp add: word_unat_eq_iff)
  show "mem_ok m"
    using q mn assms(1) f cap a
    by (auto simp: mem_ok_def unat_MemoryPagesToBytesNum word_le_nat_alt q_def zero_above_def)
  show "Buffer m = replicate (65536 * unat (secMin s)) 0"
    using q(1) f a by (simp add: Buffer_def word_le_nat_alt min_def)
  show "memMax m = max_pages s l" "pool_ok p'" using f p' z assms(2) by auto
qed

lemma mem_op_ok:
  assumes "mem_op m m'" and "mem_ok m"
  shows "mem_ok m'"
  using assms
proof cases
  case (op_Grow a r)
  then obtain r' where "Grow64 m (ucast a) = Some (r', m')" by (auto simp: Grow_def)
  with Grow64_exact [OF assms(2), of "ucast a"] show ?thesis by auto
next
  case (op_Grow64 c r)
  with Grow64_exact [OF assms(2), of c] show ?thesis by auto
qed (auto simp: WriteByte_exact WriteByteAt_exact WriteUint16Le_def WriteUint16LeAt_def writeUint32Le_def WriteUint32LeAt_def
    writeUint64Le_def WriteUint64LeAt_def Write_mem_def Write64_def WriteString_def WriteString64_def
    elim!: mem32.wr_cases(2) [rotated 2] mem64.wr_cases(2) [rotated 2] intro: assms(2))

lemma close_quiet_pool_ok:
  assumes "close_quiet noPool p m = Some (m', p')" and "mem_ok m" and "pool_ok p"
  shows "pool_ok p'"
proof -
  have "length (arena m) < 18446744073709551616"
    using assms(2) by (auto simp: mem_ok_def word_le_nat_alt)
  then show ?thesis
    using assms mem_okD [OF assms(2)]
    by (auto simp: close_quiet_def mem_ok_def intro!: put_pool_ok split: if_splits)
qed

lemma memory_life_ok:
  assumes "(memory_life noPool)\<^sup>*\<^sup>* (\<lambda>_. [], []) (p, ms)"
  shows "pool_ok p \<and> (\<forall>m \<in> set ms. mem_ok m)"
proof -
  have "pool_ok (fst s) \<and> (\<forall>m \<in> set (snd s). mem_ok m)" if "(memory_life noPool)\<^sup>*\<^sup>* (\<lambda>_. [], []) s" for s
    using that
  proof (induction rule: rtranclp_induct)
    case base
    show ?case by (simp add: pool_ok_def)
  next
    case (step s t)
    from step.hyps(2) step.IH show ?case
    proof cases
      case (life_new memSec limitPages pick p m p' ms)
      with step.IH NewMemoryInstance_ok [OF life_new(3) _ life_new(4)] show ?thesis by auto
    next
      case (life_op i ms m' p)
      with step.IH have "mem_ok m'" by (auto intro: mem_op_ok)
      with step.IH life_op show ?thesis by (auto dest: set_update_subset_insert [THEN subsetD])
    next
      case (life_close i ms p m' p')
      with step.IH have "mem_ok (ms ! i)" by auto
      with life_close step.IH close_quiet_pool_ok show ?thesis by (fastforce dest: in_set_takeD in_set_dropD)
    qed
  qed
  from this [OF assms] show ?thesis by simp
qed

section \<open>Properties\<close>

lemma Grow64_refused:
  assumes "Grow64 m delta = Some ((r, False), m')"
  shows "m' = m"
  using assms by (auto simp: Grow64_def Let_def split: if_splits)

lemma Grow64_grows_to:
  assumes "mem_ok m"
  shows "\<exists>r m'. Grow64 m delta = Some (r, m') \<and> grows_to m (unat delta) r m'"
proof -
  have p: "unat (Pages64 m) = length (Buffer m) div 65536" using mem_okD(5) [OF assms] by simp
  moreover have "Pages64 m = of_nat (length (Buffer m) div 65536)" by (simp flip: p)
  ultimately show ?thesis
    using Grow64_exact [OF assms, of delta] Grow64_refused [of m delta]
    by (auto simp: spec_grow_def grows_to_def split: if_splits)
qed

lemma ucast_of_nat_u32: "ucast (of_nat n :: u64) = (of_nat n :: u32)"
  by (simp add: unsigned_of_nat word_of_nat_eq_iff)

text \<open>
  C5. Growing refines the abstract memory: \<open>Grow64\<close> never panics on an instance in order, returns the old number of
  pages and appends zero pages exactly when the maximum allows it, and otherwise changes nothing; \<open>Grow\<close> does the same with
  a 32-bit count. Whether the region had room or a larger one was allocated cannot be seen.
\<close>

theorem Grow64_refines_linear_memory:
  assumes "mem_ok m"
  shows "(\<exists>r m'. Grow64 m delta = Some (r, m') \<and> grows_to m (unat delta) r m') \<and>
    (\<exists>r m'. Grow m d32 = Some (r, m') \<and> grows_to m (unat d32) r m')"
  using Grow64_grows_to [OF assms, of delta] Grow64_grows_to [OF assms, of "ucast d32"]
  by (auto simp: Grow_def grows_to_def ucast_of_nat_u32 split: option.splits)

lemma one_page_ok: "mem_ok one_page" "Buffer one_page = replicate 65536 0" "memMax one_page = 3" "poolable one_page"
proof -
  define s where "s = \<lparr>secMin = 1, secCap = 1, secMax = 3, IsShared = False, secMemory64 = False, capHighWaterPages = (0 :: u32)\<rparr>"
  obtain p' where n: "NewMemoryInstance True None (\<lambda>_. []) s 65536 = (one_page, p')"
    by (metis one_page_def s_def prod.collapse)
  have mx: "max_pages s 65536 = 3" by (simp add: s_def max_pages_def)
  have "pool_ok (\<lambda>_. [])" by (simp add: pool_ok_def)
  note k = NewMemoryInstance_ok [OF _ this n]
  show "mem_ok one_page" "Buffer one_page = replicate 65536 0" "memMax one_page = 3" using k mx by (simp_all add: s_def)
  show "poolable one_page" by (simp add: one_page_def NewMemoryInstance_def getPooledMemoryBuffer_def Let_def)
qed

theorem Grow64_refines_linear_memory_witness:
  "\<exists>m'. Grow64 one_page 2 = Some ((1, True), m') \<and> mem_ok m' \<and> Buffer m' = replicate 196608 0"
  using Grow64_refines_linear_memory [OF one_page_ok(1), of 2 0] one_page_ok
  by (auto simp: spec_grow_def grows_to_def simp flip: replicate_add)

lemma ReadByte_mem_exact: "mem_ok m \<Longrightarrow> ReadByte_mem m a = Some (if unat a < length (Buffer m) then Some (Buffer m ! unat a) else None)"
  using mem_okD [of m] by (auto simp: ReadByte_mem_def word_le_nat_alt unat_of_nat_u64)

lemma ReadByteAt_exact: "mem_ok m \<Longrightarrow> ReadByteAt m a = Some (if unat a < length (Buffer m) then Some (Buffer m ! unat a) else None)"
  using mem_okD [of m] by (auto simp: ReadByteAt_def word_le_nat_alt unat_of_nat_u64)

lemma le_nat_zeros: "le_nat (replicate n 0) = 0"
  by (induction n) simp_all

text \<open>
  C14. The readers answer exactly where the whole range lies inside the memory, in natural numbers, with a 32-bit and
  with a 64-bit address: no sum of an address and a width wraps around into the memory. None of them panics.
\<close>

theorem readers_exact:
  assumes "mem_ok m"
  shows "ReadByte_mem m a = Some (if unat a < length (Buffer m) then Some (Buffer m ! unat a) else None) \<and>
    ReadByteAt m c = Some (if unat c < length (Buffer m) then Some (Buffer m ! unat c) else None) \<and>
    ReadUint16Le m a = Some (spec_uint (Buffer m) (unat a) 2) \<and> ReadUint16LeAt m c = Some (spec_uint (Buffer m) (unat c) 2) \<and>
    readUint32Le m a = Some (spec_uint (Buffer m) (unat a) 4) \<and> ReadUint32LeAt m c = Some (spec_uint (Buffer m) (unat c) 4) \<and>
    readUint64Le m a = Some (spec_uint (Buffer m) (unat a) 8) \<and> ReadUint64LeAt m c = Some (spec_uint (Buffer m) (unat c) 8) \<and>
    Read_mem m a n = Some (spec_read (Buffer m) (unat a) (unat n)) \<and> Read64 m c k = Some (spec_read (Buffer m) (unat c) (unat k)) \<and>
    hasSize64 m c k = (unat c + unat k \<le> length (Buffer m))"
proof -
  have n: "unat (ucast n :: u64) < 2 ^ 63" using unat_u32_lt [of n] by simp
  note u = ReadUint16Le_def ReadUint16LeAt_def readUint32Le_def ReadUint32LeAt_def readUint64Le_def ReadUint64LeAt_def
  show ?thesis
    using assms n by (simp add: ReadByte_mem_exact ReadByteAt_exact u Read_mem_def Read64_def read_bytes_exact read_bytes_at_exact
        spec_uint_def spec_read_def hasSize64_iff mem_okD)
qed

theorem readers_exact_witness:
  "ReadUint32LeAt one_page 65532 = Some (Some 0) \<and> ReadUint32LeAt one_page 65533 = Some None \<and>
   ReadUint32LeAt one_page 0xFFFFFFFFFFFFFFFE = Some None \<and> readUint64Le one_page 0xFFFFFFFF = Some None"
proof -
  have b: "bslice 65532 65536 (replicate 65536 0 :: bytes) = replicate 4 0" by (simp add: bslice_def)
  note e = readers_exact [OF one_page_ok(1)]
  show ?thesis
    using e [of 0 65532 0 0] e [of 0 65533 0 0] e [of 0 "0xFFFFFFFFFFFFFFFE" 0 0] e [of "0xFFFFFFFF" 0 0 0] b
    by (simp add: one_page_ok spec_uint_def spec_read_def le_nat_zeros)
qed

lemma write_bytes_wrote: "mem_ok m \<Longrightarrow> length b < 2 ^ 63 \<Longrightarrow> \<exists>r. write_bytes m a b = Some r \<and> wrote m (unat a) b r"
  using mem32.wr_exact [of m b a] by (auto simp: wrote_def)

lemma write_bytes_at_wrote: "mem_ok m \<Longrightarrow> length b < 2 ^ 63 \<Longrightarrow> \<exists>r. write_bytes_at m a b = Some r \<and> wrote m (unat a) b r"
  using mem64.wr_exact [of m b a] by (auto simp: wrote_def)

lemmas writer_defs = WriteByte_exact WriteByteAt_exact WriteUint16Le_def WriteUint16LeAt_def writeUint32Le_def WriteUint32LeAt_def
  writeUint64Le_def WriteUint64LeAt_def Write_mem_def Write64_def WriteString_def WriteString64_def

text \<open>
  C25. The writers write exactly where the whole range lies inside the memory and change nothing outside it;
  where it does not, they answer false and change nothing. All of them, with both widths of address, and for byte strings of any length a
  Go slice can have.
\<close>

theorem writers_exact:
  assumes "mem_ok m" and "length b < 2 ^ 63"
  shows "(\<exists>r. WriteByte m a v = Some r \<and> wrote m (unat a) [v] r) \<and> (\<exists>r. WriteByteAt m c v = Some r \<and> wrote m (unat c) [v] r) \<and>
    (\<exists>r. WriteUint16Le m a u = Some r \<and> wrote m (unat a) (le_bytes 2 (unat u)) r) \<and>
    (\<exists>r. WriteUint16LeAt m c u = Some r \<and> wrote m (unat c) (le_bytes 2 (unat u)) r) \<and>
    (\<exists>r. writeUint32Le m a w = Some r \<and> wrote m (unat a) (le_bytes 4 (unat w)) r) \<and>
    (\<exists>r. WriteUint32LeAt m c w = Some r \<and> wrote m (unat c) (le_bytes 4 (unat w)) r) \<and>
    (\<exists>r. writeUint64Le m a x = Some r \<and> wrote m (unat a) (le_bytes 8 (unat x)) r) \<and>
    (\<exists>r. WriteUint64LeAt m c x = Some r \<and> wrote m (unat c) (le_bytes 8 (unat x)) r) \<and>
    (\<exists>r. Write_mem m a b = Some r \<and> wrote m (unat a) b r) \<and> (\<exists>r. Write64 m c b = Some r \<and> wrote m (unat c) b r) \<and>
    (\<exists>r. WriteString m a b = Some r \<and> wrote m (unat a) b r) \<and> (\<exists>r. WriteString64 m c b = Some r \<and> wrote m (unat c) b r)"
  unfolding writer_defs [of m] writer_defs(1,2) [OF assms(1)]
  by (intro conjI write_bytes_wrote write_bytes_at_wrote assms) simp_all

theorem writers_exact_witness:
  "\<exists>r. WriteUint32LeAt one_page 65533 7 = Some r \<and> fst r = False \<and> Buffer (snd r) = replicate 65536 0"
  using writers_exact [OF one_page_ok(1), of "[]" 0 0 65533 0 7 0] one_page_ok by (auto simp: wrote_def)

text \<open>
  An integer that was written is read back from the same address, and another integer that does not overlap it keeps its value.
\<close>

theorem write_then_read:
  fixes c d :: u64
  assumes "mem_ok m"
  shows "(writeUint32Le m a w = Some (True, m') \<longrightarrow> readUint32Le m' a = Some (Some w)) \<and>
    (WriteUint32LeAt m c w = Some (True, m') \<longrightarrow> ReadUint32LeAt m' c = Some (Some w)) \<and>
    (writeUint64Le m a x = Some (True, m') \<longrightarrow> readUint64Le m' a = Some (Some x)) \<and>
    (WriteUint64LeAt m c x = Some (True, m') \<longrightarrow> ReadUint64LeAt m' c = Some (Some x)) \<and>
    (WriteUint16Le m a u = Some (True, m') \<longrightarrow> ReadUint16Le m' a = Some (Some u)) \<and>
    (WriteUint16LeAt m c u = Some (True, m') \<longrightarrow> ReadUint16LeAt m' c = Some (Some u)) \<and>
    (WriteUint64LeAt m c x = Some (ok, m') \<longrightarrow> unat d + 8 \<le> unat c \<or> unat c + 8 \<le> unat d \<longrightarrow>
      ReadUint64LeAt m' d = ReadUint64LeAt m d)"
  using mem32.word_after_write [OF assms, of 4 a w m'] mem64.word_after_write [OF assms, of 4 c w m']
    mem32.word_after_write [OF assms, of 8 a x m'] mem64.word_after_write [OF assms, of 8 c x m']
    mem32.word_after_write [OF assms, of 2 a u m'] mem64.word_after_write [OF assms, of 2 c u m']
    mem64.read_elsewhere [OF assms, of "le_bytes 8 (unat x)" c ok m' 8 d]
  by (simp add: ReadUint16Le_def ReadUint16LeAt_def readUint32Le_def ReadUint32LeAt_def readUint64Le_def ReadUint64LeAt_def
      writer_defs)


lemma one_page_new: "NewMemoryInstance False pick (\<lambda>_. []) small_sec 65536 = (one_page, \<lambda>_. [])"
  by (cases pick) (simp_all add: one_page_def small_sec_def NewMemoryInstance_def getPooledMemoryBuffer_def Let_def)

lemma one_page_arena: "arena one_page = replicate 65536 0" "sizeBytes one_page = 65536" "bufLen one_page = 65536"
  "memCap one_page = 1" "\<not> released one_page"
  by (simp_all add: one_page_def NewMemoryInstance_def getPooledMemoryBuffer_def Let_def initial_cap_def max_pages_def
      MemoryPagesToBytesNum_def memoryBytesNumToPages_def MemoryPageSizeInBits_def)

lemma write_one_page: "mem_op one_page (one_page\<lparr>arena := (arena one_page)[5 := 7]\<rparr>)"
proof (rule op_WriteByte [of _ 5 7 True])
  have "visibleBuffer one_page = Some (Buffer one_page)" using mem_okD(2) [OF one_page_ok(1)] .
  then show "WriteByte one_page 5 7 = Some (True, one_page\<lparr>arena := (arena one_page)[5 := 7]\<rparr>)"
    by (simp add: WriteByte_def one_page_ok)
qed

lemma close_one_page:
  "close_quiet False (\<lambda>_. []) (one_page\<lparr>arena := (arena one_page)[5 := 7]\<rparr>) =
     Some (one_page\<lparr>arena := (arena one_page)[5 := 7], released := True\<rparr>, (\<lambda>_. [])(65536 := [((arena one_page)[5 := 7], 65536)]))"
proof -
  have "length (arena one_page) = 65536" by (simp add: one_page_arena)
  then show ?thesis
    using one_page_arena(2-5) one_page_ok(4)
    by (simp add: close_quiet_def byteSize_def putPooledMemoryBuffer_def Let_def)
qed


text \<open>
  C35. A memory that is grown by a call still running when its module is closed shrinks: the release makes the size read as
  zero, so \<open>memory.grow\<close> of fewer pages than it has answers 0 and leaves that many. When the call leaves, the pool is told
  that only these were written, and the memory that gets the region next starts with the data of the old one beyond them.
\<close>

theorem grow_after_close_leaks:
  assumes "mem_ok m" and "poolable m" and "delta \<noteq> 0" and "delta < Pages64 m"
  shows "\<exists>m1 m2. close_in_flight m = Some m1 \<and> Grow64 m1 delta = Some ((0, True), m2) \<and>
    Buffer m2 = take (65536 * unat delta) (Buffer m) \<and>
    fst (getPooledMemoryBuffer False (Some (length (p (of_nat (length (arena m)))))) (snd (exitAfterRelease False p m2))
      (of_nat (length (arena m)))) = Some (replicate (65536 * unat delta) 0 @ drop (65536 * unat delta) (arena m))"
proof -
  note o = mem_okD [OF assms(1)]
  define z where "z = MemoryPagesToBytesNum delta"
  define m1 where "m1 = m\<lparr>released := True, pendingRelease := PendingArena\<rparr>"
  define m2 where "m2 = m1\<lparr>bufLen := unat z, sizeBytes := z\<rparr>"
  have "bufLen m \<le> 65536 * unat (memCap m)" using assms(1) by (simp add: mem_ok_def)
  then have pc: "unat (Pages64 m) \<le> unat (memCap m)" using o by simp
  then have d: "delta < memCap m" "(memCap m < delta) = False" "delta \<le> memMax m" "unat delta < 2 ^ 48"
    using assms by (auto simp: mem_ok_def word_less_nat_alt word_le_nat_alt)
  have z: "unat z = 65536 * unat delta" using d by (simp add: z_def unat_MemoryPagesToBytesNum)
  have len: "length (arena m) = 65536 * unat (memCap m)" "unat (memCap m) < 2 ^ 48"
    using assms(1) by (auto simp: mem_ok_def word_le_nat_alt)
  have zl: "unat z < length (arena m)" using z d len by (simp add: word_less_nat_alt)
  have c: "close_in_flight m = Some m1" using assms o by (auto simp: close_in_flight_def m1_def mem_ok_def)
  have "Pages64 m1 = 0" by (simp add: Pages64_def byteSize_def m1_def memoryBytesNumToPages_def)
  then have g: "Grow64 m1 delta = Some ((0, True), m2)"
    using d zl assms(3) by (auto simp: Grow64_def Let_def m1_def m2_def z_def [symmetric] not_less dest: leD)
  have "unat delta < unat (Pages64 m)" using assms(4) by (simp add: word_less_nat_alt)
  then have "65536 * unat delta \<le> bufLen m" using o by simp
  then have b: "Buffer m2 = take (65536 * unat delta) (Buffer m)"
    by (simp add: Buffer_def m2_def m1_def z min_def)
  have "unat (of_nat (length (arena m)) :: u64) \<noteq> 0"
    using zl len by (subst unat_of_nat_u64) simp_all
  then have nz: "(of_nat (length (arena m)) :: u64) \<noteq> 0" by (metis unat_0)
  have "dirtyLenLocked m2 (arena m) = 65536 * unat delta"
    using zl by (simp add: dirtyLenLocked_def m2_def z)
  then have "snd (exitAfterRelease False p m2) = p(of_nat (length (arena m)) := p (of_nat (length (arena m))) @ [(arena m, 65536 * unat delta)])"
    using nz by (simp add: exitAfterRelease_def m2_def m1_def putPooledMemoryBuffer_def Let_def)
  with c g b nz show ?thesis
    by (intro exI [of _ m1] exI [of _ m2]) (simp add: getPooledMemoryBuffer_def clear_prefix_def)
qed

lemma two_pages_ok: "mem_ok two_pages" "poolable two_pages" "Pages64 two_pages = 2" "arena two_pages = (replicate 131072 0)[65540 := 7]"
proof -
  show a: "poolable two_pages" "arena two_pages = (replicate 131072 0)[65540 := 7]"
    by (simp_all add: two_pages_def NewMemoryInstance_def getPooledMemoryBuffer_def Let_def initial_cap_def max_pages_def
        MemoryPagesToBytesNum_def memoryBytesNumToPages_def MemoryPageSizeInBits_def)
  show "mem_ok two_pages" "Pages64 two_pages = 2"
    by (simp_all add: mem_ok_def two_pages_def Pages64_def byteSize_def NewMemoryInstance_def getPooledMemoryBuffer_def Let_def
        initial_cap_def max_pages_def MemoryPagesToBytesNum_def memoryBytesNumToPages_def MemoryPageSizeInBits_def)
qed

theorem grow_after_close_leaks_witness:
  "\<exists>m1 m2 region. close_in_flight two_pages = Some m1 \<and> Grow64 m1 1 = Some ((0, True), m2) \<and>
    fst (getPooledMemoryBuffer False (Some 0) (snd (exitAfterRelease False (\<lambda>_. []) m2)) 131072) = Some region \<and> region ! 65540 = 7"
proof -
  have "drop 65536 ((replicate 131072 0 :: bytes)[65540 := 7]) ! 4 = 7" by simp
  then show ?thesis
    using grow_after_close_leaks [OF two_pages_ok(1,2), of 1 "\<lambda>_. []"]
    by (auto simp: two_pages_ok nth_append)
qed

end
