(* ===== verification/Memory_Release.thy ===== *)
theory Memory_Release
  imports Wazy_Prelude
begin

text \<open>
  Who returns the region of a linear memory to the pool, and when: the protocol between the closes of the modules
  that can reach the memory and the calls that may still be running on it, of
  \<^verbatim>\<open>internal/wasm/memory.go\<close>, \<^verbatim>\<open>module_instance.go\<close> and \<^verbatim>\<open>store.go\<close>. The model is of one memory of the kind that is
  pooled (not shared, no allocator of the embedder), an unbounded number of modules that own, import or hold it, and an
  unbounded number of call engines for each of them.

  A thread is a call or a close. Its program counter stands between two atomic operations of the source: an access to a
  call slot, to \<^verbatim>\<open>Closed\<close>, to \<^verbatim>\<open>released\<close> or to the size is one step, and what a critical section does to the fields that only
  \<^verbatim>\<open>Mux\<close> guards is one step too. The scan of the call slots holds \<^verbatim>\<open>Mux\<close> and is interleaved with
  everything that does not take it. Weak pointers are not modelled: a slot that has been collected belongs to no call.
\<close>

section \<open>State\<close>

datatype slot = slotIdle | slotBusy | slotHandoff

text \<open>A call engine, named by its module and a number.\<close>

datatype slot_id = Engine (home: nat) nat

text \<open>
  The ways a module can reach the memory: an entry of its \<^verbatim>\<open>Memories\<close>, as the owner or as an importer, or an entry of
  \<^verbatim>\<open>heldMemories\<close>, through a function or a table it imports.
\<close>

datatype hold = Owner | Importer | Holder

datatype thread = Call slot_id | Close nat

text \<open>
  The scan of the slots is done by a close that has claimed the region, whose prefix \<open>n\<close> it has already read, and by
  \<^verbatim>\<open>exitAfterRelease\<close>.
\<close>

datatype purpose = Claim nat | Drain

text \<open>
  Calls: outside, after \<^verbatim>\<open>Enter\<close>, refused because the module is closed, running, and after the swap of
  \<^verbatim>\<open>ExitCall\<close> that found \<open>slotHandoff\<close>, with the entries of \<^verbatim>\<open>Memories\<close> still to visit. Closes: with the
  entries still to drop. The remaining positions are inside the claim, the scan, \<^verbatim>\<open>exitAfterRelease\<close> and the return of the
  region, with the entries to continue with.
\<close>

datatype pc =
    Out
  | Entered
  | Refused
  | Running
  | Left "hold list"
  | Closing "hold list"
  | Candidate "hold list"
  | Swap nat "hold list"
  | LastHolder "hold list"
  | Dirty "hold list"
  | Scan purpose "slot_id list" bool "hold list"
  | ScanLoad purpose slot_id "slot_id list" bool "hold list"
  | AtExit "hold list"
  | Putting bool nat "hold list"

text \<open>
  \<open>pooled\<close> records the regions that were returned: whether the release had been deferred to a call, and
  the length of the prefix the pool was told to clear.
\<close>

record release =
  inFlight :: "slot_id \<Rightarrow> slot"
  pcs :: "thread \<Rightarrow> pc"
  callers :: "slot_id list"
  instantiated :: "nat \<Rightarrow> bool"
  Closed :: "nat \<Rightarrow> bool"
  holds :: "nat \<Rightarrow> hold list"
  importers :: nat
  ownerClosed :: bool
  isReleased :: bool
  pendingRecycle :: bool
  Mux :: "thread option"
  memSize :: nat
  pooled :: "(bool \<times> nat) list"

text \<open>Module 0 owns the memory.\<close>

definition initial :: "nat \<Rightarrow> release" where
  "initial n = \<lparr>inFlight = \<lambda>_. slotIdle, pcs = \<lambda>_. Out, callers = [], instantiated = (\<lambda>m. m = 0), Closed = \<lambda>_. False,
     holds = (\<lambda>m. if m = 0 then [Owner] else []), importers = 0, ownerClosed = False, isReleased = False,
     pendingRecycle = False, Mux = None, memSize = n, pooled = []\<rparr>"

definition goto :: "thread \<Rightarrow> pc \<Rightarrow> release \<Rightarrow> release" where
  "goto t c s = s\<lparr>pcs := (pcs s)(t := c)\<rparr>"

text \<open>The entries of \<^verbatim>\<open>Memories\<close>, and where a thread goes on after it has dealt with an entry.\<close>

definition memories :: "hold list \<Rightarrow> hold list" where
  "memories hs = filter (\<lambda>h. h \<noteq> Holder) hs"

definition continue :: "thread \<Rightarrow> hold list \<Rightarrow> pc" where
  "continue t rs = (case t of Call c \<Rightarrow> Left rs | Close m \<Rightarrow> Closing rs)"

section \<open>Importing and call slots\<close>

definition resolveImports :: "nat \<Rightarrow> release \<Rightarrow> release" where
  "resolveImports m s =
     (if ownerClosed s then s
      else s\<lparr>importers := importers s + 1,
        holds := (holds s)(m := memories (holds s m) @ Importer # filter (\<lambda>h. h = Holder) (holds s m))\<rparr>)"

definition holdMemoriesOf :: "nat \<Rightarrow> release \<Rightarrow> release" where
  "holdMemoriesOf m s =
     (if ownerClosed s then s
      else s\<lparr>importers := importers s + 1, holds := (holds s)(m := holds s m @ [Holder])\<rparr>)"

text \<open>The slot of a new call engine is registered with the memories of its module, once.\<close>

definition CallSlotFor :: "slot_id \<Rightarrow> release \<Rightarrow> release" where
  "CallSlotFor c s = (if memories (holds s (home c)) = [] \<or> c \<in> set (callers s) then s else s\<lparr>callers := callers s @ [c]\<rparr>)"

section \<open>Calls\<close>

definition Enter :: "slot_id \<Rightarrow> release \<Rightarrow> release" where
  "Enter c s = goto (Call c) Entered (s\<lparr>inFlight := (inFlight s)(c := slotBusy)\<rparr>)"

definition check_closed :: "slot_id \<Rightarrow> release \<Rightarrow> release" where
  "check_closed c s = goto (Call c) (if Closed s (home c) then Refused else Running) s"

definition ExitCall :: "slot_id \<Rightarrow> release \<Rightarrow> release" where
  "ExitCall c s =
     goto (Call c) (if inFlight s c = slotBusy then Out else Left (memories (holds s (home c))))
       (s\<lparr>inFlight := (inFlight s)(c := slotIdle)\<rparr>)"

definition exitHandoff :: "slot_id \<Rightarrow> hold list \<Rightarrow> release \<Rightarrow> release" where
  "exitHandoff c ms s =
     goto (Call c) (case ms of [] \<Rightarrow> Out | _ # rs \<Rightarrow> if isReleased s then AtExit rs else Left rs) s"

section \<open>Closes\<close>

definition setExitCode :: "nat \<Rightarrow> release \<Rightarrow> release" where
  "setExitCode m s = goto (Close m) (Closing (holds s m)) (s\<lparr>Closed := (Closed s)(m := True)\<rparr>)"

definition drop_importer :: "release \<Rightarrow> release" where
  "drop_importer s = (if 0 < importers s then s\<lparr>importers := importers s - 1\<rparr> else s)"

text \<open>The owner's close and an importer's: up to the point where the slice is taken, \<^verbatim>\<open>Mux\<close> held.\<close>

definition close_owner :: "nat \<Rightarrow> hold list \<Rightarrow> release \<Rightarrow> release" where
  "close_owner m rs s =
     (let s = s\<lparr>ownerClosed := True\<rparr>
      in if importers s = 0 then goto (Close m) (Candidate rs) (s\<lparr>Mux := Some (Close m)\<rparr>)
         else goto (Close m) (Closing rs) s)"

definition close_importer :: "nat \<Rightarrow> hold list \<Rightarrow> release \<Rightarrow> release" where
  "close_importer m rs s =
     (let s = drop_importer s
      in if ownerClosed s \<and> importers s = 0 then goto (Close m) (Candidate rs) (s\<lparr>Mux := Some (Close m)\<rparr>)
         else goto (Close m) (Closing rs) s)"

definition close_holder :: "nat \<Rightarrow> hold list \<Rightarrow> release \<Rightarrow> release" where
  "close_holder m rs s =
     (let s = drop_importer s
      in goto (Close m) (if ownerClosed s \<and> importers s = 0 then LastHolder rs else Closing rs) s)"

text \<open>The slice, whose length is zero when the memory is released already; then the claim.\<close>

definition take_candidate :: "thread \<Rightarrow> hold list \<Rightarrow> release \<Rightarrow> release" where
  "take_candidate t rs s = goto t (Swap (if isReleased s then 0 else memSize s) rs) s"

definition claim :: "thread \<Rightarrow> nat \<Rightarrow> hold list \<Rightarrow> release \<Rightarrow> release" where
  "claim t n rs s =
     (if isReleased s then goto t (Closing rs) (s\<lparr>Mux := None\<rparr>)
      else goto t (Scan (Claim n) (callers s) False rs) (s\<lparr>isReleased := True\<rparr>))"

definition releaseAfterLastHolder :: "thread \<Rightarrow> hold list \<Rightarrow> release \<Rightarrow> release" where
  "releaseAfterLastHolder t rs s =
     (if isReleased s then goto t (Closing rs) s
      else goto t (Dirty rs) (s\<lparr>isReleased := True, Mux := Some t\<rparr>))"

definition holder_dirty :: "thread \<Rightarrow> hold list \<Rightarrow> release \<Rightarrow> release" where
  "holder_dirty t rs s = goto t (Scan (Claim (memSize s)) (callers s) False rs) s"

section \<open>The scan of the call slots\<close>

text \<open>The compare-and-swap of \<^verbatim>\<open>claimIfBusy\<close>, and the load after one that failed.\<close>

definition claimIfBusy :: "thread \<Rightarrow> purpose \<Rightarrow> slot_id \<Rightarrow> slot_id list \<Rightarrow> bool \<Rightarrow> hold list \<Rightarrow> release \<Rightarrow> release" where
  "claimIfBusy t k c cs busy rs s =
     (if inFlight s c = slotBusy then goto t (Scan k cs True rs) (s\<lparr>inFlight := (inFlight s)(c := slotHandoff)\<rparr>)
      else goto t (ScanLoad k c cs busy rs) s)"

definition claimIfBusy_load :: "thread \<Rightarrow> purpose \<Rightarrow> slot_id \<Rightarrow> slot_id list \<Rightarrow> bool \<Rightarrow> hold list \<Rightarrow> release \<Rightarrow> release" where
  "claimIfBusy_load t k c cs busy rs s = goto t (Scan k cs (busy \<or> inFlight s c = slotHandoff) rs) s"

text \<open>After the scan: a claim defers the release to the calls in flight, or returns the region itself.\<close>

definition claim_scanned :: "thread \<Rightarrow> nat \<Rightarrow> bool \<Rightarrow> hold list \<Rightarrow> release \<Rightarrow> release" where
  "claim_scanned t n busy rs s =
     (if busy then goto t (AtExit rs) (s\<lparr>pendingRecycle := True, Mux := None\<rparr>)
      else goto t (Putting False n rs) (s\<lparr>Mux := None\<rparr>))"

definition exitAfterRelease_lock :: "thread \<Rightarrow> hold list \<Rightarrow> release \<Rightarrow> release" where
  "exitAfterRelease_lock t rs s = goto t (Scan Drain (callers s) False rs) (s\<lparr>Mux := Some t\<rparr>)"

definition exitAfterRelease_scanned :: "thread \<Rightarrow> bool \<Rightarrow> hold list \<Rightarrow> release \<Rightarrow> release" where
  "exitAfterRelease_scanned t busy rs s =
     (if busy \<or> \<not> pendingRecycle s then goto t (continue t rs) (s\<lparr>Mux := None\<rparr>)
      else goto t (Putting True (memSize s) rs) (s\<lparr>pendingRecycle := False, Mux := None\<rparr>))"

definition put_region :: "thread \<Rightarrow> bool \<Rightarrow> nat \<Rightarrow> hold list \<Rightarrow> release \<Rightarrow> release" where
  "put_region t deferred n rs s = goto t (continue t rs) (s\<lparr>pooled := pooled s @ [(deferred, n)]\<rparr>)"

section \<open>Steps\<close>

text \<open>The next step of a thread at a position; a position that waits for \<^verbatim>\<open>Mux\<close> has none while another thread holds it.\<close>

fun thread_step :: "thread \<Rightarrow> pc \<Rightarrow> release \<Rightarrow> release option" where
  "thread_step (Call c) Entered s = Some (check_closed c s)"
| "thread_step (Call c) Refused s = Some (ExitCall c s)"
| "thread_step (Call c) Running s = Some (ExitCall c s)"
| "thread_step (Call c) (Left rs) s = Some (exitHandoff c rs s)"
| "thread_step (Close m) (Closing (Owner # rs)) s = (if Mux s = None then Some (close_owner m rs s) else None)"
| "thread_step (Close m) (Closing (Importer # rs)) s = (if Mux s = None then Some (close_importer m rs s) else None)"
| "thread_step (Close m) (Closing (Holder # rs)) s = (if Mux s = None then Some (close_holder m rs s) else None)"
| "thread_step t (Candidate rs) s = Some (take_candidate t rs s)"
| "thread_step t (Swap n rs) s = Some (claim t n rs s)"
| "thread_step t (LastHolder rs) s = (if Mux s = None then Some (releaseAfterLastHolder t rs s) else None)"
| "thread_step t (Dirty rs) s = Some (holder_dirty t rs s)"
| "thread_step t (Scan k (c # cs) b rs) s = Some (claimIfBusy t k c cs b rs s)"
| "thread_step t (ScanLoad k c cs b rs) s = Some (claimIfBusy_load t k c cs b rs s)"
| "thread_step t (Scan (Claim n) [] b rs) s = Some (claim_scanned t n b rs s)"
| "thread_step t (Scan Drain [] b rs) s = Some (exitAfterRelease_scanned t b rs s)"
| "thread_step t (AtExit rs) s = (if Mux s = None then Some (exitAfterRelease_lock t rs s) else None)"
| "thread_step t (Putting d n rs) s = Some (put_region t d n rs s)"
| "thread_step t _ s = None"

text \<open>
  A module imports while it is instantiated, and is called and closed afterwards. The
  memory grows, within its region, under the calls that run.
\<close>

inductive step :: "release \<Rightarrow> release \<Rightarrow> bool" where
  s_import: "\<not> instantiated s m \<Longrightarrow> Mux s = None \<Longrightarrow> step s (resolveImports m s)"
| s_hold: "\<not> instantiated s m \<Longrightarrow> Mux s = None \<Longrightarrow> step s (holdMemoriesOf m s)"
| s_instantiated: "step s (s\<lparr>instantiated := (instantiated s)(m := True)\<rparr>)"
| s_slot: "instantiated s (home c) \<Longrightarrow> Mux s = None \<Longrightarrow> step s (CallSlotFor c s)"
| s_enter: "instantiated s (home c) \<Longrightarrow> holds s (home c) \<noteq> [] \<Longrightarrow>
    (memories (holds s (home c)) \<noteq> [] \<longrightarrow> c \<in> set (callers s)) \<Longrightarrow> pcs s (Call c) = Out \<Longrightarrow> step s (Enter c s)"
| s_grow: "pcs s (Call c) = Running \<Longrightarrow> memSize s \<le> n \<Longrightarrow> step s (s\<lparr>memSize := n\<rparr>)"
| s_close: "instantiated s m \<Longrightarrow> \<not> Closed s m \<Longrightarrow> step s (setExitCode m s)"
| s_thread: "thread_step t (pcs s t) s = Some s' \<Longrightarrow> step s s'"

inductive reachable :: "release \<Rightarrow> bool" where
  r_initial: "reachable (initial n)"
| r_step: "reachable s \<Longrightarrow> step s s' \<Longrightarrow> reachable s'"

end
