(* ===== verification/Memory_Release_Invariant.thy ===== *)
theory Memory_Release_Invariant
  imports Memory_Release
begin

text \<open>
  The invariant of the release protocol: each thread is at a position it can be at and holds \<^verbatim>\<open>Mux\<close> where the code does;
  the count of importers is the number of entries that were not dropped; the region is in exactly one place; a scan has marked every
  registered call it has passed; and while a release is pending some thread will come back for it. From it follow
  the properties of the protocol, and two schedules show where the code misses a call.
\<close>

section \<open>Specification vocabulary\<close>

text \<open>Where calls and closes can be, the positions inside a call, and those that hold \<^verbatim>\<open>Mux\<close>.\<close>

fun in_call :: "pc \<Rightarrow> bool" where
  "in_call Entered = True"
| "in_call Refused = True"
| "in_call Running = True"
| "in_call _ = False"

fun critical :: "pc \<Rightarrow> bool" where
  "critical (Candidate rs) = True"
| "critical (Swap n rs) = True"
| "critical (Dirty rs) = True"
| "critical (Scan k cs b rs) = True"
| "critical (ScanLoad k c cs b rs) = True"
| "critical _ = False"

fun pc_ok :: "thread \<Rightarrow> pc \<Rightarrow> bool" where
  "pc_ok t (Entered) = (\<exists>c. t = Call c)"
| "pc_ok t (Refused) = (\<exists>c. t = Call c)"
| "pc_ok t (Running) = (\<exists>c. t = Call c)"
| "pc_ok t (Left rs) = (\<exists>c. t = Call c)"
| "pc_ok t (Closing rs) = (\<exists>m. t = Close m)"
| "pc_ok t (Candidate rs) = (\<exists>m. t = Close m)"
| "pc_ok t (Swap n rs) = (\<exists>m. t = Close m)"
| "pc_ok t (LastHolder rs) = (\<exists>m. t = Close m)"
| "pc_ok t (Dirty rs) = (\<exists>m. t = Close m)"
| "pc_ok t (Scan k cs b rs) = (k = Drain \<or> (\<exists>m. t = Close m))"
| "pc_ok t (ScanLoad k c cs b rs) = (k = Drain \<or> (\<exists>m. t = Close m))"
| "pc_ok t _ = True"

fun to_scan :: "pc \<Rightarrow> slot_id set" where
  "to_scan (Scan k cs b rs) = set cs"
| "to_scan (ScanLoad k c cs b rs) = insert c (set cs)"
| "to_scan _ = {}"

definition threads_ok :: "release \<Rightarrow> bool" where
  "threads_ok s \<longleftrightarrow> (\<forall>t. pc_ok t (pcs s t)) \<and> (\<forall>t. critical (pcs s t) \<longleftrightarrow> Mux s = Some t)"

definition flags_ok :: "release \<Rightarrow> bool" where
  "flags_ok s \<longleftrightarrow> (\<forall>c. in_call (pcs s (Call c)) \<longleftrightarrow> inFlight s c \<noteq> slotIdle)"

definition calls_ok :: "release \<Rightarrow> bool" where
  "calls_ok s \<longleftrightarrow> (\<forall>c. in_call (pcs s (Call c)) \<longrightarrow> instantiated s (home c) \<and> holds s (home c) \<noteq> [] \<and>
     (memories (holds s (home c)) \<noteq> [] \<longrightarrow> c \<in> set (callers s)))"

definition callers_ok :: "release \<Rightarrow> bool" where
  "callers_ok s \<longleftrightarrow> (\<forall>c \<in> set (callers s). instantiated s (home c) \<and> memories (holds s (home c)) \<noteq> []) \<and>
     (\<forall>t. to_scan (pcs s t) \<subseteq> set (callers s)) \<and> (\<forall>c. inFlight s c = slotHandoff \<longrightarrow> c \<in> set (callers s))"

definition control_ok :: "release \<Rightarrow> bool" where
  "control_ok s \<longleftrightarrow> threads_ok s \<and> flags_ok s \<and> calls_ok s \<and> callers_ok s"

fun remaining :: "pc \<Rightarrow> hold list" where
  "remaining (Left rs) = rs"
| "remaining (Closing rs) = rs"
| "remaining (Candidate rs) = rs"
| "remaining (Swap n rs) = rs"
| "remaining (LastHolder rs) = rs"
| "remaining (Dirty rs) = rs"
| "remaining (Scan k cs b rs) = rs"
| "remaining (ScanLoad k c cs b rs) = rs"
| "remaining (AtExit rs) = rs"
| "remaining (Putting d n rs) = rs"
| "remaining _ = []"

text \<open>The number of import and hold entries a module has not dropped yet.\<close>

definition rest :: "release \<Rightarrow> nat \<Rightarrow> nat" where
  "rest s m = length (filter (\<lambda>h. h \<noteq> Owner) (if Closed s m then remaining (pcs s (Close m)) else holds s m))"

text \<open>\<open>n\<close> is the sum of a function of finite support.\<close>

definition sums_to :: "('a \<Rightarrow> nat) \<Rightarrow> nat \<Rightarrow> bool" where
  "sums_to f n \<longleftrightarrow> (\<exists>A. finite A \<and> (\<forall>x. x \<notin> A \<longrightarrow> f x = 0) \<and> n = sum f A)"

definition dead :: "release \<Rightarrow> bool" where
  "dead s \<longleftrightarrow> ownerClosed s \<and> importers s = 0"

definition holds_ok :: "release \<Rightarrow> bool" where
  "holds_ok s \<longleftrightarrow> (\<forall>m. Closed s m \<longleftrightarrow> pcs s (Close m) \<noteq> Out) \<and> (\<forall>m. Closed s m \<longrightarrow> instantiated s m) \<and>
     holds s 0 = [Owner] \<and> instantiated s 0 \<and> (\<forall>m. m \<noteq> 0 \<longrightarrow> Owner \<notin> set (holds s m)) \<and>
     (\<forall>m. Closed s m \<longrightarrow> (\<exists>xs. holds s m = xs @ remaining (pcs s (Close m)))) \<and>
     (ownerClosed s \<longleftrightarrow> Closed s 0 \<and> remaining (pcs s (Close 0)) = []) \<and> sums_to (rest s) (importers s)"

fun claiming :: "pc \<Rightarrow> bool" where
  "claiming (Candidate rs) = True"
| "claiming (Swap n rs) = True"
| "claiming (LastHolder rs) = True"
| "claiming _ = False"

text \<open>The positions of the thread that has the region, and those of \<^verbatim>\<open>exitAfterRelease\<close>.\<close>

fun owning :: "pc \<Rightarrow> bool" where
  "owning (Dirty rs) = True"
| "owning (Scan k cs b rs) = (k \<noteq> Drain)"
| "owning (ScanLoad k c cs b rs) = (k \<noteq> Drain)"
| "owning (Putting d n rs) = True"
| "owning _ = False"

fun draining :: "pc \<Rightarrow> bool" where
  "draining (AtExit rs) = True"
| "draining (Scan k cs b rs) = (k = Drain)"
| "draining (ScanLoad k c cs b rs) = (k = Drain)"
| "draining _ = False"

definition dead_ok :: "release \<Rightarrow> bool" where
  "dead_ok s \<longleftrightarrow> (isReleased s \<longrightarrow> dead s) \<and> (\<forall>t. claiming (pcs s t) \<longrightarrow> dead s) \<and>
     (\<forall>t. owning (pcs s t) \<or> draining (pcs s t) \<longrightarrow> isReleased s) \<and> (pendingRecycle s \<longrightarrow> isReleased s) \<and>
     (dead s \<and> \<not> isReleased s \<longrightarrow> (\<exists>t. claiming (pcs s t)))"

definition tok :: "bool \<Rightarrow> nat" where
  "tok b = (if b then 1 else 0)"

text \<open>The region is in one place: not released, with one thread, pending, or in the pool.\<close>

definition token_ok :: "release \<Rightarrow> bool" where
  "token_ok s \<longleftrightarrow> (\<exists>k. sums_to (\<lambda>t. tok (owning (pcs s t))) k \<and>
     k + tok (pendingRecycle s) + length (pooled s) = tok (isReleased s))"

text \<open>No registered call runs that the scan has not seen, and none once the region is on its way to the pool.\<close>

definition quiet :: "release \<Rightarrow> bool" where
  "quiet s \<longleftrightarrow> (\<forall>c \<in> set (callers s). pcs s (Call c) \<noteq> Running)"

fun seen_ok :: "release \<Rightarrow> pc \<Rightarrow> bool" where
  "seen_ok s (Scan k cs b rs) =
     (\<forall>c \<in> set (callers s). pcs s (Call c) = Running \<longrightarrow> c \<in> set cs \<or> b \<and> inFlight s c = slotHandoff)"
| "seen_ok s (ScanLoad k c' cs b rs) =
     (\<forall>c \<in> set (callers s). pcs s (Call c) = Running \<longrightarrow> c \<in> set cs \<or> (c = c' \<or> b) \<and> inFlight s c = slotHandoff)"
| "seen_ok s (Putting d n rs) = quiet s"
| "seen_ok s _ = True"

definition scan_ok :: "release \<Rightarrow> bool" where
  "scan_ok s \<longleftrightarrow> (\<forall>t. seen_ok s (pcs s t)) \<and> (pooled s \<noteq> [] \<longrightarrow> quiet s)"

text \<open>A thread that will come by \<^verbatim>\<open>exitAfterRelease\<close> again, or is in it and has found no call in flight so far.\<close>

fun obliged_pc :: "pc \<Rightarrow> bool" where
  "obliged_pc (AtExit rs) = True"
| "obliged_pc (Left rs) = (rs \<noteq> [])"
| "obliged_pc (Scan k cs b rs) = (k = Drain \<and> \<not> b)"
| "obliged_pc (ScanLoad k c cs b rs) = (k = Drain \<and> \<not> b)"
| "obliged_pc _ = False"

definition obliged :: "release \<Rightarrow> thread \<Rightarrow> bool" where
  "obliged s t \<longleftrightarrow> obliged_pc (pcs s t) \<or> (\<exists>c. t = Call c \<and> inFlight s c = slotHandoff)"

fun found_busy :: "pc \<Rightarrow> bool" where
  "found_busy (Scan k cs b rs) = (k = Drain \<and> b)"
| "found_busy (ScanLoad k c cs b rs) = (k = Drain \<and> b)"
| "found_busy _ = False"

definition duty_ok :: "release \<Rightarrow> bool" where
  "duty_ok s \<longleftrightarrow> (pendingRecycle s \<longrightarrow> (\<exists>t. obliged s t)) \<and> (\<forall>t. found_busy (pcs s t) \<longrightarrow> (\<exists>u. u \<noteq> t \<and> obliged s u))"

text \<open>A module that was instantiated and reaches the memory only through functions or tables it imports.\<close>

definition holder_only :: "release \<Rightarrow> bool" where
  "holder_only s \<longleftrightarrow> (\<exists>m. instantiated s m \<and> holds s m \<noteq> [] \<and> memories (holds s m) = [])"

definition prefix_ok :: "release \<Rightarrow> bool" where
  "prefix_ok s \<longleftrightarrow> (\<forall>t n rs. pcs s t = Putting True n rs \<longrightarrow> n = memSize s \<or> holder_only s) \<and>
     (\<forall>n. (True, n) \<in> set (pooled s) \<longrightarrow> n = memSize s \<or> holder_only s)"

definition protocol_ok :: "release \<Rightarrow> bool" where
  "protocol_ok s \<longleftrightarrow> control_ok s \<and> holds_ok s \<and> dead_ok s \<and> token_ok s \<and> scan_ok s \<and> duty_ok s \<and> prefix_ok s"

text \<open>A schedule names what happens next; \<open>perform\<close> is the step it takes, if there is one.\<close>

datatype event = EImport nat | EHold nat | EInstantiated nat | ESlot slot_id | EEnter slot_id | EGrow slot_id nat | EClose nat
  | EThread thread

fun perform :: "event \<Rightarrow> release \<Rightarrow> release option" where
  "perform (EImport m) s = (if \<not> instantiated s m \<and> Mux s = None then Some (resolveImports m s) else None)"
| "perform (EHold m) s = (if \<not> instantiated s m \<and> Mux s = None then Some (holdMemoriesOf m s) else None)"
| "perform (EInstantiated m) s = Some (s\<lparr>instantiated := (instantiated s)(m := True)\<rparr>)"
| "perform (ESlot c) s = (if instantiated s (home c) \<and> Mux s = None then Some (CallSlotFor c s) else None)"
| "perform (EEnter c) s =
     (if instantiated s (home c) \<and> holds s (home c) \<noteq> [] \<and> (memories (holds s (home c)) \<noteq> [] \<longrightarrow> c \<in> set (callers s)) \<and>
        pcs s (Call c) = Out then Some (Enter c s) else None)"
| "perform (EGrow c n) s = (if pcs s (Call c) = Running \<and> memSize s \<le> n then Some (s\<lparr>memSize := n\<rparr>) else None)"
| "perform (EClose m) s = (if instantiated s m \<and> \<not> Closed s m then Some (setExitCode m s) else None)"
| "perform (EThread t) s = thread_step t (pcs s t) s"

fun schedule :: "event list \<Rightarrow> release \<Rightarrow> release option" where
  "schedule [] s = Some s"
| "schedule (e # es) s = Option.bind (perform e s) (schedule es)"

text \<open>The owner is called once, closed while the call runs, and the call leaves.\<close>

definition deferred_schedule :: "event list" where
  "deferred_schedule =
     (let e = Engine 0 0; k = EThread (Close 0); c = EThread (Call e)
      in [ESlot e, EEnter e, c, EClose 0, k, k, k, k, EGrow e 3, k, k, k, k, k, c, c, c, c, c, c, c, c])"

lemmas step_defs = goto_def resolveImports_def holdMemoriesOf_def CallSlotFor_def Enter_def check_closed_def ExitCall_def exitHandoff_def
  setExitCode_def drop_importer_def close_owner_def close_importer_def close_holder_def take_candidate_def claim_def
  releaseAfterLastHolder_def holder_dirty_def claimIfBusy_def claimIfBusy_load_def claim_scanned_def exitAfterRelease_lock_def
  exitAfterRelease_scanned_def put_region_def continue_def Let_def

lemma threads_okD:
  assumes "threads_ok s" and "pcs s t = c"
  shows "pc_ok t c \<and> (critical c \<longleftrightarrow> Mux s = Some t)"
  using assms by (auto simp: threads_ok_def)

text \<open>What a step of thread \<open>t\<close> leaves alone.\<close>

lemma thread_step_frame:
  assumes "thread_step t q s = Some s'"
  shows "instantiated s' = instantiated s" and "holds s' = holds s" and "callers s' = callers s" and "Closed s' = Closed s"
    and "memSize s' = memSize s" and "u \<noteq> t \<Longrightarrow> pcs s' u = pcs s u"
  using assms
  by (cases rule: thread_step.cases [of "(t, q, s)"]; auto simp: step_defs split: if_splits)+

lemma thread_step_threads:
  assumes "threads_ok s" and "pcs s t = q" and "thread_step t q s = Some s'"
  shows "threads_ok s'"
  using threads_okD [OF assms(1,2)] assms
  by (cases rule: thread_step.cases [of "(t, q, s)"])
    (auto simp: threads_ok_def step_defs split: if_splits thread.splits list.splits)

lemma thread_step_flags:
  assumes "flags_ok s" and "pcs s t = q" and "thread_step t q s = Some s'"
  shows "flags_ok s'"
proof -
  have f: "in_call (pcs s (Call c)) \<longleftrightarrow> inFlight s c \<noteq> slotIdle" for c using assms(1) by (simp add: flags_ok_def)
  have "in_call (pcs s' (Call c)) \<longleftrightarrow> inFlight s' c \<noteq> slotIdle" for c
    using assms(2,3) f [of c]
    by (cases rule: thread_step.cases [of "(t, q, s)"]) (auto simp: step_defs split: if_splits thread.splits list.splits)
  then show ?thesis by (simp add: flags_ok_def)
qed

lemma thread_step_in_call:
  assumes "pcs s t = q" and "thread_step t q s = Some s'" and "in_call (pcs s' u)"
  shows "in_call (pcs s u)"
  using assms
  by (cases rule: thread_step.cases [of "(t, q, s)"]) (auto simp: step_defs split: if_splits thread.splits list.splits)

lemma thread_step_to_scan:
  assumes "pcs s t = q" and "thread_step t q s = Some s'"
  shows "to_scan (pcs s' u) \<subseteq> to_scan (pcs s u) \<union> set (callers s)"
  using assms
  by (cases rule: thread_step.cases [of "(t, q, s)"]) (auto simp: step_defs split: if_splits thread.splits list.splits)

lemma thread_step_handoff:
  assumes "pcs s t = q" and "thread_step t q s = Some s'" and "inFlight s' c = slotHandoff"
  shows "inFlight s c = slotHandoff \<or> c \<in> to_scan q"
  using assms
  by (cases rule: thread_step.cases [of "(t, q, s)"]) (auto simp: step_defs split: if_splits thread.splits list.splits)

lemma sums_toI: "finite A \<Longrightarrow> (\<And>x. x \<notin> A \<Longrightarrow> f x = 0) \<Longrightarrow> sums_to f (sum f A)"
  by (auto simp: sums_to_def)

lemma sums_to_insert:
  assumes "sums_to f n"
  obtains A where "finite A" and "x \<in> A" and "\<And>y. y \<notin> A \<Longrightarrow> f y = 0" and "n = sum f A"
proof -
  obtain A where A: "finite A" "\<forall>x. x \<notin> A \<longrightarrow> f x = 0" "n = sum f A" using assms by (auto simp: sums_to_def)
  show ?thesis
  proof (rule that [of "insert x A"])
    show "n = sum f (insert x A)" using A by (simp add: sum.insert_if)
  qed (use A in auto)
qed

lemma sums_to_change:
  assumes "sums_to f n" and "\<And>y. y \<noteq> x \<Longrightarrow> g y = f y"
  shows "sums_to g (n + g x - f x)" and "f x \<le> n"
proof -
  obtain A where A: "finite A" "x \<in> A" "\<And>y. y \<notin> A \<Longrightarrow> f y = 0" "n = sum f A"
    using sums_to_insert [OF assms(1), of x] by blast
  have "sum g (A - {x}) = sum f (A - {x})" using assms(2) by (intro sum.cong) auto
  then have n: "n = f x + sum g (A - {x})" using A by (simp add: sum.remove [of A x f])
  moreover have "sum g A = g x + sum g (A - {x})" using A by (simp add: sum.remove [of A x g])
  ultimately have "sum g A = n + g x - f x" by simp
  moreover have "sums_to g (sum g A)" using A assms(2) by (intro sums_toI) (metis)+
  ultimately show "sums_to g (n + g x - f x)" by simp
  show "f x \<le> n" using n by simp
qed

lemma sums_to_0: "sums_to f 0 \<Longrightarrow> f x = 0"
  using sums_to_change(2) [of f 0 x f] by simp

lemma sums_to_cong:
  assumes "sums_to f n" and "\<And>x. g x = f x"
  shows "sums_to g n"
proof -
  have "g = f" using assms(2) by auto
  with assms(1) show ?thesis by simp
qed

lemma control_ok_env:
  assumes "control_ok s" and "pcs s' = pcs s" and "inFlight s' = inFlight s" and "Mux s' = Mux s"
    and "set (callers s) \<subseteq> set (callers s')"
    and "\<And>c. c \<in> set (callers s') \<Longrightarrow> c \<in> set (callers s) \<or> instantiated s' (home c) \<and> memories (holds s' (home c)) \<noteq> []"
    and "\<And>m. instantiated s m \<Longrightarrow> instantiated s' m \<and> holds s' m = holds s m"
  shows "control_ok s'"
proof -
  have "threads_ok s'" "flags_ok s'"
    using assms(1-4) by (auto simp: control_ok_def threads_ok_def flags_ok_def)
  moreover have "calls_ok s'"
    using assms(1,2,5,7) by (auto simp: control_ok_def calls_ok_def)
  moreover have "callers_ok s'"
    using assms(1,2,3,5,6,7) unfolding control_ok_def callers_ok_def by (metis subset_iff)
  ultimately show ?thesis by (simp add: control_ok_def)
qed

lemma control_ok_step:
  assumes "step s s'" and "control_ok s" and "holds_ok s"
  shows "control_ok s'"
  using assms(1)
proof cases
  case (s_thread t)
  note f = thread_step_frame [OF s_thread] and a = thread_step_in_call [OF refl s_thread] thread_step_to_scan [OF refl s_thread]
    thread_step_handoff [OF refl s_thread]
  have "calls_ok s'" using assms(2) a f by (auto simp: control_ok_def calls_ok_def)
  moreover have "callers_ok s'"
    unfolding callers_ok_def
  proof (intro conjI allI impI)
    show "\<forall>c\<in>set (callers s'). instantiated s' (home c) \<and> memories (holds s' (home c)) \<noteq> []"
      using assms(2) f by (auto simp: control_ok_def callers_ok_def)
    show "to_scan (pcs s' u) \<subseteq> set (callers s')" for u
      using assms(2) f a(2) [of u] by (fastforce simp: control_ok_def callers_ok_def)
    show "c \<in> set (callers s')" if "inFlight s' c = slotHandoff" for c
      using assms(2) f a(3) [OF that] by (fastforce simp: control_ok_def callers_ok_def)
  qed
  ultimately show ?thesis
    using assms(2) thread_step_threads [OF _ refl s_thread] thread_step_flags [OF _ refl s_thread] by (auto simp: control_ok_def)
next
  case (s_close m)
  then have "pcs s (Close m) = Out" using assms(3) by (auto simp: holds_ok_def)
  then have "Mux s \<noteq> Some (Close m)" using threads_okD [of s "Close m" Out] assms(2) by (auto simp: control_ok_def)
  then have "threads_ok s'" using s_close assms(2) by (auto simp: control_ok_def threads_ok_def step_defs)
  moreover have "flags_ok s'" "calls_ok s'" using s_close assms(2) by (auto simp: control_ok_def flags_ok_def calls_ok_def step_defs)
  moreover have "callers_ok s'" using s_close assms(2) by (auto simp: control_ok_def callers_ok_def step_defs)
  ultimately show ?thesis by (simp add: control_ok_def)
next
  case (s_enter c)
  then have "Mux s \<noteq> Some (Call c)" using threads_okD [of s "Call c" Out] assms(2) by (auto simp: control_ok_def)
  moreover have "threads_ok s'" using s_enter calculation assms(2) by (auto simp: control_ok_def threads_ok_def step_defs)
  moreover have "flags_ok s'" using s_enter assms(2) by (auto simp: control_ok_def flags_ok_def step_defs)
  moreover have "calls_ok s'" using s_enter assms(2) by (simp add: control_ok_def calls_ok_def step_defs)
  moreover have "callers_ok s'" using s_enter assms(2) by (simp add: control_ok_def callers_ok_def step_defs)
  ultimately show ?thesis by (simp add: control_ok_def)
qed (rule control_ok_env [OF assms(2)]; use assms(2) in \<open>auto simp: step_defs split: if_splits\<close>)+

text \<open>A step either drops the next entry of a close, or leaves the entries and the counts alone.\<close>

lemma thread_step_remaining:
  assumes "pcs s t = q" and "thread_step t q s = Some s'" and "pc_ok t q"
  obtains (drops) m h rs where "t = Close m" and "q = Closing (h # rs)" and "remaining (pcs s' t) = rs" and "pcs s' t \<noteq> Out"
      and "ownerClosed s' \<longleftrightarrow> ownerClosed s \<or> h = Owner"
      and "importers s' = (if h \<noteq> Owner \<and> 0 < importers s then importers s - 1 else importers s)"
    | (keeps) "\<And>m. t = Close m \<Longrightarrow> remaining (pcs s' t) = remaining q \<and> pcs s' t \<noteq> Out"
      and "ownerClosed s' = ownerClosed s" and "importers s' = importers s"
  using assms
  by (cases rule: thread_step.cases [of "(t, q, s)"]) (auto simp: step_defs split: if_splits thread.splits)

lemma rest_thread:
  assumes "holds_ok s" and "control_ok s" and "thread_step t (pcs s t) s = Some s'"
  shows "holds_ok s'"
proof -
  note f = thread_step_frame [OF assms(3)]
  have ok: "pc_ok t (pcs s t)" using assms(2) by (auto simp: control_ok_def threads_ok_def)
  have h: "\<And>m. Closed s m \<longleftrightarrow> pcs s (Close m) \<noteq> Out" "\<And>m. Closed s m \<Longrightarrow> instantiated s m" "holds s 0 = [Owner]"
     "\<And>m. m \<noteq> 0 \<Longrightarrow> Owner \<notin> set (holds s m)" "\<And>m. Closed s m \<Longrightarrow> \<exists>xs. holds s m = xs @ remaining (pcs s (Close m))"
     "ownerClosed s \<longleftrightarrow> Closed s 0 \<and> remaining (pcs s (Close 0)) = []" "sums_to (rest s) (importers s)" "instantiated s 0"
    using assms(1) by (auto simp: holds_ok_def)
  have out: "t = Close m \<Longrightarrow> pcs s t \<noteq> Out" for m using assms(3) by auto
  show ?thesis
  proof (rule thread_step_remaining [OF refl assms(3) ok], goal_cases drops keeps)
    case keeps
    have r: "remaining (pcs s' (Close m)) = remaining (pcs s (Close m))" and o: "pcs s' (Close m) = Out \<longleftrightarrow> pcs s (Close m) = Out" for m
      using keeps(1) [of m] f(6) [of "Close m"] out [of m] by (cases "t = Close m"; simp)+
    have "sums_to (rest s') (importers s')"
      using h(7) keeps(3) by (auto simp: rest_def r f elim: sums_to_cong)
    then show ?thesis using h keeps by (simp add: holds_ok_def f r o)
  next
    case (drops m k rs)
    have r: "remaining (pcs s' (Close j)) = remaining (pcs s (Close j))" "pcs s' (Close j) = pcs s (Close j)" if "j \<noteq> m" for j
      using f(6) [of "Close j"] drops(1) that by auto
    have q: "pcs s (Close m) = Closing (k # rs)" "remaining (pcs s' (Close m)) = rs" "pcs s' (Close m) \<noteq> Out"
      using drops by auto
    have cm: "Closed s m" using h(1) [of m] q by simp
    obtain xs where xs: "holds s m = xs @ k # rs" using h(5) [OF cm] q by auto
    have o: "pcs s' (Close j) = Out \<longleftrightarrow> pcs s (Close j) = Out" for j using q r [of j] by (cases "j = m") auto
    have sf: "\<exists>xs. holds s j = xs @ remaining (pcs s' (Close j))" if "Closed s j" for j
    proof (cases "j = m")
      case True
      then show ?thesis using xs q by (auto intro: exI [of _ "xs @ [k]"])
    qed (use h(5) [OF that] r in simp)
    have k: "k = Owner \<longleftrightarrow> m = 0" and k0: "m = 0 \<Longrightarrow> rs = []"
      using xs h(3) h(4) [of m] by (cases xs; auto)+
    have "rest s' j = rest s j" if "j \<noteq> m" for j using that r [of j] by (simp add: rest_def f)
    note t = sums_to_change [OF h(7), of m "rest s'", OF this]
    have "rest s m = rest s' m + (if k \<noteq> Owner then 1 else 0)" using cm q by (simp add: rest_def f)
    then have "sums_to (rest s') (importers s')" using t drops(6) by (auto split: if_splits)
    moreover have "ownerClosed s' \<longleftrightarrow> Closed s 0 \<and> remaining (pcs s' (Close 0)) = []"
      using drops(5) k k0 h(6) q cm r(1) [of 0] by (cases "m = 0") auto
    ultimately show ?thesis using h sf o by (simp add: holds_ok_def f)
  qed
qed

lemma rest_add:
  assumes "sums_to (rest s) (importers s)" and "\<not> Closed s m" and "\<And>j. pcs s' (Close j) = pcs s (Close j)" and "Closed s' = Closed s"
    and "\<And>j. j \<noteq> m \<Longrightarrow> holds s' j = holds s j"
    and "length (filter (\<lambda>h. h \<noteq> Owner) (holds s' m)) = Suc (length (filter (\<lambda>h. h \<noteq> Owner) (holds s m)))"
  shows "sums_to (rest s') (importers s + 1)"
proof -
  have "rest s' j = rest s j" if "j \<noteq> m" for j using that assms(3-5) by (simp add: rest_def)
  note t = sums_to_change(1) [OF assms(1), of m "rest s'", OF this]
  have "rest s' m = Suc (rest s m)" using assms(2,4,6) by (simp add: rest_def)
  with t show ?thesis by simp
qed

lemma rest_same: "holds_ok s \<Longrightarrow> (\<And>j. rest s' j = rest s j) \<Longrightarrow> sums_to (rest s') (importers s)"
  by (rule sums_to_cong [of "rest s"]) (simp_all add: holds_ok_def)

lemma filter_holds:
  "length (filter (\<lambda>h. h \<noteq> Holder \<and> h \<noteq> Owner) hs) + length (filter (\<lambda>h. h = Holder \<and> h \<noteq> Owner) hs) =
     length (filter (\<lambda>h. h \<noteq> Owner) hs)"
  by (induction hs) auto

lemma holds_ok_step:
  assumes "step s s'" and "control_ok s" and "holds_ok s"
  shows "holds_ok s'"
  using assms(1)
proof cases
  case (s_thread t)
  then show ?thesis using rest_thread assms(2,3) by blast
next
  case (s_import m)
  show ?thesis
  proof (cases "ownerClosed s")
    case False
    have m: "m \<noteq> 0" "\<not> Closed s m" using s_import assms(3) by (auto simp: holds_ok_def)
    moreover have "sums_to (rest s') (importers s + 1)"
      using assms(3) m False s_import
      by (intro rest_add [where m = m]) (auto simp: holds_ok_def step_defs memories_def filter_holds)
    ultimately show ?thesis using s_import assms(3) False
      by (auto simp: holds_ok_def step_defs memories_def)
  qed (use s_import assms(3) in \<open>simp add: step_defs\<close>)
next
  case (s_hold m)
  show ?thesis
  proof (cases "ownerClosed s")
    case False
    have m: "m \<noteq> 0" "\<not> Closed s m" using s_hold assms(3) by (auto simp: holds_ok_def)
    moreover have "sums_to (rest s') (importers s + 1)"
      using assms(3) m False s_hold by (intro rest_add [where m = m]) (auto simp: holds_ok_def step_defs)
    ultimately show ?thesis using s_hold assms(3) False by (auto simp: holds_ok_def step_defs)
  qed (use s_hold assms(3) in \<open>simp add: step_defs\<close>)
next
  case (s_close m)
  have "rest s' j = rest s j" for j using s_close by (simp add: rest_def step_defs)
  then have "sums_to (rest s') (importers s)" by (rule rest_same [OF assms(3)])
  with s_close assms(3) show ?thesis by (auto simp: holds_ok_def step_defs)
next
  case (s_enter c)
  have "rest s' j = rest s j" for j using s_enter by (simp add: rest_def step_defs)
  then have "sums_to (rest s') (importers s)" by (rule rest_same [OF assms(3)])
  with s_enter assms(3) show ?thesis by (auto simp: holds_ok_def step_defs)
next
  case (s_instantiated m)
  have "rest s' j = rest s j" for j using s_instantiated by (simp add: rest_def)
  then have "sums_to (rest s') (importers s)" by (rule rest_same [OF assms(3)])
  with s_instantiated assms(3) show ?thesis by (auto simp: holds_ok_def)
next
  case (s_slot c)
  have "rest s' j = rest s j" for j using s_slot by (simp add: rest_def step_defs)
  then have "sums_to (rest s') (importers s)" by (rule rest_same [OF assms(3)])
  with s_slot assms(3) show ?thesis by (auto simp: holds_ok_def step_defs)
next
  case (s_grow c n)
  have "rest s' j = rest s j" for j using s_grow by (simp add: rest_def)
  then have "sums_to (rest s') (importers s)" by (rule rest_same [OF assms(3)])
  with s_grow assms(3) show ?thesis by (auto simp: holds_ok_def)
qed

lemma dead_closed:
  assumes "dead s" and "holds_ok s" and "holds s m \<noteq> []"
  shows "Closed s m"
proof (cases "m = 0")
  case True
  then show ?thesis using assms by (auto simp: dead_def holds_ok_def)
next
  case False
  have "rest s m = 0" using assms(1,2) by (auto simp: dead_def holds_ok_def intro: sums_to_0)
  moreover have "filter (\<lambda>h. h \<noteq> Owner) (holds s m) = holds s m"
    using False assms(2) by (auto simp: holds_ok_def intro!: filter_True)
  ultimately show ?thesis using assms(3) by (auto simp: rest_def split: if_splits)
qed

lemma dead_step:
  assumes "step s s'" and "dead s"
  shows "dead s'"
  using assms(1)
proof cases
  case (s_thread t)
  then show ?thesis using assms(2)
    by (cases rule: thread_step.cases [of "(t, pcs s t, s)"]) (auto simp: dead_def step_defs split: if_splits)
qed (use assms(2) in \<open>auto simp: dead_def step_defs\<close>)

lemma released_step:
  assumes "step s s'" and "isReleased s"
  shows "isReleased s'"
  using assms(1)
proof cases
  case (s_thread t)
  then show ?thesis using assms(2)
    by (cases rule: thread_step.cases [of "(t, pcs s t, s)"]) (auto simp: step_defs split: if_splits)
qed (use assms(2) in \<open>auto simp: step_defs\<close>)

text \<open>What the step of a thread does to the claim and the region.\<close>

lemma thread_step_claim:
  assumes "pcs s t = q" and "thread_step t q s = Some s'" and "pc_ok t q"
  shows "claiming (pcs s' t) \<Longrightarrow> claiming q \<or> dead s'"
    and "owning (pcs s' t) \<or> draining (pcs s' t) \<Longrightarrow> owning q \<or> draining q \<or> isReleased s'"
    and "isReleased s' \<Longrightarrow> isReleased s \<or> claiming q"
    and "pendingRecycle s' \<Longrightarrow> pendingRecycle s \<or> owning q"
    and "dead s' \<Longrightarrow> dead s \<or> claiming (pcs s' t)"
    and "claiming q \<Longrightarrow> claiming (pcs s' t) \<or> isReleased s'"
  using assms
  by (cases rule: thread_step.cases [of "(t, q, s)"];
      auto simp: step_defs dead_def split: if_splits list.splits thread.splits)+

lemma dead_ok_thread:
  assumes "control_ok s" and "dead_ok s" and adv: "thread_step t (pcs s t) s = Some s'"
  shows "dead_ok s'"
proof -
  have ok: "pc_ok t (pcs s t)" using assms(1) by (auto simp: control_ok_def threads_ok_def)
  note a = thread_step_claim [OF refl adv ok] and f = thread_step_frame(6) [OF adv]
  have d: "dead s \<Longrightarrow> dead s'" and r: "isReleased s \<Longrightarrow> isReleased s'"
    using dead_step released_step s_thread [OF adv] by blast+
  show ?thesis
    unfolding dead_ok_def
  proof (intro conjI allI impI)
    show "dead s'" if "isReleased s'" using a(3) [OF that] assms(2) d by (auto simp: dead_ok_def)
    show "dead s'" if "claiming (pcs s' u)" for u using that a(1) f [of u] assms(2) d by (cases "u = t") (auto simp: dead_ok_def)
    show "isReleased s'" if "owning (pcs s' u) \<or> draining (pcs s' u)" for u
      using that a(2) f [of u] assms(2) r by (cases "u = t") (auto simp: dead_ok_def)
    show "isReleased s'" if "pendingRecycle s'" using a(4) [OF that] assms(2) r by (auto simp: dead_ok_def)
    show "\<exists>u. claiming (pcs s' u)" if "dead s' \<and> \<not> isReleased s'"
      using that a(5,6) f assms(2) r unfolding dead_ok_def by metis
  qed
qed

lemma dead_ok_same:
  assumes "dead_ok s" and "\<And>t. claiming (pcs s' t) = claiming (pcs s t)" and "\<And>t. owning (pcs s' t) = owning (pcs s t)"
    and "\<And>t. draining (pcs s' t) = draining (pcs s t)" and "isReleased s' = isReleased s" and "dead s' = dead s"
    and "pendingRecycle s' = pendingRecycle s"
  shows "dead_ok s'"
  using assms(1) unfolding dead_ok_def assms(2-7) .

lemma dead_ok_step:
  assumes "step s s'" and "control_ok s" and "holds_ok s" and "dead_ok s"
  shows "dead_ok s'"
  using assms(1)
proof cases
  case (s_thread t)
  then show ?thesis using assms dead_ok_thread by blast
next
  case (s_close m)
  then have "pcs s (Close m) = Out" using assms(3) by (auto simp: holds_ok_def)
  with s_close show ?thesis by (intro dead_ok_same [OF assms(4)]) (auto simp: dead_def step_defs)
next
  case (s_enter c)
  then show ?thesis by (intro dead_ok_same [OF assms(4)]) (auto simp: dead_def step_defs)
qed (rule dead_ok_same [OF assms(4)]; auto simp: dead_def step_defs)+

lemma tok_simps [simp]: "tok True = 1" "tok False = 0" "tok b = 0 \<longleftrightarrow> \<not> b" "0 < tok b \<longleftrightarrow> b" "tok b \<le> 1"
  by (auto simp: tok_def)

lemma thread_step_token:
  assumes "pcs s t = q" and "thread_step t q s = Some s'" and "owning q \<Longrightarrow> \<not> pendingRecycle s"
  shows "tok (owning (pcs s' t)) + tok (pendingRecycle s') + length (pooled s') + tok (isReleased s) =
    tok (owning q) + tok (pendingRecycle s) + length (pooled s) + tok (isReleased s')"
  using assms
  by (cases rule: thread_step.cases [of "(t, q, s)"])
    (auto simp: step_defs split: if_split_asm list.splits thread.splits)

lemma token_ok_same:
  assumes "token_ok s" and "\<And>t. owning (pcs s' t) = owning (pcs s t)" and "isReleased s' = isReleased s"
    and "pendingRecycle s' = pendingRecycle s" and "pooled s' = pooled s"
  shows "token_ok s'"
  using assms(1) unfolding token_ok_def assms(2-5) .

lemma token_owning:
  assumes "token_ok s" and "owning (pcs s t)"
  shows "\<not> pendingRecycle s" and "pooled s = []" and "isReleased s"
proof -
  obtain k where k: "sums_to (\<lambda>t. tok (owning (pcs s t))) k"
    "k + tok (pendingRecycle s) + length (pooled s) = tok (isReleased s)" using assms(1) by (auto simp: token_ok_def)
  have "1 \<le> k" using sums_to_change(2) [OF k(1), of t "\<lambda>t. tok (owning (pcs s t))"] assms(2) by simp
  moreover have "k + tok (pendingRecycle s) + length (pooled s) \<le> 1" "k \<le> tok (isReleased s)"
    using k(2) tok_simps(5) [of "isReleased s"] by linarith+
  ultimately have "tok (pendingRecycle s) = 0" "length (pooled s) = 0" "0 < tok (isReleased s)"
    by linarith+
  then show "\<not> pendingRecycle s" "pooled s = []" "isReleased s" by auto
qed

lemma token_ok_step:
  assumes "step s s'" and "holds_ok s" and "token_ok s"
  shows "token_ok s'"
  using assms(1)
proof cases
  case (s_thread t)
  obtain k where k: "sums_to (\<lambda>t. tok (owning (pcs s t))) k"
    "k + tok (pendingRecycle s) + length (pooled s) = tok (isReleased s)" using assms(3) by (auto simp: token_ok_def)
  have "tok (owning (pcs s' u)) = tok (owning (pcs s u))" if "u \<noteq> t" for u
    using thread_step_frame(6) [OF s_thread that] by simp
  note c = sums_to_change [OF k(1), of t "\<lambda>u. tok (owning (pcs s' u))", OF this]
  have "tok (owning (pcs s' t)) + tok (pendingRecycle s') + length (pooled s') + tok (isReleased s) =
      tok (owning (pcs s t)) + tok (pendingRecycle s) + length (pooled s) + tok (isReleased s')"
    using token_owning(1) [OF assms(3)] by (intro thread_step_token [OF refl s_thread])
  with c(2) k(2) have "k + tok (owning (pcs s' t)) - tok (owning (pcs s t)) + tok (pendingRecycle s') + length (pooled s') =
      tok (isReleased s')" by linarith
  with c(1) show ?thesis unfolding token_ok_def by blast
next
  case (s_close m)
  then have "pcs s (Close m) = Out" using assms(2) by (auto simp: holds_ok_def)
  with s_close show ?thesis by (intro token_ok_same [OF assms(3)]) (auto simp: step_defs)
next
  case (s_enter c)
  then show ?thesis by (intro token_ok_same [OF assms(3)]) (auto simp: step_defs)
qed (rule token_ok_same [OF assms(3)]; auto simp: step_defs)+

text \<open>Once the modules of the registered calls are closed, none of these calls starts to run, and one that runs keeps its mark.\<close>

lemma step_running:
  assumes "step s s'" and "control_ok s" and "holds_ok s" and "dead s" and "pcs s' (Call c) = Running"
    and "memories (holds s (home c)) \<noteq> []"
  shows "pcs s (Call c) = Running" and "inFlight s c = slotHandoff \<Longrightarrow> inFlight s' c = slotHandoff"
proof -
  have "holds s (home c) \<noteq> []" using assms(6) by (auto simp: memories_def)
  then have cl: "Closed s (home c)" using dead_closed assms(3,4) by blast
  from assms(1) show "pcs s (Call c) = Running"
  proof cases
    case (s_thread t)
    then show ?thesis using assms(5) cl
      by (cases rule: thread_step.cases [of "(t, pcs s t, s)"]) (auto simp: step_defs split: if_splits list.splits thread.splits)
  qed (use assms(5) in \<open>auto simp: step_defs split: if_splits\<close>)
  note r = this
  show "inFlight s' c = slotHandoff" if "inFlight s c = slotHandoff"
    using assms(1)
  proof cases
    case (s_thread t)
    then show ?thesis using assms(5) that r
      by (cases rule: thread_step.cases [of "(t, pcs s t, s)"]) (auto simp: step_defs split: if_splits list.splits thread.splits)
  qed (use assms(5) that r in \<open>auto simp: step_defs split: if_splits\<close>)
qed

lemma token_pooled:
  assumes "token_ok s" and "pooled s \<noteq> []"
  shows "isReleased s \<and> length (pooled s) = 1"
proof -
  obtain k where "k + tok (pendingRecycle s) + length (pooled s) = tok (isReleased s)" using assms(1) by (auto simp: token_ok_def)
  moreover have "0 < length (pooled s)" using assms(2) by simp
  ultimately have "0 < tok (isReleased s)" "length (pooled s) = 1" using tok_simps(5) [of "isReleased s"] by linarith+
  then show ?thesis by simp
qed

lemma callers_step:
  assumes "step s s'" and "control_ok s" and "c \<in> set (callers s')"
  shows "memories (holds s (home c)) \<noteq> []"
  using assms(1)
proof cases
  case (s_thread t)
  then show ?thesis using thread_step_frame(3) [OF s_thread] assms(2,3) by (auto simp: control_ok_def callers_ok_def)
qed (use assms(2,3) in \<open>auto simp: control_ok_def callers_ok_def step_defs split: if_splits\<close>)

lemma quiet_step:
  assumes "step s s'" and "control_ok s" and "holds_ok s" and "dead s" and "quiet s"
  shows "quiet s'"
proof -
  have "pcs s' (Call c) \<noteq> Running" if c: "c \<in> set (callers s')" for c
  proof
    assume r: "pcs s' (Call c) = Running"
    have m: "memories (holds s (home c)) \<noteq> []" using callers_step assms(1,2) c by blast
    have "pcs s (Call c) = Running" by (rule step_running [OF assms(1-4) r m])
    moreover from this have "c \<in> set (callers s)" using assms(2) m by (auto simp: control_ok_def calls_ok_def)
    ultimately show False using assms(5) by (auto simp: quiet_def)
  qed
  then show ?thesis by (simp add: quiet_def)
qed

lemma seen_ok_step:
  assumes "step s s'" and "control_ok s" and "holds_ok s" and "dead s" and "seen_ok s q" and "critical q \<Longrightarrow> callers s' = callers s"
  shows "seen_ok s' q"
proof -
  have c: "pcs s (Call c) = Running \<and> (inFlight s c = slotHandoff \<longrightarrow> inFlight s' c = slotHandoff)"
    if "c \<in> set (callers s')" "pcs s' (Call c) = Running" for c
    using step_running [OF assms(1-4) that(2) callers_step [OF assms(1,2) that(1)]] by blast
  show ?thesis
  proof (cases q)
    case (Putting d n rs)
    then show ?thesis using quiet_step [OF assms(1-4)] assms(5) by simp
  qed (use assms(5,6) c in auto)
qed

lemma callers_locked:
  assumes "step s s'" and "Mux s \<noteq> None"
  shows "callers s' = callers s"
  using assms(1)
proof cases
  case (s_thread t)
  then show ?thesis by (rule thread_step_frame(3))
qed (use assms(2) in \<open>auto simp: step_defs\<close>)

lemma thread_step_seen:
  assumes "pcs s t = q" and "thread_step t q s = Some s'" and "seen_ok s q" and "pc_ok t q" and f: "flags_ok s"
  shows "seen_ok s' (pcs s' t)"
proof -
  have r: "inFlight s c = slotBusy \<or> inFlight s c = slotHandoff" if "pcs s (Call c) = Running" for c
  proof -
    have "in_call (pcs s (Call c)) \<longleftrightarrow> inFlight s c \<noteq> slotIdle" using f by (simp add: flags_ok_def)
    with that show ?thesis by (cases "inFlight s c") simp_all
  qed
  from assms(2,1,3,4) show ?thesis
  proof (cases rule: thread_step.cases [of "(t, q, s)"])
    case (12 u k c cs b rs s0)
    then show ?thesis using assms(1-4) r by (auto simp: step_defs split: if_split_asm) metis+
  next
    case (13 u k c cs b rs s0)
    then show ?thesis using assms(1-4) r by (auto simp: step_defs)
  qed (auto simp: step_defs quiet_def split: if_split_asm list.splits thread.splits)
qed

lemma scan_ok_step:
  assumes "step s s'" and "control_ok s" and "holds_ok s" and "dead_ok s" and "scan_ok s" and "token_ok s"
  shows "scan_ok s'"
proof -
  have d: "dead s" if "isReleased s" using assms(4) that by (simp add: dead_ok_def)
  have rel: "isReleased s" if "pooled s \<noteq> []" using token_pooled [OF assms(6) that] by simp
  have keep: "seen_ok s' (pcs s u)" for u
  proof (cases "owning (pcs s u) \<or> draining (pcs s u)")
    case True
    then have "dead s" using assms(4) d by (auto simp: dead_ok_def)
    moreover have "critical (pcs s u) \<Longrightarrow> callers s' = callers s"
      using callers_locked [OF assms(1)] assms(2) by (auto simp: control_ok_def threads_ok_def)
    moreover have "seen_ok s (pcs s u)" using assms(5) by (simp add: scan_ok_def)
    ultimately show ?thesis using seen_ok_step [OF assms(1-3)] by blast
  next
    case False
    then show ?thesis by (cases "pcs s u") auto
  qed
  have q: "quiet s'" if "isReleased s" "quiet s" using quiet_step [OF assms(1-3) d [OF that(1)] that(2)] .
  from assms(1) show ?thesis
  proof cases
    case (s_thread t)
    have ok: "pc_ok t (pcs s t)" "flags_ok s" "seen_ok s (pcs s t)"
      using assms(2,5) by (auto simp: control_ok_def threads_ok_def scan_ok_def)
    have "seen_ok s' (pcs s' u)" for u
      using thread_step_seen [OF refl s_thread ok(3,1,2)] keep [of u] thread_step_frame(6) [OF s_thread, of u] by (cases "u = t") auto
    moreover have "quiet s'" if "pooled s' \<noteq> []"
    proof (cases "pooled s = []")
      case True
      then have p: "owning (pcs s t)" "quiet s" using that ok(3) s_thread
        by (cases rule: thread_step.cases [of "(t, pcs s t, s)"]; auto simp: step_defs split: if_split_asm)+
      then show ?thesis using q assms(4) by (auto simp: dead_ok_def)
    next
      case False
      then show ?thesis using q rel assms(5) by (simp add: scan_ok_def)
    qed
    ultimately show ?thesis by (simp add: scan_ok_def)
  next
    case (s_close m)
    then have "seen_ok s' (pcs s' u)" for u using keep [of u] by (simp add: step_defs)
    moreover have "pooled s' = pooled s" using s_close by (simp add: step_defs)
    ultimately show ?thesis using q rel assms(5) by (simp add: scan_ok_def)
  next
    case (s_enter c)
    then have "seen_ok s' (pcs s' u)" for u using keep [of u] by (simp add: step_defs)
    moreover have "pooled s' = pooled s" using s_enter by (simp add: step_defs)
    ultimately show ?thesis using q rel assms(5) by (simp add: scan_ok_def)
  qed (use keep q rel assms(5) in \<open>auto simp: scan_ok_def step_defs split: if_split_asm\<close>)
qed

text \<open>Only its own steps can discharge a thread.\<close>

lemma step_obliged:
  assumes "step s s'" and "control_ok s" and "holds_ok s" and "obliged s u"
  shows "obliged s' u \<or> thread_step u (pcs s u) s = Some s'"
  using assms(1)
proof cases
  case (s_thread t)
  show ?thesis
  proof (cases "u = t")
    case False
    then have "pcs s' u = pcs s u" using thread_step_frame(6) [OF s_thread] by simp
    moreover have "inFlight s' c = slotHandoff" if "inFlight s c = slotHandoff" "u = Call c" for c
      using s_thread that False
      by (cases rule: thread_step.cases [of "(t, pcs s t, s)"]) (auto simp: step_defs split: if_split_asm)
    ultimately show ?thesis using assms(4) by (auto simp: obliged_def)
  qed (use s_thread in simp)
next
  case (s_enter c)
  have "in_call (pcs s (Call c)) \<longleftrightarrow> inFlight s c \<noteq> slotIdle" using assms(2) by (simp add: control_ok_def flags_ok_def)
  then have "inFlight s c = slotIdle" using s_enter by simp
  with s_enter assms(4) show ?thesis by (auto simp: obliged_def step_defs)
next
  case (s_close m)
  then have "pcs s (Close m) = Out" using assms(3) by (auto simp: holds_ok_def)
  with s_close assms(4) show ?thesis by (auto simp: obliged_def step_defs)
qed (use assms(4) in \<open>auto simp: obliged_def step_defs\<close>)

lemma handoff_memories: "control_ok s \<Longrightarrow> inFlight s c = slotHandoff \<Longrightarrow> memories (holds s (home c)) \<noteq> []"
  by (auto simp: control_ok_def callers_ok_def)

lemma thread_step_obliged_waiting:
  assumes "thread_step u (pcs s u) s = Some s'" and "control_ok s" and "obliged s u" and "\<not> critical (pcs s u)" and "isReleased s"
  shows "obliged s' u"
  using assms handoff_memories [OF assms(2)]
  by (cases rule: thread_step.cases [of "(u, pcs s u, s)"]) (auto simp: obliged_def step_defs split: if_split_asm list.splits)

text \<open>A slot that a scan of another thread marks.\<close>

lemma thread_step_found_busy:
  assumes "thread_step t (pcs s t) s = Some s'" and "control_ok s" and "found_busy (pcs s' t)"
  shows "found_busy (pcs s t) \<or> (\<exists>u. u \<noteq> t \<and> obliged s' u)"
proof -
  have i: "pcs s t \<noteq> q \<or> in_call q \<or> inFlight s c = slotIdle" if "t = Call c" for c q
    using assms(2) that by (auto simp: control_ok_def flags_ok_def)
  show ?thesis
    using assms(1,3)
  proof (cases rule: thread_step.cases [of "(t, pcs s t, s)"])
    case (12 u k c cs b rs s0)
    then have "t \<noteq> Call c" if "inFlight s c = slotBusy" using i [of c "Scan k (c # cs) b rs"] that by auto
    moreover have "obliged s' (Call c)" if "inFlight s c = slotBusy" using 12 assms(1) that by (auto simp: step_defs obliged_def)
    moreover have "found_busy (pcs s t)" if "inFlight s c \<noteq> slotBusy" using 12 assms(1,3) that by (auto simp: step_defs)
    ultimately show ?thesis by metis
  next
    case (13 u k c cs b rs s0)
    then have "t \<noteq> Call c" if "inFlight s c = slotHandoff" using i [of c "ScanLoad k c cs b rs"] that by auto
    moreover have "obliged s' (Call c)" if "inFlight s c = slotHandoff" using 13 assms(1) that by (auto simp: step_defs obliged_def)
    moreover have "found_busy (pcs s t)" if "inFlight s c \<noteq> slotHandoff" using 13 assms(1,3) that by (auto simp: step_defs)
    ultimately show ?thesis by metis
  qed (auto simp: step_defs split: if_split_asm list.splits thread.splits)
qed

lemma thread_step_obliged_scanning:
  assumes "thread_step u (pcs s u) s = Some s'" and "control_ok s" and "obliged_pc (pcs s u)" and "critical (pcs s u)"
    and "pendingRecycle s'"
  shows "obliged s' u \<or> found_busy (pcs s' u)"
  using assms
  by (cases rule: thread_step.cases [of "(u, pcs s u, s)"]) (auto simp: obliged_def step_defs split: if_split_asm list.splits)

lemma duty_ok_step:
  assumes "step s s'" and "control_ok s" and "holds_ok s" and "dead_ok s" and "duty_ok s"
  shows "duty_ok s'"
proof -
  have others: "obliged s' u" if "obliged s u" "\<not> critical (pcs s u)" "isReleased s" for u
    using step_obliged [OF assms(1-3) that(1)] thread_step_obliged_waiting [OF _ assms(2) that] by blast
  have busy: "\<exists>u. u \<noteq> t \<and> obliged s' u" if f: "found_busy (pcs s' t)" for t
  proof -
    have "found_busy (pcs s t) \<or> (\<exists>u. u \<noteq> t \<and> obliged s' u)"
      using assms(1)
    proof cases
      case (s_thread v)
      then show ?thesis using thread_step_found_busy [OF s_thread assms(2)] f thread_step_frame(6) [OF s_thread, of t] by (cases "t = v") auto
    qed (use f in \<open>auto simp: step_defs split: if_split_asm\<close>)
    moreover have ?thesis if b: "found_busy (pcs s t)"
    proof -
      obtain u where u: "u \<noteq> t" "obliged s u" using assms(5) b by (auto simp: duty_ok_def)
      have "critical (pcs s t)" "draining (pcs s t)" using b by (cases "pcs s t"; simp)+
      then have "Mux s = Some t" "isReleased s" using assms(2,4) by (auto simp: control_ok_def threads_ok_def dead_ok_def)
      then have "\<not> critical (pcs s u)" using u assms(2) by (auto simp: control_ok_def threads_ok_def)
      then show ?thesis using others u \<open>isReleased s\<close> by blast
    qed
    ultimately show ?thesis by blast
  qed
  moreover have "\<exists>t. obliged s' t" if p': "pendingRecycle s'"
  proof (cases "pendingRecycle s")
    case True
    then obtain u where u: "obliged s u" and r: "isReleased s" using assms(4,5) by (auto simp: duty_ok_def dead_ok_def)
    show ?thesis
    proof (cases "critical (pcs s u)")
      case False
      then show ?thesis using others u r by blast
    next
      case True
      then have "obliged_pc (pcs s u) \<or> (\<exists>c. u = Call c \<and> inFlight s c = slotHandoff)" using u by (simp add: obliged_def)
      then have o: "obliged_pc (pcs s u)"
      proof
        assume "\<exists>c. u = Call c \<and> inFlight s c = slotHandoff"
        then obtain c where c: "u = Call c" "inFlight s c = slotHandoff" by blast
        then have "in_call (pcs s u)" using assms(2) by (simp add: control_ok_def flags_ok_def)
        with True show ?thesis by (cases "pcs s u") auto
      qed
      from step_obliged [OF assms(1-3) u] show ?thesis
      proof
        assume "thread_step u (pcs s u) s = Some s'"
        from thread_step_obliged_scanning [OF this assms(2) o True p'] busy show ?thesis by blast
      qed blast
    qed
  next
    case False
    from assms(1) show ?thesis
    proof cases
      case (s_thread t)
      then have "obliged s' t" using False p'
        by (cases rule: thread_step.cases [of "(t, pcs s t, s)"]) (auto simp: obliged_def step_defs split: if_split_asm)
      then show ?thesis by blast
    qed (use False p' in \<open>auto simp: step_defs split: if_split_asm\<close>)
  qed
  ultimately show ?thesis by (simp add: duty_ok_def)
qed

lemma holder_only_step:
  assumes "step s s'" and "holder_only s"
  shows "holder_only s'"
proof -
  obtain m where m: "instantiated s m" "holds s m \<noteq> []" "memories (holds s m) = []" using assms(2) by (auto simp: holder_only_def)
  from assms(1) have "instantiated s' m \<and> holds s' m = holds s m"
  proof cases
    case (s_thread t)
    then show ?thesis using thread_step_frame(1,2) [OF s_thread] m by simp
  qed (use m in \<open>auto simp: step_defs\<close>)
  with m show ?thesis unfolding holder_only_def by metis
qed

lemma prefix_ok_step:
  assumes "step s s'" and "control_ok s" and "scan_ok s" and "prefix_ok s"
  shows "prefix_ok s'"
  using assms(1)
proof cases
  case (s_thread t)
  note f = thread_step_frame [OF s_thread] and h = holder_only_step [OF assms(1)]
  have "n = memSize s' \<or> holder_only s'" if "pcs s' u = Putting True n rs" for u n rs
  proof (cases "u = t")
    case True
    then show ?thesis using that s_thread f(5)
      by (cases rule: thread_step.cases [of "(t, pcs s t, s)"]) (auto simp: step_defs split: if_split_asm list.splits thread.splits)
  next
    case False
    then show ?thesis using that f(5,6) h assms(4) by (auto simp: prefix_ok_def)
  qed
  moreover have "n = memSize s' \<or> holder_only s'" if "(True, n) \<in> set (pooled s')" for n
  proof -
    have "(True, n) \<in> set (pooled s) \<or> (\<exists>rs. pcs s t = Putting True n rs)"
      using that s_thread
      by (cases rule: thread_step.cases [of "(t, pcs s t, s)"]) (auto simp: step_defs split: if_split_asm)
    then show ?thesis using f(5) h assms(4) by (auto simp: prefix_ok_def)
  qed
  ultimately show ?thesis by (simp add: prefix_ok_def)
next
  case (s_grow c n)
  have i: "instantiated s (home c)" "holds s (home c) \<noteq> []" "memories (holds s (home c)) \<noteq> [] \<Longrightarrow> c \<in> set (callers s)"
    using assms(2) s_grow by (auto simp: control_ok_def calls_ok_def)
  have "holder_only s" if "quiet s" using that i s_grow by (auto simp: quiet_def holder_only_def)
  then have "holder_only s'" if "quiet s" using that holder_only_step [OF assms(1)] by blast
  moreover have "quiet s" if "pcs s t = Putting True k rs" for t k rs
    using assms(3) that unfolding scan_ok_def by (metis seen_ok.simps(3))
  moreover have "quiet s" if "p \<in> set (pooled s)" for p using assms(3) that by (auto simp: scan_ok_def)
  ultimately have "holder_only s'" if "pcs s t = Putting True k rs \<or> p \<in> set (pooled s)" for t k rs p using that by blast
  moreover have "pcs s' = pcs s" "pooled s' = pooled s" using s_grow by auto
  ultimately show ?thesis unfolding prefix_ok_def by metis
next
  case (s_import m)
  then show ?thesis using assms(4) holder_only_step [OF assms(1)] by (auto simp: prefix_ok_def step_defs split: if_split_asm)
next
  case (s_hold m)
  then show ?thesis using assms(4) holder_only_step [OF assms(1)] by (auto simp: prefix_ok_def step_defs split: if_split_asm)
next
  case (s_instantiated m)
  then show ?thesis using assms(4) holder_only_step [OF assms(1)] by (auto simp: prefix_ok_def)
next
  case (s_slot c)
  then show ?thesis using assms(4) holder_only_step [OF assms(1)] by (auto simp: prefix_ok_def step_defs split: if_split_asm)
next
  case (s_enter c)
  then show ?thesis using assms(4) holder_only_step [OF assms(1)] by (auto simp: prefix_ok_def step_defs split: if_split_asm)
next
  case (s_close m)
  then show ?thesis using assms(4) holder_only_step [OF assms(1)] by (auto simp: prefix_ok_def step_defs split: if_split_asm)
qed

lemma sums_to_zero: "sums_to (\<lambda>_. 0) 0"
  by (auto simp: sums_to_def)

lemma protocol_ok_initial: "protocol_ok (initial n)"
proof -
  have "rest (initial n) = (\<lambda>_. 0)" by (auto simp: rest_def initial_def)
  then show ?thesis
    by (auto simp: protocol_ok_def control_ok_def threads_ok_def flags_ok_def calls_ok_def callers_ok_def holds_ok_def dead_ok_def
        dead_def token_ok_def scan_ok_def duty_ok_def prefix_ok_def initial_def sums_to_zero quiet_def)
qed

lemma reachable_protocol_ok: "reachable s \<Longrightarrow> protocol_ok s"
proof (induction rule: reachable.induct)
  case (r_step s s')
  then show ?case
    unfolding protocol_ok_def
    by (meson control_ok_step dead_ok_step duty_ok_step holds_ok_step prefix_ok_step scan_ok_step token_ok_step)
qed (rule protocol_ok_initial)

section \<open>Schedules\<close>

lemma perform_step: "perform e s = Some s' \<Longrightarrow> step s s'"
  by (cases e) (auto split: if_splits intro: step.intros)

lemma schedule_reachable: "reachable s \<Longrightarrow> schedule es s = Some s' \<Longrightarrow> reachable s'"
proof (induction es arbitrary: s)
  case (Cons e es)
  then obtain s1 where "perform e s = Some s1" "schedule es s1 = Some s'" by (auto simp: bind_eq_Some_conv)
  with Cons show ?case using r_step perform_step by blast
qed simp

section \<open>Properties\<close>

text \<open>
  C4. The region of a memory is returned to the pool at most once, and only after every module that can reach the memory was closed;
  from then on no call of a module that owns or imports the memory runs, however
  the calls, the closes and their atomic steps are interleaved.
\<close>

theorem recycled_region_unused:
  assumes "reachable s" and "pooled s \<noteq> []"
  shows "length (pooled s) = 1 \<and> (\<forall>m. holds s m = [] \<or> Closed s m) \<and>
    (\<forall>c. memories (holds s (home c)) = [] \<or> pcs s (Call c) \<noteq> Running)"
proof -
  have ok: "control_ok s" "holds_ok s" "dead_ok s" "token_ok s" "scan_ok s"
    using reachable_protocol_ok [OF assms(1)] by (auto simp: protocol_ok_def)
  have p: "length (pooled s) = 1" "isReleased s" using token_pooled [OF ok(4) assms(2)] by auto
  have d: "dead s" using ok(3) p by (simp add: dead_ok_def)
  have "pcs s (Call c) \<noteq> Running" if "memories (holds s (home c)) \<noteq> []" for c
  proof
    assume r: "pcs s (Call c) = Running"
    then have "c \<in> set (callers s)" using ok(1) that by (auto simp: control_ok_def calls_ok_def)
    then show False using ok(5) assms(2) r by (auto simp: scan_ok_def quiet_def)
  qed
  with p d dead_closed [OF d ok(2)] show ?thesis by blast
qed

text \<open>
  C19. No region is lost: once every module that can reach the memory was closed and every call and close has finished, the
  region is in the pool, exactly once.
\<close>

theorem region_recycled:
  assumes "reachable s" and "\<And>m. holds s m \<noteq> [] \<Longrightarrow> Closed s m" and "\<And>t. pcs s t = Out \<or> pcs s t = Closing []"
  shows "length (pooled s) = 1"
proof -
  have ok: "control_ok s" "holds_ok s" "dead_ok s" "token_ok s" "duty_ok s"
    using reachable_protocol_ok [OF assms(1)] by (auto simp: protocol_ok_def)
  have pc: "\<not> claiming (pcs s t)" "\<not> owning (pcs s t)" "\<not> obliged_pc (pcs s t)" "\<not> in_call (pcs s t)" "remaining (pcs s t) = []" for t
    using assms(3) [of t] by auto
  have "rest s m = 0" for m using pc(5) [of "Close m"] assms(2) [of m] by (cases "holds s m = []") (auto simp: rest_def)
  then have "importers s = 0" using ok(2) by (auto simp: holds_ok_def sums_to_def)
  moreover have "ownerClosed s" using ok(2) pc(5) [of "Close 0"] assms(2) [of 0] by (auto simp: holds_ok_def)
  ultimately have "isReleased s" using ok(3) pc(1) by (auto simp: dead_ok_def dead_def)
  moreover have "\<not> pendingRecycle s"
    using ok(1,5) pc(3,4) by (auto simp: duty_ok_def obliged_def control_ok_def flags_ok_def)
  moreover obtain k where "sums_to (\<lambda>t. tok (owning (pcs s t))) k" "k + tok (pendingRecycle s) + length (pooled s) = tok (isReleased s)"
    using ok(4) by (auto simp: token_ok_def)
  moreover have "tok (owning (pcs s t)) = 0" for t using pc(2) by simp
  ultimately show ?thesis by (auto simp: sums_to_def)
qed

lemma deferred_schedule_end:
  "\<exists>s. reachable s \<and> pooled s = [(True, 3)] \<and> memSize s = 3 \<and> (\<forall>m. m \<noteq> 0 \<longrightarrow> holds s m = []) \<and> holds s 0 = [Owner] \<and>
     Closed s 0 \<and> (\<forall>t. pcs s t = Out \<or> pcs s t = Closing [])"
proof -
  have "\<exists>s. schedule deferred_schedule (initial 2) = Some s \<and> pooled s = [(True, 3)] \<and> memSize s = 3 \<and>
      (\<forall>m. m \<noteq> 0 \<longrightarrow> holds s m = []) \<and> holds s 0 = [Owner] \<and> Closed s 0 \<and>
      pcs s (Close 0) = Closing [] \<and> pcs s (Call (Engine 0 0)) = Out \<and>
      (\<forall>t. t \<noteq> Close 0 \<longrightarrow> t \<noteq> Call (Engine 0 0) \<longrightarrow> pcs s t = Out)"
    by (simp add: deferred_schedule_def Let_def initial_def step_defs memories_def)
  then show ?thesis using schedule_reachable [OF r_initial] by metis
qed

theorem recycled_region_unused_witness:
  "\<exists>s. reachable s \<and> pooled s = [(True, 3)] \<and> length (pooled s) = 1 \<and> (\<forall>c. memories (holds s (home c)) = [] \<or> pcs s (Call c) \<noteq> Running)"
  using deferred_schedule_end recycled_region_unused by (metis list.distinct(1))

theorem region_recycled_witness:
  "\<exists>s. reachable s \<and> Closed s 0 \<and> length (pooled s) = 1"
proof -
  obtain s where s: "reachable s" "\<And>m. m \<noteq> 0 \<Longrightarrow> holds s m = []" "Closed s 0" "\<And>t. pcs s t = Out \<or> pcs s t = Closing []"
    using deferred_schedule_end by blast
  have "length (pooled s) = 1" by (rule region_recycled [OF s(1) _ s(4)]) (use s(2,3) in metis)
  with s show ?thesis by auto
qed





end
