(* ===== verification/Spec2Isabelle.thy ===== *)
theory Spec2Isabelle
  imports Leb128 Desc_Table Abi_Flat_Plans Sched Wasm_Memory Memory_Release_Invariant
begin

text \<open>
  A verification development for wazy, a WebAssembly runtime with a component model in Go.

  \<^bold>\<open>The program.\<close> A core module reaches the runtime as bytes, whose integers the package
  \<^verbatim>\<open>internal/leb128\<close> reads. Its instance owns or imports linear memories (\<^verbatim>\<open>internal/wasm/memory.go\<close>), whose regions are
  recycled when the modules that reach them are closed (\<^verbatim>\<open>module_instance.go\<close>, \<^verbatim>\<open>memory_pool.go\<close>). Components are typed: the package \<^verbatim>\<open>internal/component/abi\<close> computes from a type
  how its values lie in linear memory and on the core stack. At run time every component instance
  (\<^verbatim>\<open>internal/component/instance\<close>) has one table of handles, in which resources, subtasks, waitable
  sets and the ends of streams and futures share the index space (\<^verbatim>\<open>resource.go\<close>). Asynchronous
  calls park as subtasks in that table, and their events reach the guest through waitable sets
  (\<^verbatim>\<open>waitable.go\<close>). A call into an asynchronous export is a task (\<^verbatim>\<open>task.go\<close>), which is a callback loop
  (\<^verbatim>\<open>guest_task.go\<close>) or a core call on its own stack (\<^verbatim>\<open>stackful_task.go\<close>); tasks are parked with and resumed
  by one scheduler (\<^verbatim>\<open>sched.go\<close>). The system interface keeps its files in a descriptor table
  (\<^verbatim>\<open>internal/descriptor\<close>).

  \<^bold>\<open>The theories.\<close>

  \<^item> \<open>Wazy_Prelude\<close>: results with errors and their sequencing, lists, maps, bits of words, fuel.
  \<^item> \<open>Leb128\<close>: \<^verbatim>\<open>internal/leb128/leb128.go\<close>. Encoders and decoders on words, with the byte reader and
    the slice versions. Shown: round trips at every width, exactly what each decoder accepts and
    returns, shortest encodings, the bound of a vector length.
  \<^item> \<open>Table_Interface\<close>: the interface that clients of an indexed table rely on, as locales; interpreted
    on the descriptor table and on the handle table.
  \<^item> \<open>Desc_Table\<close>: \<^verbatim>\<open>internal/descriptor/table.go\<close>. A bitmap in 64-bit words beside the items. Shown: it
    implements a finite map, inserts at the lowest free key, and iterates in ascending order.
  \<^item> \<open>Abi_Types\<close>, \<open>Abi_Layout\<close>: \<^verbatim>\<open>component/binary/descriptor.go\<close>, \<^verbatim>\<open>abi/layout.go\<close>, \<^verbatim>\<open>abi/fixedlist.go\<close>. The type
    descriptors, alignment, size and discriminants, with the resolver of type indices as a
    parameter. Shown: agreement with a specification of the Canonical ABI, which is stated on
    resolved types over unbounded numbers, and that sizes are multiples of alignments.
  \<^item> \<open>Abi_Flatten\<close>: \<^verbatim>\<open>abi/flatten.go\<close>, \<^verbatim>\<open>abi/flatwidth.go\<close>. Flattening of values and functions and the width
    without flattening. Shown: agreement with the specification, and of the two with each other.
  \<^item> \<open>Abi_Load\<close>, \<open>Abi_Store\<close>: \<^verbatim>\<open>abi/value.go\<close>, \<^verbatim>\<open>abi/memory.go\<close>, \<^verbatim>\<open>abi/scalarlist.go\<close>, the stores of \<^verbatim>\<open>abi/fixedlist.go\<close> and
    \<^verbatim>\<open>abi/plan.go\<close>. Values and their images in linear memory; \<^verbatim>\<open>cabi_realloc\<close> of the guest is a parameter.
  \<^item> \<open>Abi_Ownership\<close>, \<open>Abi_Roundtrip\<close>: which memory a store may change and what a later load finds there. Shown: stored
    values are loaded again, also after other stores; the rest of the host's memory is
    untouched; loads return well-typed values; two places where the code falls short of this.
  \<^item> \<open>Abi_Flat\<close>: \<^verbatim>\<open>abi/coreval.go\<close>, \<^verbatim>\<open>abi/flat.go\<close>, the flat half of \<^verbatim>\<open>abi/fixedlist.go\<close> and the plans of \<^verbatim>\<open>abi/plan.go\<close>. Values on the core
    stack, with the coercion of variant payloads to joined slots and the iterators that undo it.
  \<^item> \<open>Abi_Flat_Kinds\<close>, \<open>Abi_Flat_Roundtrip\<close>, \<open>Abi_Flat_Plans\<close>. Shown: lowering fills exactly the slots of the flattened
    type; what was lowered is lifted again, strings and lists through memory included; compiled plans and
    the entry point on raw slots behave as the general calls.
  \<^item> \<open>Handle_Table\<close>: \<^verbatim>\<open>instance/resource.go\<close>. The table, its free list and slab, and the heap of entries
    that subtasks refer to. Shown: the invariant of indices, borrow scopes and lends over
    all operations, exact conditions of each operation, diagnosis of bad handles, destructors.
  \<^item> \<open>Waitables\<close>: \<^verbatim>\<open>instance/waitable.go\<close> with the built-ins of \<^verbatim>\<open>async_builtins.go\<close> on waitable sets and
    subtasks and the stages of an asynchronous call of \<^verbatim>\<open>async_host_import.go\<close>. Shown: an invariant over
    all steps, first-come order of events, conservation of lends, the life of a subtask.
  \<^item> \<open>Tasks\<close>, \<open>Task_Invariant\<close>: \<^verbatim>\<open>instance/task.go\<close>, \<^verbatim>\<open>guest_task.go\<close>, \<^verbatim>\<open>stackful_task.go\<close>, \<^verbatim>\<open>async_lift.go\<close> and the
    built-ins on the running task. Shown: who holds the exclusive, who is parked and what the
    counters count, in every reachable state; a task resolves once.
  \<^item> \<open>Sched\<close>: \<^verbatim>\<open>instance/sched.go\<close>. The run queue, the parked list and the loops that drive them, with thunks and
    guest code as parameters. Shown: a loop returns with its goal or a genuine deadlock, a round runs
    exactly the snapshot it took, and the invariants of tasks, waitables and handles survive.

  \<^item> \<open>Memory_Interface\<close>: the interface that users of a linear memory rely on, as a locale; interpreted on the accessors with
    32-bit and with 64-bit addresses.
  \<^item> \<open>Wasm_Memory\<close>: \<^verbatim>\<open>internal/wasm/memory.go\<close> and \<^verbatim>\<open>memory_pool.go\<close>. Instances, their size, growth, readers and writers, and the pool of
    regions. Shown: growth implements an abstract memory of bytes and a maximum; every accessor is exact at
    the bounds; a new memory is zero whatever was in the pool; and where a call that outlives a close breaks this.
  \<^item> \<open>Memory_Release\<close>, \<open>Memory_Release_Invariant\<close>: the protocol of \<^verbatim>\<open>memory.go\<close>, \<^verbatim>\<open>module_instance.go\<close> and \<^verbatim>\<open>store.go\<close> between closes and
    running calls, as interleaved atomic steps of any number of threads. Shown: an invariant from which a region is returned once, never under
    a registered call, and never lost; and two schedules in which the code misses a call.

  The root theory holds what spans components: when a task may resolve, in terms of the handles of
  its instance.

  \<^bold>\<open>Correspondence.\<close> Definitions keep the names of the Go functions; a method that shares its name with
  another is prefixed with its receiver. A Go error or panic is a value \<open>Inl e\<close>, with one constructor
  for each message. Pointers are addresses of a heap where two holders may see the same object
  (resource entries, waitables, sets, subtasks, tasks); everything else is passed as a value. Go's
  \<^verbatim>\<open>uint32\<close> and \<^verbatim>\<open>uint64\<close> are words that wrap; \<^verbatim>\<open>int\<close> counters are unbounded integers: each changes by one at a
  step and needs \<open>2 ^ 63\<close> steps to leave 64 bits. Guest code, destructors and the closures of stream and future
  events are parameters.

  \<^bold>\<open>Loops and fuel.\<close> Loops over data are structural recursion. The walks over types follow type
  indices through the resolver, which a malformed resolver could make cyclic; they carry fuel, and
  running out of it is a distinct result. \<open>layout_walks_return\<close> and \<open>flatten_walks_return\<close> show that
  on every type of finite nesting enough fuel gives a result, and more fuel does not change it.

  \<^bold>\<open>Not modelled.\<close> The engines (interpreter and native compiler), decoding and validation of modules,
  instantiation and linking, streams and futures beyond their waitable, the WIT front end, the system
  interface, memories with an allocator of the embedder, and, in the component runtime, goroutines with their channels: between two calls into guest code the runtime holds a
  baton, so that its operations do not interleave, and the steps here are the stretches between
  those calls. The implicit task of a synchronous call (\<^verbatim>\<open>syncBase\<close>) is always absent here.
\<close>

section \<open>Tasks and the handles of their instance\<close>

text \<open>A task that runs while a borrow scoped to it is live.\<close>

definition demo_borrowed :: "(unit, unit, unit, nat) tstate" where
  "demo_borrowed = (case NewBorrowScoped 7 42 (Some 0) newHandleTable empty_heap of
     Inr (i, t, h) \<Rightarrow> demo_again\<lparr>asy := demo_init\<lparr>resources := t, hp := h\<rparr>\<rparr> | Inl _ \<Rightarrow> demo_again)"

lemma demo_borrowed_inv: "heap_inv (resources (asy demo_borrowed)) (hp (asy demo_borrowed))"
proof -
  obtain i t h where n: "NewBorrowScoped 7 42 (Some 0) (newHandleTable :: unit handleTable) empty_heap = Inr (i, t, h)"
    by (cases "addEntry (Res (brk empty_heap)) (newHandleTable :: unit handleTable)") (simp add: NewBorrowScoped_def Let_def)
  have "heap_inv t h" using ht_step_inv [OF ht_step.new_scoped [OF _ n]] by simp
  then show ?thesis by (simp add: demo_borrowed_def n)
qed

lemma demo_borrowed_simps: "state (tasks demo_borrowed 0) \<noteq> taskResolved" "scoped (resources (asy demo_borrowed)) (hp (asy demo_borrowed)) 0 \<noteq> {}"
proof -
  show "state (tasks demo_borrowed 0) \<noteq> taskResolved"
    by (simp add: demo_borrowed_def demo_again_simps demo_task_def split: sum.splits prod.splits)
  have "1 \<in> scoped (resources (asy demo_borrowed)) (hp (asy demo_borrowed)) 0"
    by (simp add: demo_borrowed_def NewBorrowScoped_def Let_def newHandleTable_def empty_heap_def addEntry_def scoped_def live_at_def)
  then show "scoped (resources (asy demo_borrowed)) (hp (asy demo_borrowed)) 0 \<noteq> {}" by blast
qed

text \<open>
  C11. A task may return its results exactly when it has not resolved and no handle of the instance
  is a borrow scoped to it, and may acknowledge a cancellation exactly when one was delivered
  and no such handle is left; otherwise the error counts these handles.
\<close>

theorem task_resolves_without_borrows:
  assumes "heap_inv (resources (asy st)) (hp (asy st))"
  shows "((\<exists>st'. returnValues k vals st = Inr st') \<longleftrightarrow>
       state (tasks st k) \<noteq> taskResolved \<and> scoped (resources (asy st)) (hp (asy st)) k = {}) \<and>
     ((\<exists>st'. cancelResolve k st = Inr st') \<longleftrightarrow>
       state (tasks st k) = taskCancelDelivered \<and> scoped (resources (asy st)) (hp (asy st)) k = {}) \<and>
     (state (tasks st k) \<noteq> taskResolved \<longrightarrow> scoped (resources (asy st)) (hp (asy st)) k \<noteq> {} \<longrightarrow>
       returnValues k vals st = Inl (Borrows_remain (int (card (scoped (resources (asy st)) (hp (asy st)) k)))))"
proof -
  let ?s = "scoped (resources (asy st)) (hp (asy st)) k"
  have b: "borrows k st = int (card ?s)" using assms by (simp add: heap_inv_def borrows_def)
  then have "0 < borrows k st \<longleftrightarrow> ?s \<noteq> {}" by (simp add: card_gt_0_iff)
  then show ?thesis using b by (simp add: returnValues_def cancelResolve_def Let_def)
qed

theorem task_resolves_without_borrows_witness:
  "heap_inv (resources (asy demo_borrowed)) (hp (asy demo_borrowed)) \<and>
   returnValues 0 [7] demo_borrowed = Inl (Borrows_remain (int (card (scoped (resources (asy demo_borrowed)) (hp (asy demo_borrowed)) 0))))"
proof
  show inv: "heap_inv (resources (asy demo_borrowed)) (hp (asy demo_borrowed))" by (rule demo_borrowed_inv)
  show "returnValues 0 [7] demo_borrowed = Inl (Borrows_remain (int (card (scoped (resources (asy demo_borrowed)) (hp (asy demo_borrowed)) 0))))"
    using task_resolves_without_borrows [OF inv, of 0 "[7]"] demo_borrowed_simps by simp
qed

end
